(* ===== verification/Prelude.thy ===== *)
theory Prelude
  imports Main "HOL-Library.Word" "HOL-Library.Monad_Syntax" "HOL-Library.List_Lexorder"
    "HOL-Library.Char_ord"
begin

text \<open>
  Shared material of the development: the machine integers of the C++ code, the error codes it
  returns, the collections of rewrite rules used by the component proofs, and generic lemmas on
  the option monad and on association lists sorted by key.

  A C++ computation that can run into a failing \<^verbatim>\<open>assert\<close>, a null dereference or a read of an
  empty container is a value of type \<^typ>\<open>'a option\<close>: \<open>None\<close> is such a failing run (or one that
  does not end), \<open>Some x\<close> a run that produces \<open>x\<close>.
\<close>

section \<open>Machine integers and error codes\<close>

type_synonym u64 = "64 word"
type_synonym u16 = "16 word"

datatype errno = ENOENT | EINVAL | ENODATA | EROFS | EIO

text \<open>\<^verbatim>\<open>std::numeric_limits<int64_t>::min()\<close>, the rid of the nil node.\<close>

definition int64_min :: int where
  "int64_min = - (2 ^ 63)"

section \<open>Collections of facts\<close>

named_theorems heap_simps \<open>reads of the node heap after writes\<close>
named_theorems tree_simps \<open>equations of the tree abstraction\<close>

section \<open>The option monad\<close>

lemma bind_Some_iff [simp]:
  "Option.bind m f = Some y \<longleftrightarrow> (\<exists>x. m = Some x \<and> f x = Some y)"
  by (cases m) auto

lemma bind_if_distrib:
  "Option.bind (if b then x else y) f = (if b then Option.bind x f else Option.bind y f)"
  by simp

text \<open>\<^verbatim>\<open>front()\<close> and \<^verbatim>\<open>pop_front()\<close> of a \<^verbatim>\<open>std::deque\<close>; on an empty container the C++ behaviour is
  undefined.\<close>

fun front :: "'a list \<Rightarrow> 'a option" where
  "front [] = None"
| "front (x # xs) = Some x"

fun pop_front :: "'a list \<Rightarrow> ('a \<times> 'a list) option" where
  "pop_front [] = None"
| "pop_front (x # xs) = Some (x, xs)"

section \<open>Association lists sorted by key\<close>

abbreviation skeys :: "('k::linorder \<times> 'v) list \<Rightarrow> bool" where
  "skeys ps \<equiv> sorted_wrt (<) (map fst ps)"

text \<open>The entries with a key bound to a value, and without a key.\<close>

definition put_list :: "'k::linorder \<Rightarrow> 'v \<Rightarrow> ('k \<times> 'v) list \<Rightarrow> ('k \<times> 'v) list" where
  "put_list k v ps = filter (\<lambda>p. fst p < k) ps @ (k, v) # filter (\<lambda>p. k < fst p) ps"

definition del_list :: "'k \<Rightarrow> ('k \<times> 'v) list \<Rightarrow> ('k \<times> 'v) list" where
  "del_list x ps = filter (\<lambda>p. fst p \<noteq> x) ps"

lemma map_of_filter_key: "map_of (filter (\<lambda>p. P (fst p)) ps) x = (if P x then map_of ps x else None)"
  by (induction ps) auto

lemma map_of_put_list: "map_of (put_list k v ps) = (map_of ps)(k \<mapsto> v)"
proof (rule ext)
  fix x
  note f = map_of_filter_key [of "\<lambda>a. a < k" ps x] map_of_filter_key [of "\<lambda>a. k < a" ps x]
  consider "x < k" | "x = k" | "k < x" by fastforce
  then show "map_of (put_list k v ps) x = ((map_of ps)(k \<mapsto> v)) x"
    by cases (use f in \<open>auto simp: put_list_def map_add_def split: option.splits\<close>)
qed

lemma skeys_put_list: "skeys ps \<Longrightarrow> skeys (put_list k v ps)"
  by (auto simp: put_list_def sorted_wrt_append sorted_wrt_map intro: sorted_wrt_filter)

lemma map_of_del_list: "map_of (del_list x ps) = (map_of ps)(x := None)"
  by (induction ps) (auto simp: del_list_def)

lemma skeys_del_list: "skeys ps \<Longrightarrow> skeys (del_list x ps)"
  by (induction ps) (auto simp: del_list_def)

lemma skeys_append:
  "skeys (xs @ ys) \<longleftrightarrow> skeys xs \<and> skeys ys \<and> (\<forall>x \<in> set xs. \<forall>y \<in> set ys. fst x < fst y)"
  by (simp add: sorted_wrt_append)

lemma put_list_mid:
  assumes "\<forall>p \<in> set xs. fst p < k" and "\<forall>p \<in> set ys. k < fst p"
  shows "put_list k v (xs @ ys) = xs @ (k, v) # ys"
proof -
  have "filter (\<lambda>p. fst p < k) xs = xs" "filter (\<lambda>p. k < fst p) xs = []"
    "filter (\<lambda>p. fst p < k) ys = []" "filter (\<lambda>p. k < fst p) ys = ys"
    using assms by (force simp: filter_empty_conv filter_id_conv)+
  then show ?thesis by (simp add: put_list_def)
qed

lemma del_list_hit:
  fixes k :: "'k::linorder"
  assumes "\<forall>p \<in> set xs. fst p < k" and "\<forall>p \<in> set ys. k < fst p"
  shows "del_list k (xs @ (k, w) # ys) = xs @ ys"
proof -
  have "filter (\<lambda>p. fst p \<noteq> k) xs = xs"
    using assms(1) by (auto intro!: filter_True)
  moreover have "filter (\<lambda>p. fst p \<noteq> k) ys = ys"
    using assms(2) by (auto intro!: filter_True)
  ultimately show ?thesis by (simp add: del_list_def)
qed

lemma del_list_miss: "k \<notin> fst ` set ps \<Longrightarrow> del_list k ps = ps"
  by (force simp: del_list_def filter_id_conv)

lemma put_list_del_list: "put_list k v (del_list k ps) = put_list k v ps"
proof -
  have "filter (\<lambda>p. fst p \<noteq> k \<and> fst p < k) ps = filter (\<lambda>p. fst p < k) ps"
    "filter (\<lambda>p. fst p \<noteq> k \<and> k < fst p) ps = filter (\<lambda>p. k < fst p) ps"
    by (auto intro!: filter_cong)
  then show ?thesis by (simp add: put_list_def del_list_def)
qed

end
