(* ===== verification/Node.thy ===== *)
theory Node
  imports Prelude
begin

text \<open>
  The in-memory tree nodes of \<^verbatim>\<open>src/db/node.h\<close>: physical node addresses, node pointers, nodes and
  the heap they live in. A \<^verbatim>\<open>SharedNodeRef\<close> is a number that names a node of the heap; \<^verbatim>\<open>Node::Nil()\<close>
  is the node with number \<open>0\<close>. The weak reference of a \<^verbatim>\<open>NodePtr\<close> is an optional number: \<open>None\<close> is a
  reference that is null or expired, which \<^verbatim>\<open>NodePtr::ref\<close> resolves through the node cache (that
  resolution is the subject of the theory \<open>NodeCache\<close>); a tree operation that meets one has the result
  \<open>None\<close> here. Locking is not part of the model, and neither is the access trace that \<^verbatim>\<open>ref\<close> records:
  it is only a hint for the cache's replacement policy.

  Keys are values of a linearly ordered type: the order stands for \<^verbatim>\<open>zlog::Slice::compare\<close>, which is
  not part of the repository.
\<close>

section \<open>Addresses and pointers\<close>

record node_address =
  position :: u64
  offset :: u16
  is_afterimage :: bool

text \<open>\<^verbatim>\<open>operator<(NodeAddress, NodeAddress)\<close>: by position, then by offset.\<close>

definition address_less :: "node_address \<Rightarrow> node_address \<Rightarrow> bool" where
  "address_less a b =
     (if position a < position b then True
      else if position a > position b then False
      else if offset a < offset b then True
      else False)"

record node_ptr =
  np_ref :: "nat option"
  np_addr :: "node_address option"

text \<open>\<^verbatim>\<open>NodePtr::SetAddress\<close> asserts that there is no address yet; \<^verbatim>\<open>SetIntentionAddress\<close> does not.\<close>

definition SetAddress :: "node_address option \<Rightarrow> node_ptr \<Rightarrow> node_ptr option" where
  "SetAddress a p = (if np_addr p \<noteq> None then None else Some (p\<lparr>np_addr := a\<rparr>))"

definition SetIntentionAddress :: "u64 \<Rightarrow> u16 \<Rightarrow> node_ptr \<Rightarrow> node_ptr" where
  "SetIntentionAddress pos off p =
     p\<lparr>np_addr := Some \<lparr>position = pos, offset = off, is_afterimage = False\<rparr>\<rparr>"

definition SetAfterImageAddress :: "u64 \<Rightarrow> u16 \<Rightarrow> node_ptr \<Rightarrow> node_ptr option" where
  "SetAfterImageAddress pos off p =
     (if np_addr p \<noteq> None then None
      else Some (p\<lparr>np_addr := Some \<lparr>position = pos, offset = off, is_afterimage = True\<rparr>\<rparr>))"

definition ConvertToAfterImage :: "u64 \<Rightarrow> node_ptr \<Rightarrow> node_ptr option" where
  "ConvertToAfterImage pos p =
     (case np_addr p of
        None \<Rightarrow> None
      | Some a \<Rightarrow>
          if is_afterimage a then None
          else if \<not> position a < pos then None
          else Some (p\<lparr>np_addr :=
                 Some \<lparr>position = pos, offset = offset a, is_afterimage = True\<rparr>\<rparr>))"

section \<open>Nodes and the heap\<close>

record ('k, 'v) node =
  nd_left :: node_ptr
  nd_right :: node_ptr
  nd_key :: 'k
  nd_val :: 'v
  nd_red :: bool
  nd_rid :: int
  nd_read_only :: bool

record ('k, 'v) heap =
  nodes :: "nat \<Rightarrow> ('k, 'v) node option"
  next_node :: nat

abbreviation Nil_id :: nat where
  "Nil_id \<equiv> 0"

text \<open>\<^verbatim>\<open>Node::Nil()\<close>: black, read-only, with the smallest rid and without children. The payload of the
  nil node is never read; the model leaves it open.\<close>

definition is_nil_node :: "('k, 'v) node \<Rightarrow> bool" where
  "is_nil_node nd \<longleftrightarrow>
     \<not> nd_red nd \<and> nd_rid nd = int64_min \<and> nd_read_only nd \<and>
     np_ref (nd_left nd) = None \<and> np_addr (nd_left nd) = None \<and>
     np_ref (nd_right nd) = None \<and> np_addr (nd_right nd) = None"

text \<open>The child accessors \<^verbatim>\<open>left\<close> and \<^verbatim>\<open>right\<close> that the tree code passes as template arguments.\<close>

datatype dir = DL | DR

fun opp :: "dir \<Rightarrow> dir" where
  "opp DL = DR"
| "opp DR = DL"

fun child :: "dir \<Rightarrow> ('k, 'v) node \<Rightarrow> node_ptr" where
  "child DL nd = nd_left nd"
| "child DR nd = nd_right nd"

fun set_child :: "dir \<Rightarrow> node_ptr \<Rightarrow> ('k, 'v) node \<Rightarrow> ('k, 'v) node" where
  "set_child DL p nd = nd\<lparr>nd_left := p\<rparr>"
| "set_child DR p nd = nd\<lparr>nd_right := p\<rparr>"

text \<open>Reads and writes of one node. A write to a node that is not in the heap cannot happen in C++
  and is \<open>None\<close>; \<^verbatim>\<open>set_red\<close>, \<^verbatim>\<open>swap_color\<close>, \<^verbatim>\<open>set_rid\<close> and \<^verbatim>\<open>steal_payload\<close> assert that the nodes are not
  read-only.\<close>

definition put_node ::
  "nat \<Rightarrow> ('k, 'v) node \<Rightarrow> ('k, 'v, 'b) heap_scheme \<Rightarrow> ('k, 'v, 'b) heap_scheme" where
  "put_node n nd T = T\<lparr>nodes := (nodes T)(n \<mapsto> nd)\<rparr>"

definition upd_node ::
  "nat \<Rightarrow> (('k, 'v) node \<Rightarrow> ('k, 'v) node) \<Rightarrow> ('k, 'v, 'b) heap_scheme \<Rightarrow> ('k, 'v, 'b) heap_scheme option"
where
  "upd_node n f T =
     (case nodes T n of None \<Rightarrow> None | Some nd \<Rightarrow> Some (put_node n (f nd) T))"

definition child_ref :: "dir \<Rightarrow> nat \<Rightarrow> ('k, 'v, 'b) heap_scheme \<Rightarrow> nat option" where
  "child_ref d n T = do { nd \<leftarrow> nodes T n; np_ref (child d nd) }"

definition get_red :: "nat \<Rightarrow> ('k, 'v, 'b) heap_scheme \<Rightarrow> bool option" where
  "get_red n T = map_option nd_red (nodes T n)"

definition get_rid :: "nat \<Rightarrow> ('k, 'v, 'b) heap_scheme \<Rightarrow> int option" where
  "get_rid n T = map_option nd_rid (nodes T n)"

definition set_ref ::
  "dir \<Rightarrow> nat \<Rightarrow> nat \<Rightarrow> ('k, 'v, 'b) heap_scheme \<Rightarrow> ('k, 'v, 'b) heap_scheme option" where
  "set_ref d n q T = upd_node n (\<lambda>nd. set_child d ((child d nd)\<lparr>np_ref := Some q\<rparr>) nd) T"

definition assign_ptr ::
  "dir \<Rightarrow> nat \<Rightarrow> node_ptr \<Rightarrow> ('k, 'v, 'b) heap_scheme \<Rightarrow> ('k, 'v, 'b) heap_scheme option" where
  "assign_ptr d n p T = upd_node n (set_child d p) T"

definition set_red ::
  "nat \<Rightarrow> bool \<Rightarrow> ('k, 'v, 'b) heap_scheme \<Rightarrow> ('k, 'v, 'b) heap_scheme option" where
  "set_red n b T = do {
     nd \<leftarrow> nodes T n;
     if nd_read_only nd then None else upd_node n (\<lambda>nd. nd\<lparr>nd_red := b\<rparr>) T }"

definition set_rid ::
  "nat \<Rightarrow> int \<Rightarrow> ('k, 'v, 'b) heap_scheme \<Rightarrow> ('k, 'v, 'b) heap_scheme option" where
  "set_rid n r T = do {
     nd \<leftarrow> nodes T n;
     if nd_read_only nd then None else upd_node n (\<lambda>nd. nd\<lparr>nd_rid := r\<rparr>) T }"

definition set_read_only ::
  "nat \<Rightarrow> ('k, 'v, 'b) heap_scheme \<Rightarrow> ('k, 'v, 'b) heap_scheme option" where
  "set_read_only n T = do {
     nd \<leftarrow> nodes T n;
     if nd_read_only nd then None else upd_node n (\<lambda>nd. nd\<lparr>nd_read_only := True\<rparr>) T }"

definition swap_color ::
  "nat \<Rightarrow> nat \<Rightarrow> ('k, 'v, 'b) heap_scheme \<Rightarrow> ('k, 'v, 'b) heap_scheme option" where
  "swap_color n m T = do {
     nd \<leftarrow> nodes T n;
     md \<leftarrow> nodes T m;
     if nd_read_only nd \<or> nd_read_only md then None
     else do {
       T \<leftarrow> upd_node n (\<lambda>x. x\<lparr>nd_red := nd_red md\<rparr>) T;
       upd_node m (\<lambda>x. x\<lparr>nd_red := nd_red nd\<rparr>) T } }"

text \<open>\<^verbatim>\<open>steal_payload\<close> moves the strings out of the other node; what a moved-from string holds is
  unspecified, and the other node is not reachable afterwards: the model leaves it as it is.\<close>

definition steal_payload ::
  "nat \<Rightarrow> nat \<Rightarrow> ('k, 'v, 'b) heap_scheme \<Rightarrow> ('k, 'v, 'b) heap_scheme option" where
  "steal_payload n other T = do {
     nd \<leftarrow> nodes T n;
     od \<leftarrow> nodes T other;
     if nd_read_only nd \<or> nd_read_only od then None
     else upd_node n (\<lambda>x. x\<lparr>nd_key := nd_key od, nd_val := nd_val od\<rparr>) T }"

definition alloc_node ::
  "('k, 'v) node \<Rightarrow> ('k, 'v, 'b) heap_scheme \<Rightarrow> nat \<times> ('k, 'v, 'b) heap_scheme" where
  "alloc_node nd T =
     (next_node T, put_node (next_node T) nd (T\<lparr>next_node := Suc (next_node T)\<rparr>))"

text \<open>\<^verbatim>\<open>Node::Copy\<close>: nil is its own copy; any other node is copied with the new rid, both children
  resolved and their addresses kept.\<close>

definition Copy_node ::
  "nat \<Rightarrow> int \<Rightarrow> ('k, 'v, 'b) heap_scheme \<Rightarrow> (nat \<times> ('k, 'v, 'b) heap_scheme) option" where
  "Copy_node src r T =
     (if src = Nil_id then Some (Nil_id, T)
      else do {
        nd \<leftarrow> nodes T src;
        l \<leftarrow> np_ref (nd_left nd);
        q \<leftarrow> np_ref (nd_right nd);
        lp \<leftarrow> SetAddress (np_addr (nd_left nd)) \<lparr>np_ref = Some l, np_addr = None\<rparr>;
        rp \<leftarrow> SetAddress (np_addr (nd_right nd)) \<lparr>np_ref = Some q, np_addr = None\<rparr>;
        Some (alloc_node
          \<lparr>nd_left = lp, nd_right = rp, nd_key = nd_key nd, nd_val = nd_val nd,
           nd_red = nd_red nd, nd_rid = r, nd_read_only = False\<rparr> T) })"

section \<open>Lemmas\<close>

lemma opp_opp [simp]: "opp (opp d) = d"
  by (cases d) simp_all

lemma opp_neq [simp]: "opp d \<noteq> d" "d \<noteq> opp d"
  by (cases d; simp)+

lemma child_set_child [simp]:
  "child d (set_child d p nd) = p"
  "child (opp d) (set_child d p nd) = child (opp d) nd"
  "child d (set_child (opp d) p nd) = child d nd"
  by (cases d; simp)+

lemma set_child_fields [simp]:
  "nd_key (set_child d p nd) = nd_key nd"
  "nd_val (set_child d p nd) = nd_val nd"
  "nd_red (set_child d p nd) = nd_red nd"
  "nd_rid (set_child d p nd) = nd_rid nd"
  "nd_read_only (set_child d p nd) = nd_read_only nd"
  by (cases d; simp)+

lemma child_fields [simp]:
  "child d (nd\<lparr>nd_red := b\<rparr>) = child d nd"
  "child d (nd\<lparr>nd_key := x\<rparr>) = child d nd"
  "child d (nd\<lparr>nd_val := y\<rparr>) = child d nd"
  "child d (nd\<lparr>nd_rid := r\<rparr>) = child d nd"
  "child d (nd\<lparr>nd_read_only := b\<rparr>) = child d nd"
  by (cases d; simp)+

lemma set_child_same: "set_child d (child d nd) nd = nd"
  by (cases d) simp_all

lemma np_ref_same: "np_ref p = Some q \<Longrightarrow> p\<lparr>np_ref := Some q\<rparr> = p"
  by simp

text \<open>Each operation on a node that is in the heap, as one write.\<close>

lemma nodes_put_node [simp]: "nodes (put_node n nd T) = (nodes T)(n \<mapsto> nd)"
  by (simp add: put_node_def)

lemma next_put_node [simp]: "next_node (put_node n nd T) = next_node T"
  by (simp add: put_node_def)

lemma child_ref_eq [heap_simps]: "nodes T n = Some nd \<Longrightarrow> child_ref d n T = np_ref (child d nd)"
  by (simp add: child_ref_def)

lemma get_red_eq [heap_simps]: "nodes T n = Some nd \<Longrightarrow> get_red n T = Some (nd_red nd)"
  by (simp add: get_red_def)

lemma get_rid_eq [heap_simps]: "nodes T n = Some nd \<Longrightarrow> get_rid n T = Some (nd_rid nd)"
  by (simp add: get_rid_def)

lemma set_ref_eq [heap_simps]:
  "nodes T n = Some nd \<Longrightarrow>
   set_ref d n q T = Some (put_node n (set_child d ((child d nd)\<lparr>np_ref := Some q\<rparr>) nd) T)"
  by (simp add: set_ref_def upd_node_def)

lemma assign_ptr_eq [heap_simps]:
  "nodes T n = Some nd \<Longrightarrow> assign_ptr d n p T = Some (put_node n (set_child d p nd) T)"
  by (simp add: assign_ptr_def upd_node_def)

lemma set_red_eq [heap_simps]:
  "nodes T n = Some nd \<Longrightarrow> \<not> nd_read_only nd \<Longrightarrow>
   set_red n b T = Some (put_node n (nd\<lparr>nd_red := b\<rparr>) T)"
  by (simp add: set_red_def upd_node_def)

lemma swap_color_eq [heap_simps]:
  "nodes T n = Some nd \<Longrightarrow> nodes T m = Some md \<Longrightarrow> n \<noteq> m \<Longrightarrow>
   \<not> nd_read_only nd \<Longrightarrow> \<not> nd_read_only md \<Longrightarrow>
   swap_color n m T =
     Some (put_node m (md\<lparr>nd_red := nd_red nd\<rparr>) (put_node n (nd\<lparr>nd_red := nd_red md\<rparr>) T))"
  by (simp add: swap_color_def upd_node_def)

lemma steal_payload_eq [heap_simps]:
  "nodes T n = Some nd \<Longrightarrow> nodes T m = Some md \<Longrightarrow>
   \<not> nd_read_only nd \<Longrightarrow> \<not> nd_read_only md \<Longrightarrow>
   steal_payload n m T =
     Some (put_node n (nd\<lparr>nd_key := nd_key md, nd_val := nd_val md\<rparr>) T)"
  by (simp add: steal_payload_def upd_node_def)

end
