(* ===== verification/PersistentTree.thy ===== *)
theory PersistentTree
  imports Node
begin

text \<open>
  The copy-on-write red-black tree of \<^verbatim>\<open>src/db/persistent_tree.cc\<close>. A tree object is the heap of nodes
  extended with the members of \<^verbatim>\<open>PersistentTree\<close>, so that a method is a function from the tree to the
  tree. Nodes whose rid is the rid of the tree are the tree's own and are updated in place; every other
  node is shared with other versions and is copied before it is changed. The theories
  \<open>TreeAbs\<close>, \<open>TreeInsert\<close> and \<open>TreeDelete\<close> prove these operations correct.
\<close>

record ('k, 'v) ptree = "('k, 'v) heap" +
  src_root :: node_ptr
  root :: "nat option"
  rid :: int
  intention :: "u64 option"
  afterimage :: "u64 option"
  fresh_nodes :: "nat list"

text \<open>The constructors: a tree starts from a snapshot, with no root of its own.\<close>

definition new_ptree ::
  "('k, 'v) heap \<Rightarrow> node_ptr \<Rightarrow> int \<Rightarrow> u64 option \<Rightarrow> ('k, 'v) ptree" where
  "new_ptree H p r i =
     heap.extend H
       \<lparr>src_root = p, root = None, rid = r, intention = i, afterimage = None, fresh_nodes = []\<rparr>"

definition ReadOnly :: "('k, 'v) ptree \<Rightarrow> bool" where
  "ReadOnly T \<longleftrightarrow> root T = None"

definition SetIntention :: "u64 \<Rightarrow> ('k, 'v) ptree \<Rightarrow> ('k, 'v) ptree option" where
  "SetIntention pos T = (if intention T \<noteq> None then None else Some (T\<lparr>intention := Some pos\<rparr>))"

definition SetAfterImage :: "u64 \<Rightarrow> ('k, 'v) ptree \<Rightarrow> ('k, 'v) ptree option" where
  "SetAfterImage pos T = (if afterimage T \<noteq> None then None else Some (T\<lparr>afterimage := Some pos\<rparr>))"

text \<open>\<^verbatim>\<open>root_ == nullptr ? src_root_.ref(trace_) : root_\<close>\<close>

definition base_root :: "('k, 'v) ptree \<Rightarrow> nat option" where
  "base_root T = (case root T of None \<Rightarrow> np_ref (src_root T) | Some n \<Rightarrow> Some n)"

section \<open>Fresh nodes\<close>

definition push_fresh :: "nat \<Rightarrow> ('k, 'v) ptree \<Rightarrow> ('k, 'v) ptree" where
  "push_fresh n T = T\<lparr>fresh_nodes := fresh_nodes T @ [n]\<rparr>"

definition fresh_copy :: "nat \<Rightarrow> ('k, 'v) ptree \<Rightarrow> (nat \<times> ('k, 'v) ptree) option" where
  "fresh_copy n T = do {
     (c, T) \<leftarrow> Copy_node n (rid T) T;
     Some (c, push_fresh c T) }"

text \<open>\<^verbatim>\<open>if (node->rid() == rid_) copy = node; else { copy = Node::Copy(...); fresh_nodes_.push_back(copy); }\<close>\<close>

definition own_copy :: "nat \<Rightarrow> ('k, 'v) ptree \<Rightarrow> (nat \<times> ('k, 'v) ptree) option" where
  "own_copy n T = do {
     r \<leftarrow> get_rid n T;
     if r = rid T then Some (n, T) else fresh_copy n T }"

text \<open>The same for the child of a node, whose pointer is then redirected to the copy.\<close>

definition own_child :: "dir \<Rightarrow> nat \<Rightarrow> ('k, 'v) ptree \<Rightarrow> ('k, 'v) ptree option" where
  "own_child d n T = do {
     c \<leftarrow> child_ref d n T;
     r \<leftarrow> get_rid c T;
     if r \<noteq> rid T then do {
       (c', T) \<leftarrow> fresh_copy c T;
       set_ref d n c' T }
     else Some T }"

section \<open>Insertion\<close>

definition new_leaf :: "'k \<Rightarrow> 'v \<Rightarrow> int \<Rightarrow> ('k, 'v) node" where
  "new_leaf k v r =
     \<lparr>nd_left = \<lparr>np_ref = Some Nil_id, np_addr = None\<rparr>,
      nd_right = \<lparr>np_ref = Some Nil_id, np_addr = None\<rparr>,
      nd_key = k, nd_val = v, nd_red = True, nd_rid = r, nd_read_only = False\<rparr>"

partial_function (option) insert_recursive ::
  "('k::linorder, 'v) ptree \<Rightarrow> nat list \<Rightarrow> 'k \<Rightarrow> 'v \<Rightarrow> nat
     \<Rightarrow> (nat option \<times> nat list \<times> ('k, 'v) ptree) option" where
  "insert_recursive T path k v n =
     (if n = Nil_id then
        let (nn, T) = alloc_node (new_leaf k v (rid T)) T
        in Some (Some nn, path @ [nn], push_fresh nn T)
      else do {
        nd \<leftarrow> nodes T n;
        if k = nd_key nd then Some (None, path, T)
        else do {
          c \<leftarrow> (if k < nd_key nd then np_ref (nd_left nd) else np_ref (nd_right nd));
          (ch, path, T) \<leftarrow> insert_recursive T path k v c;
          case ch of
            None \<Rightarrow> Some (None, path, T)
          | Some ch \<Rightarrow> do {
              (copy, T) \<leftarrow> own_copy n T;
              T \<leftarrow> set_ref (if k < nd_key nd then DL else DR) copy ch T;
              Some (Some copy, path @ [copy], T) } } })"

text \<open>\<^verbatim>\<open>rotate\<close> returns the grandchild that takes the child's place, and the root, which it may replace.
  \<open>d\<close> is \<^verbatim>\<open>child_a\<close>, \<open>opp d\<close> is \<^verbatim>\<open>child_b\<close>.\<close>

definition rotate_nodes ::
  "nat \<Rightarrow> nat \<Rightarrow> dir \<Rightarrow> nat \<Rightarrow> ('k, 'v) ptree \<Rightarrow> (nat \<times> nat \<times> ('k, 'v) ptree) option" where
  "rotate_nodes parent ch d rt T = do {
     cd \<leftarrow> nodes T ch;
     let grand_child = child (opp d) cd;
     gc \<leftarrow> np_ref grand_child;
     gd \<leftarrow> nodes T gc;
     T \<leftarrow> assign_ptr (opp d) ch (child d gd) T;
     (rt, T) \<leftarrow>
       (if rt = ch then Some (gc, T)
        else do {
          pa \<leftarrow> child_ref d parent T;
          T \<leftarrow> (if pa = ch then assign_ptr d parent grand_child T
                else assign_ptr (opp d) parent grand_child T);
          Some (rt, T) });
     r \<leftarrow> get_rid ch T;
     if r \<noteq> rid T then None
     else do {
       T \<leftarrow> set_ref d gc ch T;
       Some (gc, rt, T) } }"

text \<open>\<^verbatim>\<open>insert_balance\<close> updates its reference parameters \<^verbatim>\<open>parent\<close>, \<^verbatim>\<open>nn\<close>, \<^verbatim>\<open>path\<close> and \<^verbatim>\<open>root\<close>: the model
  returns them.\<close>

definition insert_balance ::
  "dir \<Rightarrow> nat \<Rightarrow> nat \<Rightarrow> nat list \<Rightarrow> nat \<Rightarrow> ('k, 'v) ptree
     \<Rightarrow> (nat \<times> nat \<times> nat list \<times> nat \<times> ('k, 'v) ptree) option" where
  "insert_balance d parent nn path rt T = do {
     g \<leftarrow> front path;
     if g = Nil_id then None
     else do {
       uncle \<leftarrow> child_ref (opp d) g T;
       ured \<leftarrow> get_red uncle T;
       if ured then do {
         T \<leftarrow> own_child (opp d) g T;
         T \<leftarrow> set_red parent False T;
         uncle \<leftarrow> child_ref (opp d) g T;
         T \<leftarrow> set_red uncle False T;
         T \<leftarrow> set_red g True T;
         (nn, path) \<leftarrow> pop_front path;
         (parent, path) \<leftarrow> pop_front path;
         Some (parent, nn, path, rt, T) }
       else do {
         pb \<leftarrow> child_ref (opp d) parent T;
         (parent, nn, rt, T) \<leftarrow>
           (if nn = pb then do {
              (_, rt, T) \<leftarrow> rotate_nodes g parent d rt T;
              Some (nn, parent, rt, T) }
            else Some (parent, nn, rt, T));
         (grand_parent, path) \<leftarrow> pop_front path;
         T \<leftarrow> swap_color grand_parent parent T;
         f \<leftarrow> front path;
         (_, rt, T) \<leftarrow> rotate_nodes f grand_parent (opp d) rt T;
         Some (parent, nn, path, rt, T) } } }"

text \<open>The balancing loop of \<^verbatim>\<open>Put\<close>.\<close>

partial_function (option) insert_loop ::
  "nat \<Rightarrow> nat \<Rightarrow> nat list \<Rightarrow> nat \<Rightarrow> ('k, 'v) ptree \<Rightarrow> (nat \<times> ('k, 'v) ptree) option" where
  "insert_loop parent nn path rt T = do {
     pred \<leftarrow> get_red parent T;
     if \<not> pred then Some (rt, T)
     else do {
       g \<leftarrow> front path;
       gl \<leftarrow> child_ref DL g T;
       (parent, nn, path, rt, T) \<leftarrow>
         insert_balance (if gl = parent then DL else DR) parent nn path rt T;
       insert_loop parent nn path rt T } }"

section \<open>Deletion\<close>

partial_function (option) delete_recursive ::
  "('k::linorder, 'v) ptree \<Rightarrow> nat list \<Rightarrow> 'k \<Rightarrow> nat
     \<Rightarrow> (nat option \<times> nat list \<times> ('k, 'v) ptree) option" where
  "delete_recursive T path k n =
     (if n = Nil_id then Some (None, path, T)
      else do {
        nd \<leftarrow> nodes T n;
        if k = nd_key nd then do {
          (copy, T) \<leftarrow> own_copy n T;
          Some (Some copy, path @ [copy], T) }
        else do {
          c \<leftarrow> (if k < nd_key nd then np_ref (nd_left nd) else np_ref (nd_right nd));
          (ch, path, T) \<leftarrow> delete_recursive T path k c;
          case ch of
            None \<Rightarrow> Some (None, path, T)
          | Some ch \<Rightarrow> do {
              (copy, T) \<leftarrow> own_copy n T;
              T \<leftarrow> set_ref (if k < nd_key nd then DL else DR) copy ch T;
              Some (Some copy, path @ [copy], T) } } })"

definition transplant ::
  "nat \<Rightarrow> nat \<Rightarrow> nat \<Rightarrow> nat \<Rightarrow> ('k, 'v) ptree \<Rightarrow> (nat \<times> ('k, 'v) ptree) option" where
  "transplant parent removed transplanted rt T =
     (if parent = Nil_id then Some (transplanted, T)
      else do {
        pl \<leftarrow> child_ref DL parent T;
        T \<leftarrow> (if pl = removed then set_ref DL parent transplanted T
              else set_ref DR parent transplanted T);
        Some (rt, T) })"

partial_function (option) build_min_path ::
  "nat \<Rightarrow> nat list \<Rightarrow> ('k, 'v) ptree \<Rightarrow> (nat \<times> nat list \<times> ('k, 'v) ptree) option" where
  "build_min_path n path T = do {
     l \<leftarrow> child_ref DL n T;
     if l = Nil_id then Some (n, path, T)
     else do {
       T \<leftarrow> own_child DL n T;
       l \<leftarrow> child_ref DL n T;
       build_min_path l (n # path) T } }"

text \<open>The recurring block of \<^verbatim>\<open>mirror_remove_balance\<close> that makes \<^verbatim>\<open>brother\<close> a node of this tree and hangs
  it under the parent.\<close>

definition own_brother ::
  "dir \<Rightarrow> nat \<Rightarrow> nat \<Rightarrow> ('k, 'v) ptree \<Rightarrow> (nat \<times> ('k, 'v) ptree) option" where
  "own_brother d parent brother T = do {
     r \<leftarrow> get_rid brother T;
     T \<leftarrow> (if r \<noteq> rid T then do {
             (n, T) \<leftarrow> fresh_copy brother T;
             set_ref (opp d) parent n T }
           else set_ref (opp d) parent brother T);
     brother \<leftarrow> child_ref (opp d) parent T;
     Some (brother, T) }"

text \<open>\<^verbatim>\<open>mirror_remove_balance\<close> in three parts: a red brother is rotated away; then, with a black brother,
  either both nephews are black and the extra black moves up, or a red nephew absorbs it.\<close>

definition remove_red_brother ::
  "dir \<Rightarrow> nat \<Rightarrow> nat \<Rightarrow> nat list \<Rightarrow> nat \<Rightarrow> ('k, 'v) ptree
     \<Rightarrow> (nat \<times> nat list \<times> nat \<times> ('k, 'v) ptree) option" where
  "remove_red_brother d brother parent path rt T = do {
     (brother, T) \<leftarrow> own_brother d parent brother T;
     T \<leftarrow> swap_color brother parent T;
     f \<leftarrow> front path;
     (_, rt, T) \<leftarrow> rotate_nodes f parent d rt T;
     brother' \<leftarrow> child_ref (opp d) parent T;
     Some (brother', brother # path, rt, T) }"

definition remove_near_red ::
  "dir \<Rightarrow> nat \<Rightarrow> nat \<Rightarrow> nat \<Rightarrow> ('k, 'v) ptree \<Rightarrow> (nat \<times> nat \<times> ('k, 'v) ptree) option" where
  "remove_near_red d brother parent rt T = do {
     (brother, T) \<leftarrow> own_brother d parent brother T;
     T \<leftarrow> own_child d brother T;
     ba \<leftarrow> child_ref d brother T;
     T \<leftarrow> swap_color brother ba T;
     rotate_nodes parent brother (opp d) rt T }"

definition remove_far_red ::
  "dir \<Rightarrow> nat \<Rightarrow> nat \<Rightarrow> nat list \<Rightarrow> nat \<Rightarrow> ('k, 'v) ptree \<Rightarrow> (nat \<times> ('k, 'v) ptree) option" where
  "remove_far_red d brother parent path rt T = do {
     (brother, T) \<leftarrow> own_brother d parent brother T;
     T \<leftarrow> own_child (opp d) brother T;
     pred \<leftarrow> get_red parent T;
     T \<leftarrow> set_red brother pred T;
     T \<leftarrow> set_red parent False T;
     bb \<leftarrow> child_ref (opp d) brother T;
     T \<leftarrow> set_red bb False T;
     f \<leftarrow> front path;
     (_, rt, T) \<leftarrow> rotate_nodes f parent d rt T;
     Some (rt, T) }"

definition remove_black_brother ::
  "dir \<Rightarrow> nat \<Rightarrow> nat \<Rightarrow> nat list \<Rightarrow> nat \<Rightarrow> ('k, 'v) ptree
     \<Rightarrow> (nat \<times> nat \<times> nat list \<times> nat \<times> ('k, 'v) ptree) option" where
  "remove_black_brother d brother parent path rt T = do {
     bl \<leftarrow> child_ref DL brother T;
     br \<leftarrow> child_ref DR brother T;
     blred \<leftarrow> get_red bl T;
     brred \<leftarrow> get_red br T;
     if \<not> blred \<and> \<not> brred then do {
       (brother, T) \<leftarrow> own_brother d parent brother T;
       T \<leftarrow> set_red brother True T;
       (parent', path) \<leftarrow> pop_front path;
       Some (parent, parent', path, rt, T) }
     else do {
       bb \<leftarrow> child_ref (opp d) brother T;
       bbred \<leftarrow> get_red bb T;
       (brother, rt, T) \<leftarrow>
         (if \<not> bbred then remove_near_red d brother parent rt T else Some (brother, rt, T));
       (rt, T) \<leftarrow> remove_far_red d brother parent path rt T;
       Some (rt, Nil_id, path, rt, T) } }"

definition mirror_remove_balance ::
  "dir \<Rightarrow> nat \<Rightarrow> nat \<Rightarrow> nat list \<Rightarrow> nat \<Rightarrow> ('k, 'v) ptree
     \<Rightarrow> (nat \<times> nat \<times> nat list \<times> nat \<times> ('k, 'v) ptree) option" where
  "mirror_remove_balance d extra_black parent path rt T = do {
     brother \<leftarrow> child_ref (opp d) parent T;
     bred \<leftarrow> get_red brother T;
     (brother, path, rt, T) \<leftarrow>
       (if bred then remove_red_brother d brother parent path rt T
        else Some (brother, path, rt, T));
     remove_black_brother d brother parent path rt T }"

partial_function (option) delete_loop ::
  "nat \<Rightarrow> nat \<Rightarrow> nat list \<Rightarrow> nat \<Rightarrow> ('k, 'v) ptree
     \<Rightarrow> (nat \<times> nat \<times> nat \<times> ('k, 'v) ptree) option" where
  "delete_loop extra_black parent path rt T = do {
     ered \<leftarrow> get_red extra_black T;
     if extra_black = rt \<or> ered then Some (extra_black, parent, rt, T)
     else do {
       pl \<leftarrow> child_ref DL parent T;
       (extra_black, parent, path, rt, T) \<leftarrow>
         mirror_remove_balance (if pl = extra_black then DL else DR) extra_black parent path rt T;
       delete_loop extra_black parent path rt T } }"

definition balance_delete ::
  "nat \<Rightarrow> nat list \<Rightarrow> nat \<Rightarrow> ('k, 'v) ptree \<Rightarrow> (nat \<times> ('k, 'v) ptree) option" where
  "balance_delete extra_black path rt T = do {
     (parent, path) \<leftarrow> pop_front path;
     (extra_black, parent, rt, T) \<leftarrow> delete_loop extra_black parent path rt T;
     (new_node, T) \<leftarrow> own_copy extra_black T;
     (rt, T) \<leftarrow> transplant parent extra_black new_node rt T;
     T \<leftarrow> (if new_node \<noteq> Nil_id then set_red new_node False T else Some T);
     Some (rt, T) }"

text \<open>\<^verbatim>\<open>Delete\<close>. A missing key leaves the tree as it is.\<close>

definition Delete :: "'k::linorder \<Rightarrow> ('k, 'v) ptree \<Rightarrow> ('k, 'v) ptree option" where
  "Delete k T = do {
     b \<leftarrow> base_root T;
     (rt, path, T) \<leftarrow> delete_recursive T [] k b;
     case rt of
       None \<Rightarrow> Some T
     | Some rt \<Rightarrow> do {
         let path = path @ [Nil_id];
         removed \<leftarrow> front path;
         rd \<leftarrow> nodes T removed;
         if length path < 2 \<or> nd_key rd \<noteq> k then None
         else do {
           transplanted \<leftarrow> np_ref (nd_right rd);
           l \<leftarrow> np_ref (nd_left rd);
           (removed, transplanted, path, rt, T) \<leftarrow>
             (if l = Nil_id then do {
                (_, path) \<leftarrow> pop_front path;
                f \<leftarrow> front path;
                (rt, T) \<leftarrow> transplant f removed transplanted rt T;
                Some (removed, transplanted, path, rt, T) }
              else if transplanted = Nil_id then do {
                (_, path) \<leftarrow> pop_front path;
                f \<leftarrow> front path;
                (rt, T) \<leftarrow> transplant f removed l rt T;
                Some (removed, l, path, rt, T) }
              else do {
                T \<leftarrow> own_child DR removed T;
                r \<leftarrow> child_ref DR removed T;
                (removed', path, T) \<leftarrow> build_min_path r path T;
                transplanted \<leftarrow> child_ref DR removed' T;
                T \<leftarrow> steal_payload removed removed' T;
                f \<leftarrow> front path;
                (rt, T) \<leftarrow> transplant f removed' transplanted rt T;
                Some (removed', transplanted, path, rt, T) });
           rred \<leftarrow> get_red removed T;
           (rt, T) \<leftarrow>
             (if \<not> rred then balance_delete transplanted path rt T else Some (rt, T));
           Some (T\<lparr>root := Some rt\<rparr>) } } }"

section \<open>Put, Get and Copy\<close>

definition Put :: "'k::linorder \<Rightarrow> 'v \<Rightarrow> ('k, 'v) ptree \<Rightarrow> ('k, 'v) ptree option" where
  "Put k v T = do {
     b \<leftarrow> base_root T;
     (rt, path, T) \<leftarrow> insert_recursive T [] k v b;
     (rt, path, T) \<leftarrow>
       (case rt of
          Some rt \<Rightarrow> Some (rt, path, T)
        | None \<Rightarrow> do {
            T \<leftarrow> Delete k T;
            b \<leftarrow> root T;
            (rt, path, T) \<leftarrow> insert_recursive T [] k v b;
            rt \<leftarrow> rt;
            Some (rt, path, T) });
     let path = path @ [Nil_id];
     if length path < 2 then None
     else do {
       (nn, path) \<leftarrow> pop_front path;
       (parent, path) \<leftarrow> pop_front path;
       (rt, T) \<leftarrow> insert_loop parent nn path rt T;
       T \<leftarrow> set_red rt False T;
       Some (T\<lparr>root := Some rt\<rparr>) } }"

partial_function (option) Get_loop ::
  "'k::linorder \<Rightarrow> nat \<Rightarrow> ('k, 'v, 'b) heap_scheme \<Rightarrow> (errno + 'v) option" where
  "Get_loop k cur T =
     (if cur = Nil_id then Some (Inl ENOENT)
      else do {
        nd \<leftarrow> nodes T cur;
        if k = nd_key nd then Some (Inr (nd_val nd))
        else do {
          cur \<leftarrow> (if k < nd_key nd then np_ref (nd_left nd) else np_ref (nd_right nd));
          Get_loop k cur T } })"

definition Get :: "'k::linorder \<Rightarrow> ('k, 'v) ptree \<Rightarrow> (errno + 'v) option" where
  "Get k T = do { b \<leftarrow> base_root T; Get_loop k b T }"

partial_function (option) copy_recursive ::
  "('k::linorder, 'v) ptree \<Rightarrow> 'k \<Rightarrow> nat \<Rightarrow> (nat option \<times> ('k, 'v) ptree) option" where
  "copy_recursive T k n =
     (if n = Nil_id then Some (None, T)
      else do {
        nd \<leftarrow> nodes T n;
        if k = nd_key nd then
          (if nd_rid nd = rid T then Some (None, T)
           else do { (copy, T) \<leftarrow> fresh_copy n T; Some (Some copy, T) })
        else do {
          c \<leftarrow> (if k < nd_key nd then np_ref (nd_left nd) else np_ref (nd_right nd));
          (ch, T) \<leftarrow> copy_recursive T k c;
          case ch of
            None \<Rightarrow> Some (None, T)
          | Some ch \<Rightarrow> do {
              (copy, T) \<leftarrow> own_copy n T;
              T \<leftarrow> set_ref (if k < nd_key nd then DL else DR) copy ch T;
              Some (Some copy, T) } } })"

definition Copy :: "'k::linorder \<Rightarrow> ('k, 'v) ptree \<Rightarrow> ('k, 'v) ptree option" where
  "Copy k T = do {
     b \<leftarrow> base_root T;
     (rt, T) \<leftarrow> copy_recursive T k b;
     case rt of None \<Rightarrow> Some T | Some rt \<Rightarrow> Some (T\<lparr>root := Some rt\<rparr>) }"

end
