(* ===== verification/TreeAbs.thy ===== *)
theory TreeAbs
  imports PersistentTree
begin

text \<open>
  The abstraction used to prove the tree code correct. A mathematical tree \<open>ntree\<close> records for every
  node its number in the heap and its contents; \<open>tree_at\<close> says that the heap holds such a tree. The
  path that the code keeps in a deque is a zipper: a list of frames, innermost first. Red-black and
  search-tree invariants are stated on trees and, hole by hole, on zippers. The copy-on-write
  discipline is the relation \<open>cow\<close>: the reflexive transitive closure of the only ways in which the
  code changes a tree object.
\<close>

section \<open>Trees\<close>

datatype ('k, 'v) ntree = Lf | Nd nat "('k, 'v) node" "('k, 'v) ntree" "('k, 'v) ntree"

fun tid :: "('k, 'v) ntree \<Rightarrow> nat" where
  "tid Lf = Nil_id"
| "tid (Nd i nd l r) = i"

fun idset :: "('k, 'v) ntree \<Rightarrow> nat set" where
  "idset Lf = {}"
| "idset (Nd i nd l r) = insert i (idset l \<union> idset r)"

fun dist :: "('k, 'v) ntree \<Rightarrow> bool" where
  "dist Lf = True"
| "dist (Nd i nd l r) \<longleftrightarrow>
     i \<notin> idset l \<and> i \<notin> idset r \<and> idset l \<inter> idset r = {} \<and> dist l \<and> dist r"

fun inorder :: "('k, 'v) ntree \<Rightarrow> ('k \<times> 'v) list" where
  "inorder Lf = []"
| "inorder (Nd i nd l r) = inorder l @ (nd_key nd, nd_val nd) # inorder r"

fun is_red :: "('k, 'v) ntree \<Rightarrow> bool" where
  "is_red Lf = False"
| "is_red (Nd i nd l r) = nd_red nd"

fun tree_at :: "(nat \<Rightarrow> ('k, 'v) node option) \<Rightarrow> ('k, 'v) ntree \<Rightarrow> bool" where
  "tree_at N Lf = True"
| "tree_at N (Nd i nd l r) \<longleftrightarrow>
     i \<noteq> Nil_id \<and> N i = Some nd \<and>
     np_ref (nd_left nd) = Some (tid l) \<and> np_ref (nd_right nd) = Some (tid r) \<and>
     tree_at N l \<and> tree_at N r"

text \<open>No red node has a red child; \<open>hb t n\<close>: every path from the root of \<open>t\<close> to a leaf has \<open>n\<close> black
  nodes.\<close>

fun invc :: "('k, 'v) ntree \<Rightarrow> bool" where
  "invc Lf = True"
| "invc (Nd i nd l r) \<longleftrightarrow>
     invc l \<and> invc r \<and> (nd_red nd \<longrightarrow> \<not> is_red l \<and> \<not> is_red r)"

fun hb :: "('k, 'v) ntree \<Rightarrow> nat \<Rightarrow> bool" where
  "hb Lf n \<longleftrightarrow> n = 0"
| "hb (Nd i nd l r) n \<longleftrightarrow>
     (if nd_red nd then hb l n \<and> hb r n
      else (case n of 0 \<Rightarrow> False | Suc m \<Rightarrow> hb l m \<and> hb r m))"

definition rbt :: "('k, 'v) ntree \<Rightarrow> bool" where
  "rbt t \<longleftrightarrow> invc t \<and> (\<exists>n. hb t n) \<and> \<not> is_red t"

lemma tid_zero_iff: "tree_at N t \<Longrightarrow> tid t = 0 \<longleftrightarrow> t = Lf"
  by (cases t) auto

lemma tid_in_idset: "t \<noteq> Lf \<Longrightarrow> tid t \<in> idset t"
  by (cases t) auto

lemma zero_notin_idset: "tree_at N t \<Longrightarrow> 0 \<notin> idset t"
  by (induction t) auto

lemma tree_at_dom: "tree_at N t \<Longrightarrow> i \<in> idset t \<Longrightarrow> \<exists>nd. N i = Some nd"
  by (induction t) auto

lemma tree_at_cong: "(\<And>i. i \<in> idset t \<Longrightarrow> N' i = N i) \<Longrightarrow> tree_at N' t = tree_at N t"
  by (induction t) auto

lemma tree_at_upd [simp]: "i \<notin> idset t \<Longrightarrow> tree_at (N(i \<mapsto> nd)) t = tree_at N t"
  by (rule tree_at_cong) auto

lemma idset_keys:
  "tree_at N t \<Longrightarrow> i \<in> idset t \<Longrightarrow> \<exists>nd. N i = Some nd \<and> (nd_key nd, nd_val nd) \<in> set (inorder t)"
  by (induction t) auto

text \<open>Search-tree order makes the node numbers of a tree distinct.\<close>

lemma skeys_dist:
  assumes "tree_at N t" and "skeys (inorder t)"
  shows "dist t"
  using assms
proof (induction t)
  case (Nd i nd l r)
  have sub: "skeys (inorder l)" "skeys (inorder r)"
    "\<And>p. p \<in> set (inorder l) \<Longrightarrow> fst p < nd_key nd"
    "\<And>p. p \<in> set (inorder r) \<Longrightarrow> nd_key nd < fst p"
    using Nd.prems(2) by (auto simp: sorted_wrt_append)
  have l: "\<And>j. j \<in> idset l \<Longrightarrow> \<exists>md. N j = Some md \<and> nd_key md < nd_key nd"
    using idset_keys [of N l] Nd.prems(1) sub(3) by fastforce
  have r: "\<And>j. j \<in> idset r \<Longrightarrow> \<exists>md. N j = Some md \<and> nd_key nd < nd_key md"
    using idset_keys [of N r] Nd.prems(1) sub(4) by fastforce
  have "i \<notin> idset l" "i \<notin> idset r" using l [of i] r [of i] Nd.prems(1) by auto
  moreover have "idset l \<inter> idset r = {}"
    using l r by (metis (no_types) disjoint_iff option.inject order_less_asym)
  ultimately show ?case using Nd sub by auto
qed simp

section \<open>Zippers\<close>

type_synonym ('k, 'v) frame = "dir \<times> nat \<times> ('k, 'v) node \<times> ('k, 'v) ntree"

text \<open>\<open>mk d i nd a b\<close>: the node with \<open>a\<close> as its child in direction \<open>d\<close> and \<open>b\<close> as the other one.\<close>

fun mk :: "dir \<Rightarrow> nat \<Rightarrow> ('k, 'v) node \<Rightarrow> ('k, 'v) ntree \<Rightarrow> ('k, 'v) ntree \<Rightarrow> ('k, 'v) ntree" where
  "mk DL i nd a b = Nd i nd a b"
| "mk DR i nd a b = Nd i nd b a"

fun plug :: "('k, 'v) frame list \<Rightarrow> ('k, 'v) ntree \<Rightarrow> ('k, 'v) ntree" where
  "plug [] t = t"
| "plug ((d, i, nd, s) # cs) t = plug cs (mk d i nd t s)"

abbreviation fid :: "('k, 'v) frame \<Rightarrow> nat" where
  "fid f \<equiv> fst (snd f)"

fun ctx_at ::
  "(nat \<Rightarrow> ('k, 'v) node option) \<Rightarrow> ('k, 'v) frame list \<Rightarrow> nat \<Rightarrow> bool" where
  "ctx_at N [] p = True"
| "ctx_at N ((d, i, nd, s) # cs) p \<longleftrightarrow>
     i \<noteq> Nil_id \<and> N i = Some nd \<and> np_ref (child d nd) = Some p \<and>
     np_ref (child (opp d) nd) = Some (tid s) \<and> tree_at N s \<and> ctx_at N cs i"

fun cidset :: "('k, 'v) frame list \<Rightarrow> nat set" where
  "cidset [] = {}"
| "cidset ((d, i, nd, s) # cs) = insert i (idset s \<union> cidset cs)"

fun cdist :: "('k, 'v) frame list \<Rightarrow> bool" where
  "cdist [] = True"
| "cdist ((d, i, nd, s) # cs) \<longleftrightarrow>
     i \<notin> idset s \<and> i \<notin> cidset cs \<and> idset s \<inter> cidset cs = {} \<and> dist s \<and> cdist cs"

fun lefts :: "('k, 'v) frame list \<Rightarrow> ('k \<times> 'v) list" where
  "lefts [] = []"
| "lefts ((d, i, nd, s) # cs) =
     lefts cs @ (case d of DL \<Rightarrow> [] | DR \<Rightarrow> inorder s @ [(nd_key nd, nd_val nd)])"

fun rights :: "('k, 'v) frame list \<Rightarrow> ('k \<times> 'v) list" where
  "rights [] = []"
| "rights ((d, i, nd, s) # cs) =
     (case d of DL \<Rightarrow> (nd_key nd, nd_val nd) # inorder s | DR \<Rightarrow> []) @ rights cs"

fun top_red :: "('k, 'v) frame list \<Rightarrow> bool" where
  "top_red [] = False"
| "top_red ((d, i, nd, s) # cs) = nd_red nd"

fun cinvc :: "('k, 'v) frame list \<Rightarrow> bool" where
  "cinvc [] = True"
| "cinvc ((d, i, nd, s) # cs) \<longleftrightarrow>
     invc s \<and> (nd_red nd \<longrightarrow> \<not> is_red s \<and> \<not> top_red cs) \<and> cinvc cs"

fun chb :: "('k, 'v) frame list \<Rightarrow> nat \<Rightarrow> bool" where
  "chb [] n = True"
| "chb ((d, i, nd, s) # cs) n \<longleftrightarrow> hb s n \<and> chb cs (if nd_red nd then n else Suc n)"

text \<open>All nodes of the path belong to the tree with rid \<open>r\<close>.\<close>

definition owned_frames :: "int \<Rightarrow> ('k, 'v) frame list \<Rightarrow> bool" where
  "owned_frames r cs \<longleftrightarrow> (\<forall>(d, i, nd, s) \<in> set cs. nd_rid nd = r \<and> \<not> nd_read_only nd)"

text \<open>The pointer in the innermost frame is replaced.\<close>

fun retarget :: "node_ptr \<Rightarrow> ('k, 'v) frame list \<Rightarrow> ('k, 'v) frame list" where
  "retarget p [] = []"
| "retarget p ((d, i, nd, s) # cs) = (d, i, set_child d p nd, s) # cs"

lemma mk_simps [simp]:
  "tid (mk d i nd a b) = i"
  "idset (mk d i nd a b) = insert i (idset a \<union> idset b)"
  "is_red (mk d i nd a b) = nd_red nd"
  "mk d i nd a b \<noteq> Lf"
  by (cases d; auto)+

lemma tree_at_mk [simp]:
  "tree_at N (mk d i nd a b) \<longleftrightarrow>
     i \<noteq> 0 \<and> N i = Some nd \<and> np_ref (child d nd) = Some (tid a) \<and>
     np_ref (child (opp d) nd) = Some (tid b) \<and> tree_at N a \<and> tree_at N b"
  by (cases d) auto

lemma dist_mk [simp]:
  "dist (mk d i nd a b) \<longleftrightarrow>
     i \<notin> idset a \<and> i \<notin> idset b \<and> idset a \<inter> idset b = {} \<and> dist a \<and> dist b"
  by (cases d) auto

lemma invc_mk [simp]:
  "invc (mk d i nd a b) \<longleftrightarrow> invc a \<and> invc b \<and> (nd_red nd \<longrightarrow> \<not> is_red a \<and> \<not> is_red b)"
  by (cases d) auto

lemma hb_mk [simp]:
  "hb (mk d i nd a b) n \<longleftrightarrow>
     (if nd_red nd then hb a n \<and> hb b n
      else (case n of 0 \<Rightarrow> False | Suc m \<Rightarrow> hb a m \<and> hb b m))"
  by (cases d) (auto split: nat.splits)

lemma plug_Lf_iff [simp]: "plug cs t = Lf \<longleftrightarrow> cs = [] \<and> t = Lf"
  by (induction cs t rule: plug.induct) auto

lemma tid_plug: "tid (plug cs t) = (if cs = [] then tid t else fid (last cs))"
  by (induction cs t rule: plug.induct) auto

lemma tree_at_plug [simp]: "tree_at N (plug cs t) \<longleftrightarrow> tree_at N t \<and> ctx_at N cs (tid t)"
  by (induction cs t rule: plug.induct) auto

lemma idset_plug [simp]: "idset (plug cs t) = cidset cs \<union> idset t"
  by (induction cs t rule: plug.induct) auto

lemma dist_plug [simp]:
  "dist (plug cs t) \<longleftrightarrow> dist t \<and> cdist cs \<and> cidset cs \<inter> idset t = {}"
  by (induction cs t rule: plug.induct) auto

lemma inorder_plug [simp]: "inorder (plug cs t) = lefts cs @ inorder t @ rights cs"
proof (induction cs t rule: plug.induct)
  case (2 d i nd s cs t)
  then show ?case by (cases d) auto
qed simp

lemma is_red_plug: "is_red (plug cs t) = (if cs = [] then is_red t else top_red [last cs])"
  by (induction cs t rule: plug.induct) auto

lemma invc_plug:
  "invc (plug cs t) \<longleftrightarrow> invc t \<and> cinvc cs \<and> (is_red t \<longrightarrow> \<not> top_red cs)"
  by (induction cs t rule: plug.induct) auto

lemma hb_plug: "(\<exists>m. hb (plug cs t) m) \<longleftrightarrow> (\<exists>n. hb t n \<and> chb cs n)"
proof (induction cs t rule: plug.induct)
  case (2 d i nd s cs t)
  have "(\<exists>m. hb (mk d i nd t s) m \<and> chb cs m) \<longleftrightarrow>
        (\<exists>n. hb t n \<and> hb s n \<and> chb cs (if nd_red nd then n else Suc n))"
  proof (cases "nd_red nd")
    case False
    then have "hb (mk d i nd t s) m \<longleftrightarrow> (\<exists>n. m = Suc n \<and> hb t n \<and> hb s n)" for m
      by (cases m) auto
    then show ?thesis using False by auto
  qed auto
  then show ?case using 2 by simp
qed simp

lemma ctx_at_cong:
  "(\<And>i. i \<in> cidset cs \<Longrightarrow> N' i = N i) \<Longrightarrow> ctx_at N' cs p = ctx_at N cs p"
proof (induction N cs p rule: ctx_at.induct)
  case (2 N d i nd s cs p)
  have "tree_at N' s = tree_at N s" by (rule tree_at_cong) (use 2 in auto)
  moreover have "ctx_at N' cs i = ctx_at N cs i" using 2 by auto
  ultimately show ?case using 2 by simp
qed simp

lemma ctx_at_upd [simp]: "i \<notin> cidset cs \<Longrightarrow> ctx_at (N(i \<mapsto> nd)) cs p = ctx_at N cs p"
  by (rule ctx_at_cong) auto

lemma zero_notin_cidset: "ctx_at N cs p \<Longrightarrow> 0 \<notin> cidset cs"
  by (induction N cs p rule: ctx_at.induct) (auto dest: zero_notin_idset)

lemma ctx_at_dom: "ctx_at N cs p \<Longrightarrow> i \<in> cidset cs \<Longrightarrow> \<exists>nd. N i = Some nd"
  by (induction N cs p rule: ctx_at.induct) (auto dest: tree_at_dom)

lemma retarget_simps [simp]:
  "lefts (retarget p cs) = lefts cs \<and>
   rights (retarget p cs) = rights cs \<and>
   cidset (retarget p cs) = cidset cs \<and>
   cdist (retarget p cs) = cdist cs \<and>
   top_red (retarget p cs) = top_red cs \<and>
   cinvc (retarget p cs) = cinvc cs \<and>
   chb (retarget p cs) n = chb cs n \<and>
   map fid (retarget p cs) = map fid cs \<and>
   (retarget p cs = [] \<longleftrightarrow> cs = []) \<and>
   owned_frames r (retarget p cs) = owned_frames r cs"
  by (cases "(p, cs)" rule: retarget.cases) (simp_all add: owned_frames_def split: dir.splits)

lemma last_retarget [simp]: "top_red [last (retarget p cs)] = top_red [last cs]"
  by (cases "(p, cs)" rule: retarget.cases) simp_all

section \<open>Copy on write\<close>

text \<open>The steps in which the tree code changes a tree object: a write to a node of its own, a fresh node,
  the nil node recorded as fresh (\<^verbatim>\<open>balance_delete\<close> does that when the tree becomes empty), and the root.\<close>

definition add_node :: "('k, 'v) node \<Rightarrow> ('k, 'v) ptree \<Rightarrow> ('k, 'v) ptree" where
  "add_node nd T = push_fresh (next_node T) (snd (alloc_node nd T))"

inductive cow_step :: "('k, 'v) ptree \<Rightarrow> ('k, 'v) ptree \<Rightarrow> bool" where
  own_write: "nodes T i = Some nd \<Longrightarrow> nd_rid nd = rid T \<Longrightarrow> nd_rid nd' = rid T \<Longrightarrow>
    \<not> nd_read_only nd' \<Longrightarrow> cow_step T (put_node i nd' T)"
| fresh_node: "nd_rid nd = rid T \<Longrightarrow> \<not> nd_read_only nd \<Longrightarrow> cow_step T (add_node nd T)"
| nil_fresh: "cow_step T (push_fresh Nil_id T)"
| set_root: "cow_step T (T\<lparr>root := r\<rparr>)"

abbreviation cow :: "('k, 'v) ptree \<Rightarrow> ('k, 'v) ptree \<Rightarrow> bool" where
  "cow \<equiv> cow_step\<^sup>*\<^sup>*"

text \<open>Well-formed tree objects: nil is where it should be, numbers from \<open>next_node\<close> on are free, the rid
  is not the one of nil, own nodes are writable and recorded as fresh, and a node of another version
  never points to a node of this one.\<close>

definition wft :: "('k, 'v) ptree \<Rightarrow> bool" where
  "wft T \<longleftrightarrow>
     (\<exists>nd. nodes T Nil_id = Some nd \<and> is_nil_node nd) \<and>
     0 < next_node T \<and> (\<forall>i \<ge> next_node T. nodes T i = None) \<and> rid T \<noteq> int64_min \<and>
     (\<forall>i nd. nodes T i = Some nd \<and> nd_rid nd = rid T \<longrightarrow>
        \<not> nd_read_only nd \<and> i \<in> set (fresh_nodes T)) \<and>
     (\<forall>i \<in> set (fresh_nodes T). i = Nil_id \<or> (\<exists>nd. nodes T i = Some nd \<and> nd_rid nd = rid T)) \<and>
     (\<forall>i nd d q. nodes T i = Some nd \<and> nd_rid nd \<noteq> rid T \<and>
        np_ref (child d nd) = Some q \<longrightarrow> (\<exists>nd'. nodes T q = Some nd' \<and> nd_rid nd' \<noteq> rid T))"

lemma put_node_members [simp]:
  "rid (put_node n nd T) = rid T \<and> fresh_nodes (put_node n nd T) = fresh_nodes T \<and>
   root (put_node n nd T) = root T \<and> src_root (put_node n nd T) = src_root T \<and>
   intention (put_node n nd T) = intention T \<and> afterimage (put_node n nd T) = afterimage T"
  by (simp add: put_node_def)

lemma add_node_members [simp]:
  "nodes (add_node nd T) = (nodes T)(next_node T \<mapsto> nd) \<and>
   next_node (add_node nd T) = Suc (next_node T) \<and> rid (add_node nd T) = rid T \<and>
   fresh_nodes (add_node nd T) = fresh_nodes T @ [next_node T] \<and>
   root (add_node nd T) = root T \<and> src_root (add_node nd T) = src_root T \<and>
   intention (add_node nd T) = intention T \<and> afterimage (add_node nd T) = afterimage T"
  by (simp add: add_node_def push_fresh_def alloc_node_def)

lemma push_fresh_members [simp]:
  "nodes (push_fresh n T) = nodes T \<and> next_node (push_fresh n T) = next_node T \<and>
   rid (push_fresh n T) = rid T \<and> fresh_nodes (push_fresh n T) = fresh_nodes T @ [n] \<and>
   root (push_fresh n T) = root T \<and> src_root (push_fresh n T) = src_root T \<and>
   intention (push_fresh n T) = intention T \<and> afterimage (push_fresh n T) = afterimage T"
  by (simp add: push_fresh_def)

lemma cow_step_members:
  "cow_step T T' \<Longrightarrow>
   rid T' = rid T \<and> src_root T' = src_root T \<and> intention T' = intention T \<and>
   afterimage T' = afterimage T"
  by (induction rule: cow_step.induct) auto

lemma cow_members:
  "cow T T' \<Longrightarrow>
   rid T' = rid T \<and> src_root T' = src_root T \<and> intention T' = intention T \<and>
   afterimage T' = afterimage T"
  by (induction rule: rtranclp_induct) (auto dest: cow_step_members)

lemma wf_nil: "wft T \<Longrightarrow> \<exists>nd. nodes T Nil_id = Some nd \<and> is_nil_node nd"
  by (simp add: wft_def)

lemma wf_next: "wft T \<Longrightarrow> nodes T (next_node T) = None" "wft T \<Longrightarrow> next_node T \<noteq> 0"
  by (auto simp: wft_def)

lemma wf_writable: "wft T \<Longrightarrow> nodes T i = Some nd \<Longrightarrow> nd_rid nd = rid T \<Longrightarrow> \<not> nd_read_only nd"
  by (auto simp: wft_def)

lemma wf_own_nonnil: "wft T \<Longrightarrow> nodes T i = Some nd \<Longrightarrow> nd_rid nd = rid T \<Longrightarrow> i \<noteq> Nil_id"
  by (rule notI) (auto simp: wft_def is_nil_node_def)

lemma wf_fresh: "wft T \<Longrightarrow> nodes T i = Some nd \<Longrightarrow> nd_rid nd = rid T \<Longrightarrow> i \<in> set (fresh_nodes T)"
  by (auto simp: wft_def)

lemma wf_fresh_own:
  "wft T \<Longrightarrow> i \<in> set (fresh_nodes T) \<Longrightarrow> i \<noteq> Nil_id \<Longrightarrow> \<exists>nd. nodes T i = Some nd \<and> nd_rid nd = rid T"
  by (auto simp: wft_def)

lemma cow_step_wf: "cow_step T T' \<Longrightarrow> wft T \<Longrightarrow> wft T'"
proof (induction rule: cow_step.induct)
  case (own_write T i nd nd')
  then have "i \<noteq> Nil_id" by (intro wf_own_nonnil) auto
  moreover have "i < next_node T"
    using own_write unfolding wft_def by (metis linorder_not_less option.distinct(1))
  moreover have "i \<in> set (fresh_nodes T)" using own_write unfolding wft_def by blast
  ultimately have i: "i \<noteq> Nil_id" "i < next_node T" "i \<in> set (fresh_nodes T)" by auto
  have closed: "\<exists>nd'. nodes T q = Some nd' \<and> nd_rid nd' \<noteq> rid T"
    if "nodes T j = Some md" "nd_rid md \<noteq> rid T" "np_ref (child d md) = Some q" for j md d q
    using own_write.prems that unfolding wft_def by blast
  show ?case unfolding wft_def
  proof (intro conjI allI impI ballI; (elim conjE)?)
    fix j md d q
    assume "nodes (put_node i nd' T) j = Some md" "nd_rid md \<noteq> rid (put_node i nd' T)"
      "np_ref (child d md) = Some q"
    then show "\<exists>md'. nodes (put_node i nd' T) q = Some md' \<and> nd_rid md' \<noteq> rid (put_node i nd' T)"
      using own_write closed [of j md d q] by (auto split: if_splits)
  qed (use own_write i in \<open>auto simp: wft_def split: if_splits\<close>)
next
  case (fresh_node nd T)
  have closed: "\<exists>nd'. nodes T q = Some nd' \<and> nd_rid nd' \<noteq> rid T"
    if "nodes T j = Some md" "nd_rid md \<noteq> rid T" "np_ref (child d md) = Some q" for j md d q
    using fresh_node.prems that unfolding wft_def by blast
  show ?case unfolding wft_def
  proof (intro conjI allI impI ballI; (elim conjE)?)
    fix j md d q
    assume a: "nodes (add_node nd T) j = Some md" "nd_rid md \<noteq> rid (add_node nd T)"
      "np_ref (child d md) = Some q"
    then show "\<exists>md'. nodes (add_node nd T) q = Some md' \<and> nd_rid md' \<noteq> rid (add_node nd T)"
      using fresh_node wf_next [OF fresh_node.prems] closed [of j md d q]
      by (auto split: if_splits)
  qed (use fresh_node in \<open>auto simp: wft_def split: if_splits\<close>)
qed (auto simp: wft_def)

lemma cow_wf: "cow T T' \<Longrightarrow> wft T \<Longrightarrow> wft T'"
  by (induction rule: rtranclp_induct) (auto dest: cow_step_wf)

text \<open>Nodes of other versions never change; nodes of this tree stay nodes of this tree; nodes that
  appear are nodes of this tree.\<close>

lemma cow_step_foreign:
  "cow_step T T' \<Longrightarrow> wft T \<Longrightarrow> nodes T i = Some nd \<Longrightarrow> nd_rid nd \<noteq> rid T \<Longrightarrow> nodes T' i = Some nd"
  by (induction rule: cow_step.induct) (auto simp: wf_next)

lemma cow_foreign:
  "cow T T' \<Longrightarrow> wft T \<Longrightarrow> nodes T i = Some nd \<Longrightarrow> nd_rid nd \<noteq> rid T \<Longrightarrow> nodes T' i = Some nd"
  by (induction rule: rtranclp_induct) (metis cow_step_foreign cow_wf cow_members)+

lemma cow_step_new:
  "cow_step T T' \<Longrightarrow> nodes T' i = Some nd \<Longrightarrow> nodes T i = Some nd \<or> nd_rid nd = rid T"
  by (induction rule: cow_step.induct) (auto split: if_splits)

lemma cow_new:
  "cow T T' \<Longrightarrow> nodes T' i = Some nd \<Longrightarrow> nodes T i = Some nd \<or> nd_rid nd = rid T"
  by (induction arbitrary: nd rule: rtranclp_induct) (simp, metis cow_step_new cow_members)

lemma cow_step_own:
  "cow_step T T' \<Longrightarrow> wft T \<Longrightarrow> nodes T i = Some nd \<Longrightarrow> nd_rid nd = rid T \<Longrightarrow>
   \<exists>nd'. nodes T' i = Some nd' \<and> nd_rid nd' = rid T"
  by (induction rule: cow_step.induct) (auto simp: wf_next)

lemma cow_own:
  assumes "cow T T'" and "wft T" and "nodes T i = Some nd" and "nd_rid nd = rid T"
  shows "\<exists>nd'. nodes T' i = Some nd' \<and> nd_rid nd' = rid T"
  using assms
proof (induction rule: rtranclp_induct)
  case (step T1 T2)
  then show ?case by (metis cow_step_own cow_wf cow_members)
qed auto

lemma cow_dom:
  assumes "cow T T'" and "wft T" and "nodes T' i = None"
  shows "nodes T i = None"
  using cow_foreign [OF assms(1,2)] cow_own [OF assms(1,2)] assms(3)
  by (cases "nodes T i") (auto, metis option.distinct(1))

definition owns :: "('k, 'v) ptree \<Rightarrow> nat \<Rightarrow> bool" where
  "owns T i \<longleftrightarrow> (\<exists>nd. nodes T i = Some nd \<and> nd_rid nd = rid T)"

lemma ownsI: "nodes T i = Some nd \<Longrightarrow> nd_rid nd = rid T \<Longrightarrow> owns T i"
  by (simp add: owns_def)

lemma owns_put_node [simp]:
  "owns (put_node j nd T) i \<longleftrightarrow> (if i = j then nd_rid nd = rid T else owns T i)"
  by (simp add: owns_def)

lemma owns_add_node [simp]:
  "owns (add_node nd T) i \<longleftrightarrow> (if i = next_node T then nd_rid nd = rid T else owns T i)"
  by (simp add: owns_def)

lemma cow_put_node:
  "cow T T' \<Longrightarrow> owns T' i \<Longrightarrow> nd_rid nd' = rid T' \<Longrightarrow> \<not> nd_read_only nd' \<Longrightarrow>
   cow T (put_node i nd' T')"
  unfolding owns_def by (meson cow_step.own_write rtranclp.rtrancl_into_rtrancl)

lemma cow_add_node:
  "cow T T' \<Longrightarrow> nd_rid nd = rid T' \<Longrightarrow> \<not> nd_read_only nd \<Longrightarrow> cow T (add_node nd T')"
  by (meson cow_step.fresh_node rtranclp.rtrancl_into_rtrancl)

lemma cow_set_root: "cow T T' \<Longrightarrow> cow T (T'\<lparr>root := r\<rparr>)"
  by (erule rtranclp.rtrancl_into_rtrancl) (rule cow_step.set_root)

lemmas cow_intros = cow_put_node cow_add_node cow_set_root

text \<open>A tree that holds only nodes of other versions, a snapshot for instance, is untouched.\<close>

lemma cow_snapshot:
  assumes "cow T T'" and "wft T" and "tree_at (nodes T) t"
    and "\<And>i nd. i \<in> idset t \<Longrightarrow> nodes T i = Some nd \<Longrightarrow> nd_rid nd \<noteq> rid T"
  shows "tree_at (nodes T') t"
proof -
  have "nodes T' i = nodes T i" if "i \<in> idset t" for i
    using tree_at_dom [OF assms(3) that] assms(4) [OF that] cow_foreign [OF assms(1,2)] by auto
  then show ?thesis using tree_at_cong assms(3) by blast
qed

section \<open>Ownership\<close>

definition own_nd :: "int \<Rightarrow> ('k, 'v) node \<Rightarrow> ('k, 'v) node" where
  "own_nd r nd = nd\<lparr>nd_rid := r, nd_read_only := False\<rparr>"

lemma own_nd_fields [simp]:
  "nd_key (own_nd r nd) = nd_key nd \<and> nd_val (own_nd r nd) = nd_val nd \<and>
   nd_red (own_nd r nd) = nd_red nd \<and> nd_rid (own_nd r nd) = r \<and>
   \<not> nd_read_only (own_nd r nd) \<and> nd_left (own_nd r nd) = nd_left nd \<and>
   nd_right (own_nd r nd) = nd_right nd \<and> child d (own_nd r nd) = child d nd"
  by (cases d) (simp_all add: own_nd_def)

lemma own_nd_same: "nd_rid nd = r \<Longrightarrow> \<not> nd_read_only nd \<Longrightarrow> own_nd r nd = nd"
  by (simp add: own_nd_def)

lemma fresh_copy_eq:
  assumes "nodes T n = Some nd" and "n \<noteq> Nil_id"
    and "np_ref (nd_left nd) = Some l" and "np_ref (nd_right nd) = Some q"
  shows "fresh_copy n T = Some (next_node T, add_node (own_nd (rid T) nd) T)"
proof -
  have "\<lparr>np_ref = Some l, np_addr = np_addr (nd_left nd)\<rparr> = nd_left nd"
    "\<lparr>np_ref = Some q, np_addr = np_addr (nd_right nd)\<rparr> = nd_right nd"
    using assms(3,4) by simp_all
  then have eq: "\<lparr>nd_left = \<lparr>np_ref = Some l, np_addr = np_addr (nd_left nd)\<rparr>,
      nd_right = \<lparr>np_ref = Some q, np_addr = np_addr (nd_right nd)\<rparr>, nd_key = nd_key nd,
      nd_val = nd_val nd, nd_red = nd_red nd, nd_rid = rid T, nd_read_only = False\<rparr>
    = own_nd (rid T) nd"
    by (simp add: own_nd_def)
  show ?thesis
    using assms
    by (simp add: fresh_copy_def Copy_node_def SetAddress_def alloc_node_def add_node_def eq)
qed

text \<open>\<open>n'\<close> is \<open>n\<close> when the node is already this tree's, and a fresh number otherwise; in both cases it
  holds the owned version of the node, and nothing else changes.\<close>

lemma own_copy_spec:
  assumes "wft T" and "nodes T n = Some nd" and "n \<noteq> Nil_id"
    and "np_ref (nd_left nd) = Some l" and "np_ref (nd_right nd) = Some q"
  obtains n' T' where "own_copy n T = Some (n', T')" "cow T T'" "n' \<noteq> Nil_id"
    "nodes T' = (nodes T)(n' \<mapsto> own_nd (rid T) nd)" "n' = n \<or> nodes T n' = None"
proof (cases "nd_rid nd = rid T")
  case True
  then have "own_nd (rid T) nd = nd" using assms wf_writable by (intro own_nd_same) auto
  then show ?thesis
    using that [of n T] True assms by (simp add: own_copy_def get_rid_eq fun_upd_idem)
next
  case False
  then show ?thesis
    using that [of "next_node T" "add_node (own_nd (rid T) nd) T"] assms wf_next [OF assms(1)]
    by (simp add: own_copy_def get_rid_eq fresh_copy_eq cow_add_node)
qed

section \<open>What a tree object denotes\<close>

text \<open>The tree object \<open>T\<close> is well formed, its heap holds the red-black search tree \<open>t\<close> at the root that
  its operations start from, and a root of its own is a node of its own or nil.\<close>

definition denotes :: "('k::linorder, 'v) ptree \<Rightarrow> ('k, 'v) ntree \<Rightarrow> bool" where
  "denotes T t \<longleftrightarrow>
     wft T \<and> base_root T = Some (tid t) \<and> tree_at (nodes T) t \<and> skeys (inorder t) \<and> rbt t \<and>
     (\<forall>r. root T = Some r \<longrightarrow> r = Nil_id \<or> owns T r)"

end
