(* ===== verification/TreeSteps.thy ===== *)
theory TreeSteps
  imports TreeAbs
begin

text \<open>
  What the building blocks of the tree code do to the tree that the heap holds, stated on zippers:
  rotations, taking ownership of a child, and the recursive descent of insertion that copies the
  search path.
\<close>

section \<open>Rotation\<close>

abbreviation rot_c :: "dir \<Rightarrow> ('k, 'v) node \<Rightarrow> ('k, 'v) node \<Rightarrow> ('k, 'v) node" where
  "rot_c d cd gd \<equiv> set_child (opp d) (child d gd) cd"

abbreviation redirect :: "dir \<Rightarrow> nat \<Rightarrow> ('k, 'v) node \<Rightarrow> ('k, 'v) node" where
  "redirect d q nd \<equiv> set_child d ((child d nd)\<lparr>np_ref := Some q\<rparr>) nd"

lemma redirect_same: "np_ref (child d nd) = Some q \<Longrightarrow> redirect d q nd = nd"
  by (simp only: np_ref_same set_child_same)

lemma fid_last_in_cidset: "cs \<noteq> [] \<Longrightarrow> fid (last cs) \<in> cidset cs"
  by (induction cs rule: cidset.induct) auto

lemma rotate_zip:
  fixes T :: "('k, 'v) ptree"
  assumes wft: "wft T"
    and tree: "tree_at (nodes T) (plug cs (mk d c cd a (mk d g gd b e)))"
    and dist: "dist (plug cs (mk d c cd a (mk d g gd b e)))"
    and own: "nd_rid cd = rid T" "nd_rid gd = rid T" "owned_frames (rid T) cs"
    and rt: "rt = tid (plug cs (mk d c cd a (mk d g gd b e)))"
    and parent: "cs \<noteq> [] \<Longrightarrow> parent = fid (hd cs)"
  defines "t' \<equiv> mk d g (redirect d c gd) (mk d c (rot_c d cd gd) a b) e"
    and "cs' \<equiv> retarget (child (opp d) cd) cs"
  obtains T' where "rotate_nodes parent c d rt T = Some (g, tid (plug cs' t'), T')"
    and "cow T T'" and "tree_at (nodes T') (plug cs' t')"
proof -
  have N: "nodes T c = Some cd" "nodes T g = Some gd" "c \<noteq> g" "c \<noteq> 0" "g \<noteq> 0"
    "np_ref (child (opp d) cd) = Some g"
    "\<not> nd_read_only cd" "\<not> nd_read_only gd"
    using tree dist own wft wf_writable [of T c cd] wf_writable [of T g gd] by auto
  show thesis
  proof (cases cs)
    case Nil
    let ?T = "put_node g (redirect d c gd) (put_node c (rot_c d cd gd) T)"
    have "rotate_nodes parent c d rt T = Some (g, g, ?T)"
      using N Nil rt own by (simp add: rotate_nodes_def heap_simps)
    moreover have "cow T ?T" using N own by (intro cow_intros) (auto intro: ownsI)
    moreover have "tree_at (nodes ?T) t'" using tree dist N Nil by (auto simp: t'_def)
    ultimately show thesis using that Nil by (simp add: cs'_def t'_def)
  next
    case (Cons f cs0)
    obtain d' p pd s where f: "f = (d', p, pd, s)" by (cases f)
    have P: "parent = p" "nodes T p = Some pd" "p \<noteq> c" "p \<noteq> g" "p \<noteq> 0" "nd_rid pd = rid T"
      "\<not> nd_read_only pd" "np_ref (child d' pd) = Some c" "np_ref (child (opp d') pd) = Some (tid s)"
      using parent tree dist own(3) Cons f by (auto simp: owned_frames_def)
    have "rt \<noteq> c"
      using rt dist Cons fid_last_in_cidset [of cs] by (auto simp: tid_plug simp del: cidset.simps)
    have "tid s \<noteq> c" using N dist Cons f tid_in_idset [of s] by (cases "s = Lf") auto
    let ?T = "put_node g (redirect d c gd)
      (put_node p (set_child d' (child (opp d) cd) pd) (put_node c (rot_c d cd gd) T))"
    have "rotate_nodes parent c d rt T = Some (g, rt, ?T)"
      using N P own \<open>rt \<noteq> c\<close> \<open>tid s \<noteq> c\<close>
      by (cases d; cases d') (simp_all add: rotate_nodes_def heap_simps)
    moreover have "rt = tid (plug cs' t')"
      using rt Cons f by (auto simp: tid_plug cs'_def)
    moreover have "cow T ?T" using N P own by (intro cow_intros) (auto intro: ownsI)
    moreover have "tree_at (nodes ?T) (plug cs' t')"
      using tree dist N P Cons f by (auto simp: t'_def cs'_def)
    ultimately show thesis using that by simp
  qed
qed

section \<open>Taking ownership of a child\<close>

lemma mk_opp: "mk (opp d) i nd a b = mk d i nd b a"
  by (cases d) simp_all

lemma inorder_mk:
  "inorder (mk d i nd a b) =
     (case d of DL \<Rightarrow> inorder a @ (nd_key nd, nd_val nd) # inorder b
      | DR \<Rightarrow> inorder b @ (nd_key nd, nd_val nd) # inorder a)"
  by (cases d) simp_all

lemma refs_of_mk:
  assumes "np_ref (child d nd) = Some x" and "np_ref (child (opp d) nd) = Some y"
  obtains l r where "np_ref (nd_left nd) = Some l" "np_ref (nd_right nd) = Some r"
  using assms by (cases d) auto

lemma own_child_zip:
  fixes T :: "('k::linorder, 'v) ptree"
  assumes wft: "wft T"
    and tree: "tree_at (nodes T) (plug cs (mk d n nd (mk d2 i ind l r) s))"
    and srt: "skeys (inorder (plug cs (mk d n nd (mk d2 i ind l r) s)))"
    and own: "nd_rid nd = rid T"
  obtains i' T' where "own_child d n T = Some T'" "cow T T'"
    "tree_at (nodes T') (plug cs (mk d n (redirect d i' nd) (mk d2 i' (own_nd (rid T) ind) l r) s))"
proof -
  have dist: "dist (plug cs (mk d n nd (mk d2 i ind l r) s))"
    using tree srt by (rule skeys_dist)
  have N: "nodes T n = Some nd" "nodes T i = Some ind" "n \<noteq> 0" "i \<noteq> 0" "n \<noteq> i"
    "np_ref (child d nd) = Some i" "\<not> nd_read_only nd"
    using tree dist own wft wf_writable [of T n nd] by auto
  have "np_ref (child d2 ind) = Some (tid l)" "np_ref (child (opp d2) ind) = Some (tid r)"
    using tree by simp_all
  then obtain x y where xy: "np_ref (nd_left ind) = Some x" "np_ref (nd_right ind) = Some y"
    by (rule refs_of_mk)
  show thesis
  proof (cases "nd_rid ind = rid T")
    case True
    then have o: "own_nd (rid T) ind = ind" using N wft wf_writable by (intro own_nd_same) auto
    have "redirect d i nd = nd" using N by (intro redirect_same)
    then show thesis using that [of T i] True N tree o
      by (simp add: own_child_def heap_simps)
  next
    case False
    let ?i = "next_node T"
    let ?T1 = "add_node (own_nd (rid T) ind) T"
    let ?T = "put_node n (redirect d ?i nd) ?T1"
    have fresh: "?i \<notin> cidset cs" "?i \<notin> idset l" "?i \<notin> idset r" "?i \<notin> idset s" "?i \<noteq> n" "?i \<noteq> i"
      "?i \<noteq> 0"
      using tree tree_at_dom [of "nodes T"] ctx_at_dom [of "nodes T" cs] wf_next [OF wft] N by fastforce+
    have "own_child d n T = Some ?T"
      using False N xy fresh by (simp add: own_child_def heap_simps fresh_copy_eq)
    moreover have "cow T ?T"
      using N own fresh by (intro cow_intros) (auto intro: ownsI)
    moreover have "tree_at (nodes ?T)
      (plug cs (mk d n (redirect d ?i nd) (mk d2 ?i (own_nd (rid T) ind) l r) s))"
      using tree dist N fresh by auto
    ultimately show thesis using that by blast
  qed
qed

lemma own_brother_zip:
  fixes T :: "('k::linorder, 'v) ptree"
  assumes wft: "wft T"
    and tree: "tree_at (nodes T) (plug cs (mk d n nd s (mk d2 i ind l r)))"
    and srt: "skeys (inorder (plug cs (mk d n nd s (mk d2 i ind l r))))"
    and own: "nd_rid nd = rid T"
  obtains i' T' where "own_brother d n i T = Some (i', T')" "cow T T'"
    "tree_at (nodes T') (plug cs (mk d n (redirect (opp d) i' nd) s (mk d2 i' (own_nd (rid T) ind) l r)))"
proof -
  obtain i' T' where oc: "own_child (opp d) n T = Some T'" "cow T T'"
    "tree_at (nodes T') (plug cs (mk (opp d) n (redirect (opp d) i' nd)
       (mk d2 i' (own_nd (rid T) ind) l r) s))"
    by (rule own_child_zip [of T cs "opp d" n nd d2 i ind l r s])
      (use assms in \<open>simp_all only: mk_opp\<close>)
  have N: "nodes T n = Some nd" "nodes T i = Some ind" "np_ref (child (opp d) nd) = Some i"
    using tree by auto
  have "own_brother d n i T = Some (i', T')"
  proof (cases "nd_rid ind = rid T")
    case True
    then have "T' = T" using oc(1) N by (simp add: own_child_def heap_simps)
    moreover have "redirect (opp d) i nd = nd"
      using N by (intro redirect_same)
    moreover have "put_node n nd T = T" using N by (simp add: put_node_def fun_upd_idem)
    moreover have "i' = i"
    proof -
      have "redirect (opp d) i' nd = nd" using oc(3) N \<open>T' = T\<close> by auto
      from arg_cong [OF this, of "\<lambda>x. np_ref (child (opp d) x)"] show ?thesis using N(3) by simp
    qed
    ultimately show ?thesis using True N by (simp add: own_brother_def heap_simps)
  next
    case False
    then show ?thesis
      using oc(1,3) N by (auto simp: own_brother_def own_child_def heap_simps)
  qed
  then show thesis using that oc by (auto simp: mk_opp)
qed

section \<open>Copying the search path\<close>

text \<open>Two trees with the same shape, colours and payload.\<close>

fun same_tree :: "('k, 'v) ntree \<Rightarrow> ('k, 'v) ntree \<Rightarrow> bool" where
  "same_tree Lf t \<longleftrightarrow> t = Lf"
| "same_tree (Nd i nd l r) t \<longleftrightarrow>
     (case t of Lf \<Rightarrow> False
      | Nd i' nd' l' r' \<Rightarrow>
          nd_red nd = nd_red nd' \<and> nd_key nd = nd_key nd' \<and> nd_val nd = nd_val nd' \<and>
          same_tree l l' \<and> same_tree r r')"

lemma same_tree_refl [simp]: "same_tree t t"
  by (induction t) auto

lemma same_tree_inorder: "same_tree t t' \<Longrightarrow> inorder t = inorder t'"
  by (induction t t' rule: same_tree.induct) (auto split: ntree.splits)

lemma same_tree_is_red: "same_tree t t' \<Longrightarrow> is_red t = is_red t'"
  by (cases t; cases t') auto

lemma same_tree_invc: "same_tree t t' \<Longrightarrow> invc t = invc t'"
  by (induction t t' rule: same_tree.induct) (auto split: ntree.splits dest: same_tree_is_red)

lemma same_tree_hb: "same_tree t t' \<Longrightarrow> hb t n = hb t' n"
  by (induction t arbitrary: t' n) (auto split: ntree.splits nat.splits)

lemma same_tree_rbt: "same_tree t t' \<Longrightarrow> rbt t = rbt t'"
  by (simp add: rbt_def same_tree_is_red same_tree_invc same_tree_hb)

lemma plug_append: "plug (cs @ cs') t = plug cs' (plug cs t)"
  by (induction cs t rule: plug.induct) auto

text \<open>What one level of the recursion does on the way back: the node is made the tree's own and its
  child pointer is redirected to the copied subtree.\<close>

lemma path_step:
  fixes T :: "('k, 'v) ptree"
  assumes wft: "wft T" and sub: "tree_at (nodes T) t" and i: "nodes T i = Some nd" "i \<noteq> Nil_id"
    and refs: "np_ref (child d nd) = Some x" "np_ref (child (opp d) nd) = Some (tid s)"
    and s: "tree_at (nodes T) s" "i \<notin> idset s" "i \<notin> idset t"
  obtains i' T1 T2 where "own_copy i T = Some (i', T1)" "set_ref d i' (tid t) T1 = Some T2"
    "cow T T2" "tree_at (nodes T2) (mk d i' (redirect d (tid t) (own_nd (rid T) nd)) t s)"
    "\<And>j. nodes T j \<noteq> None \<Longrightarrow> j \<noteq> i \<Longrightarrow> nodes T2 j = nodes T j"
    "i' = i \<or> nodes T i' = None"
proof -
  obtain l r where "np_ref (nd_left nd) = Some l" "np_ref (nd_right nd) = Some r"
    using refs by (rule refs_of_mk)
  then obtain i' T1 where c: "own_copy i T = Some (i', T1)" "cow T T1" "i' \<noteq> 0"
    "nodes T1 = (nodes T)(i' \<mapsto> own_nd (rid T) nd)" "i' = i \<or> nodes T i' = None"
    using own_copy_spec [OF wft i] by metis
  let ?nd = "redirect d (tid t) (own_nd (rid T) nd)"
  have fr: "i' \<notin> idset s" "i' \<notin> idset t"
    using c(5) s sub tree_at_dom by fastforce+
  have "rid T1 = rid T" using cow_members [OF c(2)] by simp
  then have "cow T (put_node i' ?nd T1)"
    using c by (intro cow_intros) (auto simp: owns_def)
  moreover have "set_ref d i' (tid t) T1 = Some (put_node i' ?nd T1)"
    using c(4) by (simp add: heap_simps)
  moreover have "tree_at (nodes (put_node i' ?nd T1)) (mk d i' ?nd t s)"
    using c fr s sub refs by simp
  ultimately show thesis
    using c by (intro that [of i' T1 "put_node i' ?nd T1"]) auto
qed

text \<open>The frames that the recursion of insertion and deletion leaves behind.\<close>

definition search_ok :: "'k::linorder \<Rightarrow> ('k, 'v) frame list \<Rightarrow> bool" where
  "search_ok k cs \<longleftrightarrow> (\<forall>p \<in> set (lefts cs). fst p < k) \<and> (\<forall>p \<in> set (rights cs). k < fst p)"

lemma lefts_append: "lefts (cs @ cs') = lefts cs' @ lefts cs"
  by (induction cs rule: lefts.induct) auto

lemma rights_append: "rights (cs @ cs') = rights cs @ rights cs'"
  by (induction cs rule: rights.induct) auto

lemma search_ok_snoc:
  assumes "search_ok k cs" and "skeys (inorder (Nd i nd l r))"
    and "(if d = DL then k < nd_key nd else nd_key nd < k)"
    and "same_tree s (if d = DL then r else l)" and "nd_key nd' = nd_key nd"
  shows "search_ok k (cs @ [(d, j, nd', s)])"
proof -
  have "inorder s = inorder (if d = DL then r else l)" using assms(4) by (rule same_tree_inorder)
  then show ?thesis
    using assms(1-3,5)
    by (cases d) (fastforce simp: search_ok_def lefts_append rights_append sorted_wrt_append)+
qed

lemma same_tree_snoc:
  assumes "same_tree (plug cs x) (if d = DL then l else r)" and "same_tree s (if d = DL then r else l)"
    and "nd_red nd' = nd_red nd" "nd_key nd' = nd_key nd" "nd_val nd' = nd_val nd"
  shows "same_tree (plug (cs @ [(d, j, nd', s)]) x) (Nd i nd l r)"
  using assms by (cases d) (simp_all add: plug_append)

lemma owned_frames_snoc [simp]:
  "owned_frames r (cs @ [(d, i, nd, s)]) \<longleftrightarrow>
     owned_frames r cs \<and> nd_rid nd = r \<and> \<not> nd_read_only nd"
  by (auto simp: owned_frames_def)

lemma cidset_snoc [simp]: "cidset (cs @ [(d, i, nd, s)]) = cidset cs \<union> insert i (idset s)"
  by (induction cs rule: cidset.induct) auto

lemma insert_recursive_hit:
  assumes "tree_at (nodes T) t" and "skeys (inorder t)" and "k \<in> fst ` set (inorder t)"
  shows "insert_recursive T path k v (tid t) = Some (None, path, T)"
  using assms
proof (induction t)
  case (Nd i nd l r)
  have "k < nd_key nd \<Longrightarrow> k \<in> fst ` set (inorder l)"
    "nd_key nd < k \<Longrightarrow> k \<in> fst ` set (inorder r)"
    using Nd.prems(2,3) by (force simp: sorted_wrt_append)+
  moreover have "skeys (inorder l)" "skeys (inorder r)"
    using Nd.prems(2) by (simp_all add: sorted_wrt_append)
  moreover have "k < nd_key nd \<or> k = nd_key nd \<or> nd_key nd < k" by auto
  ultimately show ?case
    using Nd by (auto simp: insert_recursive.simps [of T path k v i])
qed simp

text \<open>\<open>path_spec k T t cs x y T'\<close>: from \<open>T\<close>, whose heap holds \<open>t\<close>, the descent for the key \<open>k\<close> has led to
  \<open>T'\<close>, whose heap holds the copied path \<open>cs\<close> around \<open>x\<close>, where \<open>t\<close> has \<open>y\<close> in that place.\<close>

definition path_spec ::
  "'k::linorder \<Rightarrow> ('k, 'v) ptree \<Rightarrow> ('k, 'v) ntree \<Rightarrow> ('k, 'v) frame list \<Rightarrow> ('k, 'v) ntree
     \<Rightarrow> ('k, 'v) ntree \<Rightarrow> ('k, 'v) ptree \<Rightarrow> bool" where
  "path_spec k T t cs x y T' \<longleftrightarrow>
     cow T T' \<and> tree_at (nodes T') (plug cs x) \<and> owned_frames (rid T) cs \<and>
     same_tree (plug cs y) t \<and> search_ok k cs \<and>
     (\<forall>j. nodes T j \<noteq> None \<and> j \<notin> idset t \<longrightarrow> nodes T' j = nodes T j) \<and>
     cidset cs \<union> idset x \<subseteq> idset t \<union> {j. nodes T j = None}"

lemma path_spec_step:
  fixes T :: "('k::linorder, 'v) ptree"
  assumes wf: "wft T" and tree: "tree_at (nodes T) (Nd i nd l r)"
    and srt: "skeys (inorder (Nd i nd l r))"
    and k: "if d = DL then k < nd_key nd else nd_key nd < k"
    and R: "path_spec k T (if d = DL then l else r) cs x y T1"
  obtains i' T2 T3 f where "own_copy i T1 = Some (i', T2)"
    "set_ref d i' (tid (plug cs x)) T2 = Some T3" "fid f = i'" "tid (plug (cs @ [f]) x) = i'"
    "path_spec k T (Nd i nd l r) (cs @ [f]) x y T3"
proof -
  define u where "u = (if d = DL then l else r)"
  define s where "s = (if d = DL then r else l)"
  have T0: "i \<noteq> 0" "nodes T i = Some nd" "np_ref (child d nd) = Some (tid u)"
    "np_ref (child (opp d) nd) = Some (tid s)" "tree_at (nodes T) u" "tree_at (nodes T) s"
    using tree by (cases d; simp add: u_def s_def)+
  have "dist (Nd i nd l r)" using tree srt by (rule skeys_dist)
  then have D: "i \<notin> idset u" "i \<notin> idset s" "idset u \<inter> idset s = {}"
    by (auto simp: u_def s_def)
  have C: "cow T T1" "tree_at (nodes T1) (plug cs x)" "owned_frames (rid T) cs"
    "same_tree (plug cs y) u" "search_ok k cs"
    using R by (auto simp: path_spec_def u_def)
  have fr: "\<And>j. nodes T j \<noteq> None \<Longrightarrow> j \<notin> idset u \<Longrightarrow> nodes T1 j = nodes T j"
    using R unfolding path_spec_def u_def by blast
  have fresh: "cidset cs \<union> idset x \<subseteq> idset u \<union> {j. nodes T j = None}"
    using R by (simp add: path_spec_def u_def)
  have W: "wft T1" "rid T1 = rid T" using cow_wf cow_members C(1) wf by blast+
  have i1: "nodes T1 i = Some nd" using fr [of i] T0(2) D by simp
  have s1: "tree_at (nodes T1) s"
    using T0(6) tree_at_cong [of s "nodes T1" "nodes T"] fr D tree_at_dom [OF T0(6)] by fastforce
  have "i \<notin> idset (plug cs x)" using fresh D T0(2) by auto
  with path_step [OF W(1) C(2) i1 T0(1,3,4) s1] D obtain i' T2 T3 where P:
    "own_copy i T1 = Some (i', T2)" "set_ref d i' (tid (plug cs x)) T2 = Some T3" "cow T1 T3"
    "tree_at (nodes T3) (mk d i' (redirect d (tid (plug cs x)) (own_nd (rid T1) nd)) (plug cs x) s)"
    "\<And>j. nodes T1 j \<noteq> None \<Longrightarrow> j \<noteq> i \<Longrightarrow> nodes T3 j = nodes T1 j" "i' = i \<or> nodes T1 i' = None"
    by blast
  define f where "f = (d, i', redirect d (tid (plug cs x)) (own_nd (rid T) nd), s)"
  have "nodes T i' = None" if "i' \<noteq> i" using P(6) that cow_dom [OF C(1) wf] by blast
  then have "cidset (cs @ [f]) \<union> idset x \<subseteq> idset (Nd i nd l r) \<union> {j. nodes T j = None}"
    using fresh by (auto simp: f_def u_def s_def split: if_splits)
  moreover have "\<forall>j. nodes T j \<noteq> None \<and> j \<notin> idset (Nd i nd l r) \<longrightarrow> nodes T3 j = nodes T j"
    using P(5) fr by (auto simp: u_def)
  moreover have "same_tree (plug (cs @ [f]) y) (Nd i nd l r)"
    using C(4) unfolding f_def by (intro same_tree_snoc) (simp_all add: u_def s_def)
  moreover have "search_ok k (cs @ [f])"
    using C(5) srt k unfolding f_def by (intro search_ok_snoc) (auto simp: s_def)
  moreover have "cow T T3" using C(1) P(3) by (rule rtranclp_trans)
  ultimately have "path_spec k T (Nd i nd l r) (cs @ [f]) x y T3"
    using P(4) W C(3) by (simp add: path_spec_def plug_append f_def)
  then show thesis using that [of i' T2 T3 f] P(1,2) by (simp add: plug_append f_def)
qed

lemma insert_recursive_miss:
  fixes T :: "('k::linorder, 'v) ptree"
  assumes "wft T" and "tree_at (nodes T) t" and "skeys (inorder t)" and "k \<notin> fst ` set (inorder t)"
  shows "\<exists>nn cs T'.
    insert_recursive T path k v (tid t) =
      Some (Some (tid (plug cs (Nd nn (new_leaf k v (rid T)) Lf Lf))), path @ nn # map fid cs, T') \<and>
    path_spec k T t cs (Nd nn (new_leaf k v (rid T)) Lf Lf) Lf T'"
  using assms
proof (induction t arbitrary: path)
  case Lf
  let ?T = "add_node (new_leaf k v (rid T)) T"
  have "insert_recursive T path k v (tid Lf) = Some (Some (next_node T), path @ [next_node T], ?T)"
    by (simp add: insert_recursive.simps [of T path k v 0] add_node_def alloc_node_def)
  moreover have "cow T ?T" by (intro cow_intros) (auto simp: new_leaf_def)
  ultimately show ?case
    using wf_next [OF Lf(1)]
    by (intro exI [of _ "next_node T"] exI [of _ "[]"] exI [of _ ?T])
      (auto simp: path_spec_def new_leaf_def owned_frames_def search_ok_def)
next
  case (Nd i nd l r)
  define d where "d = (if k < nd_key nd then DL else DR)"
  have k: "if d = DL then k < nd_key nd else nd_key nd < k"
    using Nd.prems(4) by (auto simp: d_def)
  have IH: "\<exists>nn cs T'. insert_recursive T path k v (tid u) =
      Some (Some (tid (plug cs (Nd nn (new_leaf k v (rid T)) Lf Lf))), path @ nn # map fid cs, T') \<and>
    path_spec k T u cs (Nd nn (new_leaf k v (rid T)) Lf Lf) Lf T'" if "u = l \<or> u = r" for u
  proof -
    have "skeys (inorder u)" "k \<notin> fst ` set (inorder u)" "tree_at (nodes T) u"
      using that Nd.prems by (auto simp: sorted_wrt_append)
    with that show ?thesis using Nd.IH [OF Nd.prems(1), of path] by (elim disjE) simp_all
  qed
  have "(if d = DL then l else r) = l \<or> (if d = DL then l else r) = r" by simp
  from IH [OF this] obtain nn cs T1 where R: "insert_recursive T path k v (tid (if d = DL then l else r)) =
      Some (Some (tid (plug cs (Nd nn (new_leaf k v (rid T)) Lf Lf))), path @ nn # map fid cs, T1)"
    and P: "path_spec k T (if d = DL then l else r) cs (Nd nn (new_leaf k v (rid T)) Lf Lf) Lf T1"
    by blast
  obtain i' T2 T3 f where S: "own_copy i T1 = Some (i', T2)"
    "set_ref d i' (tid (plug cs (Nd nn (new_leaf k v (rid T)) Lf Lf))) T2 = Some T3" "fid f = i'"
    "tid (plug (cs @ [f]) (Nd nn (new_leaf k v (rid T)) Lf Lf)) = i'"
    "path_spec k T (Nd i nd l r) (cs @ [f]) (Nd nn (new_leaf k v (rid T)) Lf Lf) Lf T3"
    using path_spec_step [OF Nd.prems(1,2,3) k P] by blast
  have "insert_recursive T path k v (tid (Nd i nd l r)) =
      Some (Some i', path @ nn # map fid (cs @ [f]), T3)"
    using R S(1-3) Nd.prems(2) k
    by (cases "k < nd_key nd") (simp_all add: insert_recursive.simps [of T path k v i] d_def)
  with S(4,5) show ?case by metis
qed

end
