(* ===== verification/TreeInsert.thy ===== *)
theory TreeInsert
  imports TreeSteps
begin

text \<open>
  \<^verbatim>\<open>Put\<close> for a key that is not in the tree: the balancing loop \<^verbatim>\<open>insert_balance\<close> terminates and restores the
  red-black invariant, without changing the key-value sequence and without touching other versions.
\<close>

section \<open>Recoloured nodes\<close>

text \<open>\<open>nd'\<close> is the node \<open>nd\<close> with the colour \<open>c\<close> and possibly other pointers.\<close>

definition recol :: "bool \<Rightarrow> ('k, 'v) node \<Rightarrow> ('k, 'v) node \<Rightarrow> bool" where
  "recol c nd nd' \<longleftrightarrow>
     nd_key nd' = nd_key nd \<and> nd_val nd' = nd_val nd \<and> nd_red nd' = c \<and>
     nd_rid nd' = nd_rid nd \<and> nd_read_only nd' = nd_read_only nd"

lemma rotate_zip':
  fixes T :: "('k::linorder, 'v) ptree"
  assumes wf: "wft T"
    and tree: "tree_at (nodes T) (plug cs (mk d c cd a (mk d g gd b e)))"
    and srt: "skeys (inorder (plug cs (mk d c cd a (mk d g gd b e))))"
    and own: "nd_rid cd = rid T" "nd_rid gd = rid T" "owned_frames (rid T) cs"
    and rt: "rt = tid (plug cs (mk d c cd a (mk d g gd b e)))"
    and parent: "parent = hd (map fid cs @ [Nil_id])"
  obtains T' p cd' gd' where
    "rotate_nodes parent c d rt T = Some (g, tid (plug (retarget p cs) (mk d g gd' (mk d c cd' a b) e)), T')"
    "cow T T'" "tree_at (nodes T') (plug (retarget p cs) (mk d g gd' (mk d c cd' a b) e))"
    "recol (nd_red cd) cd cd'" "recol (nd_red gd) gd gd'"
proof -
  have "dist (plug cs (mk d c cd a (mk d g gd b e)))" using tree srt by (rule skeys_dist)
  moreover have "cs \<noteq> [] \<Longrightarrow> parent = fid (hd cs)" using parent by (cases cs) auto
  ultimately obtain T' where
    "rotate_nodes parent c d rt T = Some (g, tid (plug (retarget (child (opp d) cd) cs)
       (mk d g (redirect d c gd) (mk d c (rot_c d cd gd) a b) e)), T')"
    "cow T T'" "tree_at (nodes T') (plug (retarget (child (opp d) cd) cs)
       (mk d g (redirect d c gd) (mk d c (rot_c d cd gd) a b) e))"
    by (rule rotate_zip [OF wf tree _ own rt])
  then show thesis by (rule that) (simp_all add: recol_def)
qed

text \<open>The second half of the black-uncle case: exchange colours and rotate the grandparent down.\<close>

lemma insert_outer:
  fixes T :: "('k::linorder, 'v) ptree"
  assumes wf: "wft T"
    and tree: "tree_at (nodes T) (plug cs (mk d g gd (mk d q qd y z) s))"
    and srt: "skeys (inorder (plug cs (mk d g gd (mk d q qd y z) s)))"
    and own: "nd_rid gd = rid T" "nd_rid qd = rid T" "owned_frames (rid T) cs"
    and rt: "rt = tid (plug cs (mk d g gd (mk d q qd y z) s))"
  obtains T1 T2 p gd' qd' where
    "swap_color g q T = Some T1"
    "rotate_nodes (hd (map fid cs @ [Nil_id])) g (opp d) rt T1 =
       Some (q, tid (plug (retarget p cs) (mk d q qd' y (mk d g gd' z s))), T2)"
    "cow T T2" "tree_at (nodes T2) (plug (retarget p cs) (mk d q qd' y (mk d g gd' z s)))"
    "recol (nd_red qd) gd gd'" "recol (nd_red gd) qd qd'"
proof -
  let ?gd = "gd\<lparr>nd_red := nd_red qd\<rparr>" and ?qd = "qd\<lparr>nd_red := nd_red gd\<rparr>"
  let ?T1 = "put_node q ?qd (put_node g ?gd T)"
  have dist: "dist (plug cs (mk d g gd (mk d q qd y z) s))" using tree srt by (rule skeys_dist)
  have N: "nodes T g = Some gd" "nodes T q = Some qd" "g \<noteq> q" "\<not> nd_read_only gd" "\<not> nd_read_only qd"
    using tree dist own wf wf_writable [of T] by auto
  have sw: "swap_color g q T = Some ?T1" using N by (simp add: heap_simps)
  have c1: "cow T ?T1" using N own by (intro cow_intros) (auto intro: ownsI)
  have t1: "tree_at (nodes ?T1) (plug cs (mk (opp d) g ?gd s (mk (opp d) q ?qd z y)))"
    using tree dist N by (auto simp: mk_opp)
  have s1: "skeys (inorder (plug cs (mk (opp d) g ?gd s (mk (opp d) q ?qd z y))))"
    using srt by (cases d) (simp_all add: mk_opp)
  have rt1: "rt = tid (plug cs (mk (opp d) g ?gd s (mk (opp d) q ?qd z y)))"
    using rt by (simp add: tid_plug)
  from cow_wf [OF c1 wf] t1 s1 _ _ _ rt1 refl
  obtain T' p cd' gd' where r:
    "rotate_nodes (hd (map fid cs @ [Nil_id])) g (opp d) rt ?T1 = Some (q, tid (plug (retarget p cs)
       (mk (opp d) q gd' (mk (opp d) g cd' s z) y)), T')"
    "cow ?T1 T'" "tree_at (nodes T') (plug (retarget p cs) (mk (opp d) q gd' (mk (opp d) g cd' s z) y))"
    "recol (nd_red ?gd) ?gd cd'" "recol (nd_red ?qd) ?qd gd'"
    by (rule rotate_zip') (use own in simp_all)
  note r(1,3) [unfolded mk_opp]
  moreover have "cow T T'" using c1 r(2) by (rule rtranclp_trans)
  moreover have "recol (nd_red qd) gd cd'" "recol (nd_red gd) qd gd'"
    using r(4,5) by (simp_all add: recol_def)
  ultimately show thesis using that [OF sw] by blast
qed

section \<open>The balancing loop\<close>

text \<open>The loop invariant: \<open>x\<close>, the subtree at the new node, is red; everything else is in order but for
  the colours of \<open>x\<close> and its parent.\<close>

definition ins_inv :: "('k::linorder, 'v) ptree \<Rightarrow> ('k, 'v) frame list \<Rightarrow> ('k, 'v) ntree \<Rightarrow> bool" where
  "ins_inv T cs x \<longleftrightarrow>
     wft T \<and> tree_at (nodes T) (plug cs x) \<and> skeys (inorder (plug cs x)) \<and>
     owned_frames (rid T) cs \<and> owns T (tid x) \<and> is_red x \<and> invc x \<and> cinvc cs \<and>
     (\<exists>n. hb x n \<and> chb cs n) \<and> (cs \<noteq> [] \<longrightarrow> \<not> top_red [last cs])"

text \<open>What the loop delivers: a tree with the same sequence of entries that is red-black up to the
  colour of its root.\<close>

definition ins_post ::
  "('k::linorder, 'v) ptree \<Rightarrow> ('k \<times> 'v) list \<Rightarrow> nat \<Rightarrow> ('k, 'v) ptree \<Rightarrow> bool" where
  "ins_post T es rt T' \<longleftrightarrow>
     cow T T' \<and> (\<exists>t. rt = tid t \<and> t \<noteq> Lf \<and> owns T' rt \<and> tree_at (nodes T') t \<and> inorder t = es \<and>
       invc t \<and> (\<exists>n. hb t n))"

lemma mk_cases:
  assumes "t \<noteq> Lf"
  obtains i nd a b where "t = mk d i nd a b"
  using assms by (cases t; cases d) auto

lemma owned_frames_last:
  "owned_frames r cs \<Longrightarrow> ctx_at N cs p \<Longrightarrow> cs \<noteq> [] \<Longrightarrow>
   \<exists>nd. N (fid (last cs)) = Some nd \<and> nd_rid nd = r"
  by (induction N cs p rule: ctx_at.induct) (auto simp: owned_frames_def)

lemma owns_root:
  assumes "owned_frames (rid T) cs" and "tree_at (nodes T) (plug cs t)" and "cs = [] \<Longrightarrow> owns T (tid t)"
  shows "owns T (tid (plug cs t))"
  using assms owned_frames_last [of "rid T" cs "nodes T" "tid t"]
  by (auto simp: tid_plug owns_def)

lemma ins_done:
  assumes "ins_inv T cs x" and "\<not> top_red cs"
  shows "ins_post T (inorder (plug cs x)) (tid (plug cs x)) T"
proof -
  have "plug cs x \<noteq> Lf" using assms(1) by (auto simp: ins_inv_def)
  moreover have "owns T (tid (plug cs x))"
    using assms(1) by (intro owns_root) (auto simp: ins_inv_def)
  moreover have "invc (plug cs x)" "\<exists>n. hb (plug cs x) n" "tree_at (nodes T) (plug cs x)"
    using assms by (simp_all add: ins_inv_def invc_plug hb_plug)
  ultimately show ?thesis
    unfolding ins_post_def by (intro conjI rtranclp.rtrancl_refl exI [of _ "plug cs x"]) auto
qed

lemma get_red_tree: "wft T \<Longrightarrow> tree_at (nodes T) t \<Longrightarrow> get_red (tid t) T = Some (is_red t)"
  by (cases t) (auto simp: heap_simps is_nil_node_def dest!: wf_nil)

lemma get_rid_nil: "wft T \<Longrightarrow> \<exists>r. get_rid 0 T = Some r \<and> r \<noteq> rid T"
  by (auto simp: heap_simps is_nil_node_def wft_def)

lemma red_uncle:
  fixes T :: "('k::linorder, 'v) ptree"
  assumes inv: "ins_inv T ((d, p, pd, b) # (d2, g, gd, s) # cs) x"
    and red: "nd_red pd" "is_red s"
  shows "\<exists>T' x'. insert_balance d2 p (tid x) (g # map fid cs @ [Nil_id]) rt T =
      Some (hd (map fid cs @ [Nil_id]), g, tl (map fid cs @ [Nil_id]), rt, T') \<and>
    ins_inv T' cs x' \<and> tid x' = g \<and> cow T T' \<and>
    inorder (plug cs x') = inorder (plug ((d, p, pd, b) # (d2, g, gd, s) # cs) x)"
proof -
  have wf: "wft T" using inv by (simp add: ins_inv_def)
  have tree: "tree_at (nodes T) (plug ((d, p, pd, b) # (d2, g, gd, s) # cs) x)"
    and srt: "skeys (inorder (plug ((d, p, pd, b) # (d2, g, gd, s) # cs) x))"
    using inv by (simp_all only: ins_inv_def)
  obtain u ud ul ur where s: "s = mk DL u ud ul ur" using red by (cases s) auto
  have own: "nd_rid pd = rid T" "nd_rid gd = rid T" "owned_frames (rid T) cs" "\<not> nd_read_only gd"
    using inv by (simp_all add: ins_inv_def owned_frames_def)
  obtain u' T1 where oc: "own_child (opp d2) g T = Some T1" "cow T T1"
    "tree_at (nodes T1) (plug cs (mk (opp d2) g (redirect (opp d2) u' gd)
       (mk DL u' (own_nd (rid T) ud) ul ur) (mk d p pd x b)))"
    by (rule own_child_zip [of T cs "opp d2" g gd DL u ud ul ur "mk d p pd x b"])
      (use wf tree srt own in \<open>simp_all only: s mk_opp plug.simps\<close>)
  let ?gd = "redirect (opp d2) u' gd" and ?ud = "own_nd (rid T) ud"
  define t1 where "t1 = plug cs (mk d2 g ?gd (mk d p pd x b) (mk DL u' ?ud ul ur))"
  have t1: "tree_at (nodes T1) t1" using oc(3) by (simp only: t1_def mk_opp)
  have eqin: "inorder t1 = inorder (plug ((d, p, pd, b) # (d2, g, gd, s) # cs) x)"
    by (simp add: t1_def s inorder_mk split: dir.splits)
  have dist: "dist t1" using t1 by (rule skeys_dist) (simp only: eqin srt)
  have W: "wft T1" "rid T1 = rid T" using cow_wf cow_members oc(2) wf by blast+
  have N: "nodes T1 g = Some ?gd" "nodes T1 p = Some pd" "nodes T1 u' = Some ?ud"
    "g \<noteq> p" "g \<noteq> u'" "p \<noteq> u'" "g \<noteq> 0" "np_ref (child (opp d2) ?gd) = Some u'"
    "\<not> nd_read_only ?gd" "\<not> nd_read_only pd"
    using t1 dist W own wf_writable [OF W(1)] by (auto simp: t1_def)
  have u: "child_ref (opp d2) g T = Some (tid s)" "get_red (tid s) T = Some True"
    using tree red wf get_red_tree [OF wf, of s] by (auto simp: heap_simps)
  let ?T' = "put_node g (?gd\<lparr>nd_red := True\<rparr>) (put_node u' (?ud\<lparr>nd_red := False\<rparr>)
     (put_node p (pd\<lparr>nd_red := False\<rparr>) T1))"
  let ?x' = "mk d2 g (?gd\<lparr>nd_red := True\<rparr>) (mk d p (pd\<lparr>nd_red := False\<rparr>) x b)
     (mk DL u' (?ud\<lparr>nd_red := False\<rparr>) ul ur)"
  obtain q qs where q: "map fid cs @ [Nil_id] = q # qs" by (cases "map fid cs @ [Nil_id]") auto
  have run: "insert_balance d2 p (tid x) (g # map fid cs @ [Nil_id]) rt T =
      Some (hd (map fid cs @ [Nil_id]), g, tl (map fid cs @ [Nil_id]), rt, ?T')"
    using u oc(1) N q by (simp add: insert_balance_def heap_simps)
  have cw: "cow T ?T'"
    using oc(2) N own W by (intro cow_intros) (auto intro: ownsI)
  have "\<exists>n. hb ?x' n \<and> chb cs n"
  proof -
    obtain n where "hb x n" "hb b n" "hb s n" "chb cs (Suc n)"
      using inv red by (auto simp: ins_inv_def split: if_splits)
    then show ?thesis using red by (intro exI [of _ "Suc n"]) (auto simp: s)
  qed
  moreover have "tree_at (nodes ?T') (plug cs ?x')"
    using t1 dist N by (auto simp: t1_def)
  moreover have "inorder (plug cs ?x') = inorder t1"
    by (simp add: t1_def inorder_mk split: dir.splits)
  moreover have "cs \<noteq> [] \<longrightarrow> \<not> top_red [last cs]"
    using inv by (auto simp: ins_inv_def)
  moreover have "invc ?x'" "cinvc cs"
    using inv red by (auto simp: ins_inv_def s)
  moreover have "wft ?T'" using cw wf by (rule cow_wf)
  ultimately have "ins_inv ?T' cs ?x'"
    using srt own W by (simp add: ins_inv_def eqin owns_def)
  then show ?thesis
    using run cw eqin \<open>inorder (plug cs ?x') = inorder t1\<close> by (intro exI [of _ ?T'] exI [of _ ?x']) simp
qed

lemma outer_post:
  fixes T :: "('k::linorder, 'v) ptree"
  assumes wf: "wft T"
    and tree: "tree_at (nodes T) (plug cs (mk d g gd (mk d q qd y z) s))"
    and srt: "skeys (inorder (plug cs (mk d g gd (mk d q qd y z) s)))"
    and own: "nd_rid gd = rid T" "nd_rid qd = rid T" "owned_frames (rid T) cs"
    and rt: "rt = tid (plug cs (mk d g gd (mk d q qd y z) s))"
    and col: "\<not> nd_red gd" "nd_red qd" "invc y" "invc z" "\<not> is_red z" "invc s" "\<not> is_red s" "cinvc cs"
    and h: "hb y n" "hb z n" "hb s n" "chb cs (Suc n)"
  shows "\<exists>T1 T2 rt'. swap_color g q T = Some T1 \<and>
    rotate_nodes (hd (map fid cs @ [Nil_id])) g (opp d) rt T1 = Some (q, rt', T2) \<and>
    get_red q T2 = Some False \<and> ins_post T (inorder (plug cs (mk d g gd (mk d q qd y z) s))) rt' T2"
proof -
  obtain T1 T2 p gd' qd' where o:
    "swap_color g q T = Some T1"
    "rotate_nodes (hd (map fid cs @ [Nil_id])) g (opp d) rt T1 =
       Some (q, tid (plug (retarget p cs) (mk d q qd' y (mk d g gd' z s))), T2)"
    "cow T T2" "tree_at (nodes T2) (plug (retarget p cs) (mk d q qd' y (mk d g gd' z s)))"
    "recol (nd_red qd) gd gd'" "recol (nd_red gd) qd qd'"
    by (rule insert_outer [OF wf tree srt own rt])
  let ?t = "plug (retarget p cs) (mk d q qd' y (mk d g gd' z s))"
  have r: "rid T2 = rid T" using cow_members [OF o(3)] by blast
  have "owns T2 (tid ?t)"
    using o(4,6) own r by (intro owns_root) (auto simp: recol_def owns_def)
  moreover have "inorder ?t = inorder (plug cs (mk d g gd (mk d q qd y z) s))"
    using o(5,6) by (simp add: recol_def inorder_mk split: dir.splits)
  moreover have "invc ?t" using o(5,6) col by (simp add: invc_plug recol_def)
  moreover have "\<exists>n. hb ?t n"
    unfolding hb_plug using o(5,6) col h by (intro exI [of _ "Suc n"]) (simp add: recol_def)
  moreover have "?t \<noteq> Lf" by simp
  ultimately have "ins_post T (inorder (plug cs (mk d g gd (mk d q qd y z) s))) (tid ?t) T2"
    unfolding ins_post_def using o(3,4) by (intro conjI exI [of _ ?t]) simp_all
  moreover have "get_red q T2 = Some False"
    using o(4,6) col by (simp add: heap_simps recol_def)
  ultimately show ?thesis using o(1,2) by blast
qed

lemma black_uncle:
  fixes T :: "('k::linorder, 'v) ptree"
  assumes inv: "ins_inv T ((d, p, pd, b) # (d2, g, gd, s) # cs) x"
    and col: "nd_red pd" "\<not> is_red s"
    and rt: "rt = tid (plug ((d, p, pd, b) # (d2, g, gd, s) # cs) x)"
  shows "\<exists>parent' nn' rt' T'. insert_balance d2 p (tid x) (g # map fid cs @ [Nil_id]) rt T =
      Some (parent', nn', map fid cs @ [Nil_id], rt', T') \<and> get_red parent' T' = Some False \<and>
    ins_post T (inorder (plug ((d, p, pd, b) # (d2, g, gd, s) # cs) x)) rt' T'"
proof -
  have wf: "wft T" using inv by (simp add: ins_inv_def)
  have tree: "tree_at (nodes T) (plug ((d, p, pd, b) # (d2, g, gd, s) # cs) x)"
    and srt: "skeys (inorder (plug ((d, p, pd, b) # (d2, g, gd, s) # cs) x))"
    using inv by (simp_all only: ins_inv_def)
  have dist: "dist (plug ((d, p, pd, b) # (d2, g, gd, s) # cs) x)" using tree srt by (rule skeys_dist)
  have own: "nd_rid pd = rid T" "nd_rid gd = rid T" "owned_frames (rid T) cs" "owns T (tid x)"
    using inv by (simp_all add: ins_inv_def owned_frames_def)
  have fr: "owned_frames (rid T) ((d2, g, gd, s) # cs)"
    using inv by (simp add: ins_inv_def owned_frames_def)
  obtain n where h: "hb x n" "hb b n" "hb s n" "chb cs (Suc n)"
    using inv col by (auto simp: ins_inv_def split: if_splits)
  have C: "invc x" "is_red x" "invc b" "\<not> is_red b" "invc s" "\<not> nd_red gd" "cinvc cs"
    using inv col by (auto simp: ins_inv_def)
  obtain q qs where q: "map fid cs @ [Nil_id] = q # qs" by (cases "map fid cs @ [Nil_id]") auto
  have u: "child_ref (opp d2) g T = Some (tid s)" "get_red (tid s) T = Some False" "g \<noteq> 0"
    using tree col wf get_red_tree [OF wf, of s] by (auto simp: heap_simps)
  consider "d = d2" | "d = opp d2" by (cases d; cases d2) auto
  then show ?thesis
  proof cases
    case 1
    have "tid x \<noteq> tid b"
      using C(2) dist tid_in_idset [of x] tid_in_idset [of b] tree tid_zero_iff [of "nodes T" x]
      by (cases "b = Lf") auto
    moreover have "child_ref (opp d2) p T = Some (tid b)" using tree 1 by (simp add: heap_simps)
    moreover have "\<exists>T1 T2 rt'. swap_color g p T = Some T1 \<and>
      rotate_nodes (hd (map fid cs @ [Nil_id])) g (opp d) rt T1 = Some (p, rt', T2) \<and>
      get_red p T2 = Some False \<and> ins_post T (inorder (plug cs (mk d g gd (mk d p pd x b) s))) rt' T2"
      by (rule outer_post [of T cs d g gd p pd x b s rt n])
        (use wf tree srt own rt col C h 1 in \<open>simp_all only: plug.simps not_False_eq_True\<close>)
    ultimately show ?thesis using u q 1 by (auto simp: insert_balance_def)
  next
    case 2
    have "x \<noteq> Lf" using C(2) by auto
    then obtain i xd y z where x: "x = mk d2 i xd y z" by (rule mk_cases)
    have t: "tree_at (nodes T) (plug ((d2, g, gd, s) # cs) (mk d2 p pd b (mk d2 i xd y z)))"
      using tree by (simp only: 2 x plug.simps mk_opp)
    have s0: "skeys (inorder (plug ((d2, g, gd, s) # cs) (mk d2 p pd b (mk d2 i xd y z))))"
      using srt by (simp only: 2 x plug.simps mk_opp)
    have rt0: "rt = tid (plug ((d2, g, gd, s) # cs) (mk d2 p pd b (mk d2 i xd y z)))"
      using rt by (simp only: 2 x plug.simps mk_opp)
    have ox: "nd_rid xd = rid T" using own(4) tree x by (auto simp: owns_def)
    have par: "g = hd (map fid ((d2, g, gd, s) # cs) @ [Nil_id])" by simp
    obtain T1 ptr pd' xd' where r:
      "rotate_nodes g p d2 rt T = Some (i, tid (plug (retarget ptr ((d2, g, gd, s) # cs))
         (mk d2 i xd' (mk d2 p pd' b y) z)), T1)"
      "cow T T1" "tree_at (nodes T1) (plug (retarget ptr ((d2, g, gd, s) # cs))
         (mk d2 i xd' (mk d2 p pd' b y) z))"
      "recol (nd_red pd) pd pd'" "recol (nd_red xd) xd xd'"
      by (rule rotate_zip' [OF wf t s0 own(1) ox fr rt0 par])
    let ?gd = "set_child d2 ptr gd"
    let ?t = "plug cs (mk d2 g ?gd (mk d2 i xd' (mk d2 p pd' b y) z) s)"
    have W: "wft T1" "rid T1 = rid T" using cow_wf cow_members r(2) wf by blast+
    have eqin: "inorder ?t = inorder (plug ((d, p, pd, b) # (d2, g, gd, s) # cs) x)"
      using r(4,5) by (simp add: 2 x mk_opp recol_def inorder_mk split: dir.splits)
    have "\<exists>T2 T3 rt'. swap_color g i T1 = Some T2 \<and>
      rotate_nodes (hd (map fid cs @ [Nil_id])) g (opp d2) (tid ?t) T2 = Some (i, rt', T3) \<and>
      get_red i T3 = Some False \<and> ins_post T1 (inorder ?t) rt' T3"
      by (rule outer_post [of T1 cs d2 g ?gd i xd' "mk d2 p pd' b y" z s "tid ?t" n])
        (use r(3-5) own ox C h srt col W x eqin in
          \<open>auto simp: recol_def simp del: inorder_plug split: if_splits\<close>)
    then obtain T2 T3 rt' where f: "swap_color g i T1 = Some T2"
      "rotate_nodes (hd (map fid cs @ [Nil_id])) g (opp d2) (tid ?t) T2 = Some (i, rt', T3)"
      "get_red i T3 = Some False" "ins_post T1 (inorder ?t) rt' T3" by blast
    have "ins_post T (inorder ?t) rt' T3"
      using f(4) r(2) unfolding ins_post_def by (auto intro: rtranclp_trans)
    moreover have "child_ref (opp d2) p T = Some (tid x)" using tree 2 by (simp add: heap_simps)
    moreover have "ins_post T (inorder (plug ((d, p, pd, b) # (d2, g, gd, s) # cs) x)) rt' T3"
      using calculation(1) by (simp only: eqin)
    ultimately show ?thesis
      using u q r(1) f(1-3) x by (simp add: insert_balance_def)
  qed
qed

lemma insert_loop_ok:
  fixes T :: "('k::linorder, 'v) ptree"
  assumes "ins_inv T cs x"
  shows "\<exists>rt' T'. insert_loop (hd (map fid cs @ [Nil_id])) (tid x) (tl (map fid cs @ [Nil_id]))
      (tid (plug cs x)) T = Some (rt', T') \<and> ins_post T (inorder (plug cs x)) rt' T'"
  using assms
proof (induction "length cs" arbitrary: cs x T rule: less_induct)
  case less
  have wf: "wft T" and tree: "tree_at (nodes T) (plug cs x)"
    using less.prems by (simp_all add: ins_inv_def)
  have par: "get_red (hd (map fid cs @ [Nil_id])) T = Some (top_red cs)"
    using tree get_red_tree [OF wf, of Lf]
    by (cases cs rule: top_red.cases) (auto simp: heap_simps)
  show ?case
  proof (cases "top_red cs")
    case False
    then show ?thesis
      using par ins_done [OF less.prems False] by (subst insert_loop.simps) simp
  next
    case True
    then obtain d p pd b cs1 where cs1: "cs = (d, p, pd, b) # cs1" "nd_red pd"
      by (cases cs rule: top_red.cases) auto
    moreover have "cs1 \<noteq> []" using less.prems cs1 by (auto simp: ins_inv_def)
    then obtain d2 g gd s cs2 where "cs1 = (d2, g, gd, s) # cs2"
      by (cases cs1 rule: top_red.cases) auto
    ultimately have cs: "cs = (d, p, pd, b) # (d2, g, gd, s) # cs2" "nd_red pd" by simp_all
    have "dist (plug cs x)" using less.prems by (intro skeys_dist [OF tree]) (simp add: ins_inv_def)
    then have "tid s \<noteq> p" using tree tid_in_idset [of s] by (cases "s = Lf") (auto simp: cs)
    then have dir: "child_ref DL g T = Some gl \<Longrightarrow> (if gl = p then DL else DR) = d2" for gl
      using tree by (cases d2) (auto simp: cs heap_simps)
    obtain gl where gl: "child_ref DL g T = Some gl"
      using tree by (cases d2) (auto simp: cs heap_simps)
    have step: "insert_loop p (tid x) (g # map fid cs2 @ [Nil_id]) rt T = do {
       (parent, nn, path, rt, T) \<leftarrow> insert_balance d2 p (tid x) (g # map fid cs2 @ [Nil_id]) rt T;
       insert_loop parent nn path rt T }" for rt
      using par dir [OF gl] gl True by (subst insert_loop.simps) (simp add: cs)
    show ?thesis
    proof (cases "is_red s")
      case True
      obtain T1 x1 where r: "insert_balance d2 p (tid x) (g # map fid cs2 @ [Nil_id]) (tid (plug cs x)) T =
          Some (hd (map fid cs2 @ [Nil_id]), g, tl (map fid cs2 @ [Nil_id]), tid (plug cs x), T1)"
        "ins_inv T1 cs2 x1" "tid x1 = g" "cow T T1" "inorder (plug cs2 x1) = inorder (plug cs x)"
        using red_uncle [OF less.prems [unfolded cs(1)] cs(2) True, of "tid (plug cs x)"]
        unfolding cs(1) by blast
      have root: "tid (plug cs2 x1) = tid (plug cs x)" using r(3) by (simp add: tid_plug cs)
      obtain rt' T' where l: "insert_loop (hd (map fid cs2 @ [Nil_id])) (tid x1)
          (tl (map fid cs2 @ [Nil_id])) (tid (plug cs2 x1)) T1 = Some (rt', T')"
        "ins_post T1 (inorder (plug cs2 x1)) rt' T'"
        using less.hyps [OF _ r(2)] cs(1) by auto
      have "ins_post T (inorder (plug cs x)) rt' T'"
        using l(2) r(4) unfolding r(5) ins_post_def by (auto intro: rtranclp_trans)
      then show ?thesis
        using step [of "tid (plug cs x)"] r(1,3) l(1) root cs(1) by (simp del: plug.simps)
    next
      case False
      obtain parent' nn' rt' T' where r:
        "insert_balance d2 p (tid x) (g # map fid cs2 @ [Nil_id]) (tid (plug cs x)) T =
           Some (parent', nn', map fid cs2 @ [Nil_id], rt', T')"
        "get_red parent' T' = Some False" "ins_post T (inorder (plug cs x)) rt' T'"
        using black_uncle [OF less.prems [unfolded cs(1)] cs(2) False refl] unfolding cs(1) by blast
      moreover have "insert_loop parent' nn' (map fid cs2 @ [Nil_id]) rt' T' = Some (rt', T')"
        using r(2) by (subst insert_loop.simps) simp
      ultimately show ?thesis
        using step [of "tid (plug cs x)"] cs(1) by (simp del: plug.simps inorder_plug)
    qed
  qed
qed

section \<open>Inserting a new key\<close>

text \<open>The second half of \<^verbatim>\<open>Put\<close>: from the path to the new leaf to the finished tree.\<close>

lemma insert_finish:
  fixes T :: "('k::linorder, 'v) ptree"
  assumes den: "denotes T t" and k: "k \<notin> fst ` set (inorder t)"
  obtains rt nn path parent rest rt' T1 T2 T3 t' where
    "insert_recursive T [] k v (tid t) = Some (Some rt, path, T1)"
    "path @ [Nil_id] = nn # parent # rest"
    "insert_loop parent nn rest rt T1 = Some (rt', T2)" "set_red rt' False T2 = Some T3"
    "cow T (T3\<lparr>root := Some rt'\<rparr>)" "denotes (T3\<lparr>root := Some rt'\<rparr>) t'"
    "inorder t' = put_list k v (inorder t)"
proof -
  have wf: "wft T" and tree: "tree_at (nodes T) t" and srt: "skeys (inorder t)" and rb: "rbt t"
    using den by (simp_all add: denotes_def)
  obtain nn cs T1 where ir: "insert_recursive T [] k v (tid t) =
      Some (Some (tid (plug cs (Nd nn (new_leaf k v (rid T)) Lf Lf))), nn # map fid cs, T1)"
    and ps: "path_spec k T t cs (Nd nn (new_leaf k v (rid T)) Lf Lf) Lf T1"
    using insert_recursive_miss [OF wf tree srt k, of "[]" v] by auto
  let ?x = "Nd nn (new_leaf k v (rid T)) Lf Lf"
  have same: "same_tree (plug cs Lf) t" and c1: "cow T T1" and t1: "tree_at (nodes T1) (plug cs ?x)"
    and so: "search_ok k cs" and ow: "owned_frames (rid T) cs"
    using ps by (simp_all only: path_spec_def)
  have W: "wft T1" "rid T1 = rid T" using cow_wf cow_members c1 wf by blast+
  have ino: "inorder t = lefts cs @ rights cs" using same_tree_inorder [OF same] by simp
  have es: "inorder (plug cs ?x) = put_list k v (inorder t)"
    using so by (simp add: ino put_list_mid search_ok_def new_leaf_def)
  have rb': "rbt (plug cs Lf)" using same rb same_tree_rbt by blast
  then have "chb cs 0" "cinvc cs" "cs \<noteq> [] \<longrightarrow> \<not> top_red [last cs]"
    using hb_plug [of cs Lf] by (auto simp: rbt_def invc_plug is_red_plug)
  then have "ins_inv T1 cs ?x"
    unfolding ins_inv_def using W t1 srt ow es by (simp add: skeys_put_list owns_def new_leaf_def)
  from insert_loop_ok [OF this] obtain rt' T2 where L:
    "insert_loop (hd (map fid cs @ [Nil_id])) nn (tl (map fid cs @ [Nil_id])) (tid (plug cs ?x)) T1 =
       Some (rt', T2)" "ins_post T1 (put_list k v (inorder t)) rt' T2"
    by (auto simp only: es tid.simps)
  obtain t2 where P: "cow T1 T2" "rt' = tid t2" "t2 \<noteq> Lf" "owns T2 rt'" "tree_at (nodes T2) t2"
    "inorder t2 = put_list k v (inorder t)" "invc t2" "\<exists>n. hb t2 n"
    using L(2) unfolding ins_post_def by (elim conjE exE) (rule that, auto)
  obtain nd l r where t2: "t2 = Nd rt' nd l r" using P(2,3) by (cases t2) auto
  let ?T3 = "put_node rt' (nd\<lparr>nd_red := False\<rparr>) T2" and ?t3 = "Nd rt' (nd\<lparr>nd_red := False\<rparr>) l r"
  have W2: "wft T2" "rid T2 = rid T" using cow_wf cow_members P(1) W by metis+
  have nd: "nodes T2 rt' = Some nd" "nd_rid nd = rid T" "\<not> nd_read_only nd" "rt' \<noteq> 0"
    using P(4,5) t2 W2 wf_writable [OF W2(1)] by (auto simp: owns_def)
  have s2: "skeys (inorder t2)" using P(6) srt by (simp add: skeys_put_list)
  have d2: "dist t2" using P(5) s2 by (rule skeys_dist)
  have "rt' \<notin> idset l" "rt' \<notin> idset r" using d2 by (simp_all add: t2)
  then have t3: "tree_at (nodes ?T3) ?t3" using P(5) t2 by auto
  have c3: "cow T (?T3\<lparr>root := Some rt'\<rparr>)"
    using rtranclp_trans [OF c1 P(1)] nd W2 by (intro cow_intros) (auto simp: owns_def)
  obtain n where "hb t2 n" using P(8) ..
  then have "\<exists>n. hb ?t3 n" by (auto simp: t2 split: if_splits nat.splits intro: exI [of _ "Suc n"])
  then have rb3: "rbt ?t3" using P(7) by (simp add: rbt_def t2)
  have "denotes (?T3\<lparr>root := Some rt'\<rparr>) ?t3"
    unfolding denotes_def base_root_def
    using cow_wf [OF c3 wf] t3 s2 rb3 nd W2 by (auto simp: t2 owns_def)
  moreover have "nn # map fid cs @ [Nil_id] =
      nn # hd (map fid cs @ [Nil_id]) # tl (map fid cs @ [Nil_id])" by simp
  moreover have "set_red rt' False T2 = Some ?T3" using nd by (simp add: heap_simps)
  moreover have "inorder ?t3 = put_list k v (inorder t)" using P(6) by (simp add: t2)
  ultimately show thesis using that [OF ir _ L(1) _ c3] by simp
qed

theorem Put_new_key:
  assumes "denotes T t" and "k \<notin> fst ` set (inorder t)"
  obtains T' t' where "Put k v T = Some T'" "cow T T'" "denotes T' t'" "root T' = Some (tid t')"
    "inorder t' = put_list k v (inorder t)"
proof -
  obtain rt nn path parent rest rt' T1 T2 T3 t' where I:
    "insert_recursive T [] k v (tid t) = Some (Some rt, path, T1)"
    "path @ [Nil_id] = nn # parent # rest"
    "insert_loop parent nn rest rt T1 = Some (rt', T2)" "set_red rt' False T2 = Some T3"
    "cow T (T3\<lparr>root := Some rt'\<rparr>)" "denotes (T3\<lparr>root := Some rt'\<rparr>) t'"
    "inorder t' = put_list k v (inorder t)"
    by (rule insert_finish [OF assms, of v])
  have "length path + 1 = length (nn # parent # rest)" using arg_cong [OF I(2), of length] by simp
  then have "path \<noteq> []" by auto
  then have "Put k v T = Some (T3\<lparr>root := Some rt'\<rparr>)"
    using I(1-4) assms(1) by (simp add: Put_def denotes_def Let_def)
  moreover have "rt' = tid t'" using I(6) by (simp add: denotes_def base_root_def)
  ultimately show thesis using that I(5-7) by simp
qed

end
