(* ===== verification/TreeDelete.thy ===== *)
theory TreeDelete
  imports TreeInsert
begin

text \<open>
  \<^verbatim>\<open>Delete\<close>: the descent that copies the path, the removal of the node or of its successor, and the
  loop \<^verbatim>\<open>balance_delete\<close> that restores the red-black invariant.
\<close>

section \<open>The descent\<close>

lemma delete_recursive_miss:
  assumes "tree_at (nodes T) t" and "skeys (inorder t)" and "k \<notin> fst ` set (inorder t)"
  shows "delete_recursive T path k (tid t) = Some (None, path, T)"
  using assms
proof (induction t)
  case Lf
  then show ?case by (simp add: delete_recursive.simps [of T path k 0])
next
  case (Nd i nd l r)
  then show ?case
    by (auto simp: delete_recursive.simps [of T path k i] sorted_wrt_append image_Un)
qed

lemma path_spec_here:
  fixes T :: "('k::linorder, 'v) ptree"
  assumes wf: "wft T" and tree: "tree_at (nodes T) (Nd i nd l r)" and srt: "skeys (inorder (Nd i nd l r))"
  obtains i' T' where "own_copy i T = Some (i', T')"
    "path_spec k T (Nd i nd l r) [] (Nd i' (own_nd (rid T) nd) l r) (Nd i' (own_nd (rid T) nd) l r) T'"
proof -
  have dist: "dist (Nd i nd l r)" using tree srt by (rule skeys_dist)
  have N: "nodes T i = Some nd" "i \<noteq> 0" "np_ref (nd_left nd) = Some (tid l)"
    "np_ref (nd_right nd) = Some (tid r)" "tree_at (nodes T) l" "tree_at (nodes T) r"
    using tree by auto
  obtain i' T' where c: "own_copy i T = Some (i', T')" "cow T T'" "i' \<noteq> 0"
    "nodes T' = (nodes T)(i' \<mapsto> own_nd (rid T) nd)" "i' = i \<or> nodes T i' = None"
    using own_copy_spec [OF wf N(1,2,3,4)] by blast
  have fr: "i' \<notin> idset l" "i' \<notin> idset r"
    using c(5) dist tree_at_dom [OF N(5)] tree_at_dom [OF N(6)] by fastforce+
  have "tree_at (nodes T') (Nd i' (own_nd (rid T) nd) l r)"
    using c fr N by simp
  moreover have "nodes T' j = nodes T j" if "nodes T j \<noteq> None" "j \<notin> idset (Nd i nd l r)" for j
    using that c(4,5) by auto
  ultimately have "path_spec k T (Nd i nd l r) [] (Nd i' (own_nd (rid T) nd) l r)
      (Nd i' (own_nd (rid T) nd) l r) T'"
    using c(2,5) by (auto simp: path_spec_def owned_frames_def search_ok_def)
  then show thesis using that c(1) by blast
qed

lemma delete_recursive_hit:
  fixes T :: "('k::linorder, 'v) ptree"
  assumes "wft T" and "tree_at (nodes T) t" and "skeys (inorder t)" and "k \<in> fst ` set (inorder t)"
  shows "\<exists>i nd l r cs T'.
    delete_recursive T path k (tid t) =
      Some (Some (tid (plug cs (Nd i nd l r))), path @ i # map fid cs, T') \<and>
    path_spec k T t cs (Nd i nd l r) (Nd i nd l r) T' \<and> nd_key nd = k \<and> nd_rid nd = rid T"
  using assms
proof (induction t arbitrary: path)
  case (Nd i nd l r)
  show ?case
  proof (cases "k = nd_key nd")
    case True
    obtain i' T' where c: "own_copy i T = Some (i', T')"
      "path_spec k T (Nd i nd l r) [] (Nd i' (own_nd (rid T) nd) l r) (Nd i' (own_nd (rid T) nd) l r) T'"
      by (rule path_spec_here [OF Nd.prems(1-3)])
    then have "delete_recursive T path k (tid (Nd i nd l r)) = Some (Some i', path @ [i'], T')"
      using Nd.prems(2) True by (subst delete_recursive.simps) simp
    with c(2) True show ?thesis
      by (intro exI [of _ i'] exI [of _ "own_nd (rid T) nd"] exI [of _ l] exI [of _ r] exI [of _ "[]"]
          exI [of _ T']) simp
  next
    case False
    define d where "d = (if k < nd_key nd then DL else DR)"
    have k: "if d = DL then k < nd_key nd else nd_key nd < k" using False by (auto simp: d_def)
    let ?u = "if d = DL then l else r"
    have u: "skeys (inorder ?u)" "tree_at (nodes T) ?u"
      using Nd.prems by (auto simp: sorted_wrt_append)
    have "k < nd_key nd \<Longrightarrow> k \<in> fst ` set (inorder l)"
      "nd_key nd < k \<Longrightarrow> k \<in> fst ` set (inorder r)"
      using Nd.prems(3,4) by (force simp: sorted_wrt_append)+
    then have "k \<in> fst ` set (inorder ?u)" using k by auto
    with u have "\<exists>i nd l r cs T'. delete_recursive T path k (tid ?u) =
        Some (Some (tid (plug cs (Nd i nd l r))), path @ i # map fid cs, T') \<and>
      path_spec k T ?u cs (Nd i nd l r) (Nd i nd l r) T' \<and> nd_key nd = k \<and> nd_rid nd = rid T"
      using Nd.IH [OF Nd.prems(1), of path] by (cases "d = DL") simp_all
    then obtain j jd jl jr cs T1 where R: "delete_recursive T path k (tid ?u) =
        Some (Some (tid (plug cs (Nd j jd jl jr))), path @ j # map fid cs, T1)"
      and P: "path_spec k T ?u cs (Nd j jd jl jr) (Nd j jd jl jr) T1"
      and J: "nd_key jd = k" "nd_rid jd = rid T" by blast
    obtain i' T2 T3 f where S: "own_copy i T1 = Some (i', T2)"
      "set_ref d i' (tid (plug cs (Nd j jd jl jr))) T2 = Some T3" "fid f = i'"
      "tid (plug (cs @ [f]) (Nd j jd jl jr)) = i'"
      "path_spec k T (Nd i nd l r) (cs @ [f]) (Nd j jd jl jr) (Nd j jd jl jr) T3"
      using path_spec_step [OF Nd.prems(1,2,3) k P] by blast
    have "delete_recursive T path k (tid (Nd i nd l r)) =
        Some (Some i', path @ j # map fid (cs @ [f]), T3)"
      using R S(1-3) Nd.prems(2) k
      by (cases "k < nd_key nd") (simp_all add: delete_recursive.simps [of T path k i] d_def)
    with S(4,5) J show ?thesis by metis
  qed
qed simp

section \<open>Unlinking\<close>

lemma transplant_zip:
  fixes T :: "('k::linorder, 'v) ptree"
  assumes wf: "wft T" and x: "tree_at (nodes T) (plug cs x)" "x \<noteq> Lf" and dist: "dist (plug cs x)"
    and y: "tree_at (nodes T) y" "idset y \<inter> cidset cs = {}"
    and own: "owned_frames (rid T) cs" and rt: "rt = tid (plug cs x)"
  shows "\<exists>p T'. transplant (hd (map fid cs @ [Nil_id])) (tid x) (tid y) rt T =
      Some (tid (plug (retarget p cs) y), T') \<and>
    cow T T' \<and> tree_at (nodes T') (plug (retarget p cs) y) \<and>
    (\<forall>j. j \<notin> cidset cs \<longrightarrow> nodes T' j = nodes T j)"
proof (cases cs)
  case Nil
  then show ?thesis using assms by (simp add: transplant_def)
next
  case (Cons f cs0)
  obtain d q qd s where f: "f = (d, q, qd, s)" by (cases f)
  let ?p = "(child d qd)\<lparr>np_ref := Some (tid y)\<rparr>"
  let ?T = "put_node q (set_child d ?p qd) T"
  have Q: "nodes T q = Some qd" "q \<noteq> 0" "nd_rid qd = rid T" "\<not> nd_read_only qd"
    "np_ref (child d qd) = Some (tid x)" "np_ref (child (opp d) qd) = Some (tid s)"
    using x own Cons f by (auto simp: owned_frames_def)
  have "tid s \<noteq> tid x"
    using dist x tid_in_idset [of s] tid_in_idset [of x] tid_zero_iff [of "nodes T" x] Cons f
    by (cases "s = Lf") auto
  then have "transplant (hd (map fid cs @ [Nil_id])) (tid x) (tid y) rt T = Some (rt, ?T)"
    using Q Cons f by (cases d) (simp_all add: transplant_def heap_simps)
  moreover have "rt = tid (plug (retarget ?p cs) y)" using rt Cons f by (simp add: tid_plug)
  moreover have "cow T ?T" using Q by (intro cow_intros) (auto intro: ownsI)
  moreover have "tree_at (nodes ?T) (plug (retarget ?p cs) y)"
    using x y dist Cons f by auto
  ultimately show ?thesis using Cons f by (intro exI [of _ ?p] exI [of _ ?T]) simp
qed

lemma build_min_path_zip:
  fixes T :: "('k::linorder, 'v) ptree"
  assumes "wft T" and "tree_at (nodes T) (plug cs (Nd n nd l r))"
    and "skeys (inorder (plug cs (Nd n nd l r)))" and "nd_rid nd = rid T"
  shows "\<exists>csm m md mr T'. build_min_path n path T = Some (m, map fid csm @ path, T') \<and> cow T T' \<and>
    tree_at (nodes T') (plug (csm @ cs) (Nd m md Lf mr)) \<and> nd_rid md = rid T \<and>
    owned_frames (rid T) csm \<and> lefts csm = [] \<and> same_tree (plug csm (Nd m md Lf mr)) (Nd n nd l r)"
  using assms
proof (induction l arbitrary: T cs n nd r path)
  case Lf
  then have "build_min_path n path T = Some (n, path, T)"
    by (simp add: build_min_path.simps [of n path T] heap_simps)
  with Lf show ?case
    by (intro exI [of _ "[]"] exI [of _ n] exI [of _ nd] exI [of _ r] exI [of _ T])
      (simp add: owned_frames_def)
next
  case (Nd i ind ll lr)
  obtain i' T1 where oc: "own_child DL n T = Some T1" "cow T T1"
    "tree_at (nodes T1) (plug cs (mk DL n (redirect DL i' nd) (mk DL i' (own_nd (rid T) ind) ll lr) r))"
    by (rule own_child_zip [of T cs DL n nd DL i ind ll lr r]) (use Nd.prems in \<open>simp_all only: mk.simps\<close>)
  let ?f = "(DL, n, redirect DL i' nd, r)"
  have W: "wft T1" "rid T1 = rid T" using cow_wf cow_members oc(2) Nd.prems(1) by blast+
  have t1: "tree_at (nodes T1) (plug (?f # cs) (Nd i' (own_nd (rid T) ind) ll lr))"
    using oc(3) by simp
  have s1: "skeys (inorder (plug (?f # cs) (Nd i' (own_nd (rid T) ind) ll lr)))"
    using Nd.prems(3) by simp
  obtain csm m md mr T' where M:
    "build_min_path i' (n # path) T1 = Some (m, map fid csm @ n # path, T')" "cow T1 T'"
    "tree_at (nodes T') (plug (csm @ ?f # cs) (Nd m md Lf mr))" "nd_rid md = rid T"
    "owned_frames (rid T) csm" "lefts csm = []"
    "same_tree (plug csm (Nd m md Lf mr)) (Nd i' (own_nd (rid T) ind) ll lr)"
    using Nd.IH(1) [OF W(1) t1 s1, of "n # path"] W(2) by auto
  have "nodes T n = Some nd" "np_ref (nd_left nd) = Some i" "i \<noteq> 0" using Nd.prems(2) by auto
  moreover have "child_ref DL n T1 = Some i'" using oc(3) by (simp add: heap_simps)
  ultimately have "build_min_path n path T = Some (m, map fid (csm @ [?f]) @ path, T')"
    using oc(1) M(1) by (simp add: build_min_path.simps [of n path T] heap_simps)
  moreover have "cow T T'" using oc(2) M(2) by (rule rtranclp_trans)
  moreover have "owned_frames (rid T) (csm @ [?f])"
    using M(5) Nd.prems wf_writable [OF Nd.prems(1), of n nd] by simp
  moreover have "lefts (csm @ [?f]) = []" using M(6) by (simp add: lefts_append)
  moreover have "same_tree (plug (csm @ [?f]) (Nd m md Lf mr)) (Nd n nd (Nd i ind ll lr) r)"
  proof (rule same_tree_snoc)
    show "same_tree (plug csm (Nd m md Lf mr)) (if DL = DL then Nd i ind ll lr else r)"
      using M(7) by (cases "plug csm (Nd m md Lf mr)") simp_all
  qed simp_all
  ultimately show ?case using M(3,4)
    by (intro exI [of _ "csm @ [?f]"] exI [of _ m] exI [of _ md] exI [of _ mr] exI [of _ T']) simp
qed

section \<open>The balancing loop\<close>

fun kids_ok :: "('k, 'v) ntree \<Rightarrow> bool" where
  "kids_ok Lf = True"
| "kids_ok (Nd i nd l r) \<longleftrightarrow> invc l \<and> invc r"

lemma kids_ok_mk [simp]: "kids_ok (mk d i nd a b) \<longleftrightarrow> invc a \<and> invc b"
  by (cases d) auto

lemma kids_ok_black: "kids_ok t \<Longrightarrow> \<not> is_red t \<Longrightarrow> invc t"
  by (cases t) auto

lemma invc_kids_ok: "invc t \<Longrightarrow> kids_ok t"
  by (cases t) auto

text \<open>The loop invariant: \<open>t\<close> is the subtree that is one black node short.\<close>

definition del_inv :: "('k::linorder, 'v) ptree \<Rightarrow> ('k, 'v) frame list \<Rightarrow> ('k, 'v) ntree \<Rightarrow> bool" where
  "del_inv T cs t \<longleftrightarrow>
     wft T \<and> tree_at (nodes T) (plug cs t) \<and> skeys (inorder (plug cs t)) \<and>
     owned_frames (rid T) cs \<and> kids_ok t \<and> cinvc cs \<and>
     (\<exists>n. hb t n \<and> chb cs (Suc n)) \<and> (cs \<noteq> [] \<longrightarrow> \<not> top_red [last cs])"

text \<open>What the loop delivers: painting the root of \<open>t\<close> black makes the tree red-black.\<close>

definition del_done :: "('k::linorder, 'v) ptree \<Rightarrow> ('k, 'v) frame list \<Rightarrow> ('k, 'v) ntree \<Rightarrow> bool" where
  "del_done T cs t \<longleftrightarrow>
     wft T \<and> tree_at (nodes T) (plug cs t) \<and> skeys (inorder (plug cs t)) \<and>
     owned_frames (rid T) cs \<and> kids_ok t \<and> cinvc cs \<and>
     (cs = [] \<and> (\<exists>n. hb t n) \<or> is_red t \<and> (\<exists>n. hb t n \<and> chb cs (Suc n))) \<and>
     (cs \<noteq> [] \<longrightarrow> \<not> top_red [last cs])"

lemma far_red:
  fixes T :: "('k::linorder, 'v) ptree"
  assumes inv: "del_inv T ((d, p, pd, mk d b bd y z) # cs) t"
    and col: "\<not> is_red t" "\<not> nd_red bd" "is_red z"
    and rt: "rt = tid (plug ((d, p, pd, mk d b bd y z) # cs) t)"
  shows "\<exists>T' t'. remove_far_red d b p (map fid cs @ [Nil_id]) rt T = Some (tid t', T') \<and>
    cow T T' \<and> del_done T' [] t' \<and>
    inorder t' = inorder (plug ((d, p, pd, mk d b bd y z) # cs) t)"
proof -
  have wf: "wft T" and own: "nd_rid pd = rid T" "\<not> nd_read_only pd" "owned_frames (rid T) cs"
    using inv by (simp_all add: del_inv_def owned_frames_def)
  have tree: "tree_at (nodes T) (plug cs (mk d p pd t (mk d b bd y z)))"
    and srt: "skeys (inorder (plug cs (mk d p pd t (mk d b bd y z))))"
    using inv by (simp_all only: del_inv_def plug.simps)
  obtain b' T1 where ob: "own_brother d p b T = Some (b', T1)" "cow T T1"
    "tree_at (nodes T1) (plug cs (mk d p (redirect (opp d) b' pd) t (mk d b' (own_nd (rid T) bd) y z)))"
    by (rule own_brother_zip [OF wf tree srt own(1)])
  let ?pd = "redirect (opp d) b' pd" and ?bd = "own_nd (rid T) bd"
  obtain zi zd zl zr where z: "z = mk DL zi zd zl zr" using col by (cases z) auto
  have W1: "wft T1" "rid T1 = rid T" using cow_wf cow_members ob(2) wf by blast+
  have e1: "inorder (plug cs (mk d p ?pd t (mk d b' ?bd y z))) =
      inorder (plug cs (mk d p pd t (mk d b bd y z)))"
    by (simp add: inorder_mk split: dir.splits)
  obtain z' T2 where oc: "own_child (opp d) b' T1 = Some T2" "cow T1 T2"
    "tree_at (nodes T2) (plug ((opp d, p, ?pd, t) # cs) (mk (opp d) b' (redirect (opp d) z' ?bd)
       (mk DL z' (own_nd (rid T1) zd) zl zr) y))"
    by (rule own_child_zip [of T1 "(opp d, p, ?pd, t) # cs" "opp d" b' ?bd DL zi zd zl zr y])
      (use W1 ob(3) srt e1 in \<open>simp_all only: plug.simps mk_opp z own_nd_fields\<close>)
  let ?bd2 = "redirect (opp d) z' ?bd" and ?zd = "own_nd (rid T) zd"
  have W2: "wft T2" "rid T2 = rid T" using cow_wf cow_members oc(2) W1 by metis+
  have t2: "tree_at (nodes T2) (plug cs (mk d p ?pd t (mk d b' ?bd2 y (mk DL z' ?zd zl zr))))"
    using oc(3) by (simp only: plug.simps mk_opp W1)
  have e2: "inorder (plug cs (mk d p ?pd t (mk d b' ?bd2 y (mk DL z' ?zd zl zr)))) =
      inorder (plug cs (mk d p pd t (mk d b bd y z)))"
    by (simp add: inorder_mk z split: dir.splits)
  have d2: "dist (plug cs (mk d p ?pd t (mk d b' ?bd2 y (mk DL z' ?zd zl zr))))"
    using t2 by (rule skeys_dist) (simp only: e2 srt)
  have N: "nodes T2 p = Some ?pd" "nodes T2 b' = Some ?bd2" "nodes T2 z' = Some ?zd"
    "p \<noteq> b'" "p \<noteq> z'" "b' \<noteq> z'" "np_ref (child (opp d) ?bd2) = Some z'"
    using t2 d2 by auto
  let ?T3 = "put_node z' (?zd\<lparr>nd_red := False\<rparr>) (put_node p (?pd\<lparr>nd_red := False\<rparr>)
     (put_node b' (?bd2\<lparr>nd_red := nd_red pd\<rparr>) T2))"
  let ?z = "mk DL z' (?zd\<lparr>nd_red := False\<rparr>) zl zr"
  let ?t3 = "plug cs (mk d p (?pd\<lparr>nd_red := False\<rparr>) t (mk d b' (?bd2\<lparr>nd_red := nd_red pd\<rparr>) y ?z))"
  have c3: "cow T ?T3"
    using rtranclp_trans [OF ob(2) oc(2)] N own W2 by (intro cow_intros) (auto simp: owns_def)
  have W3: "wft ?T3" using c3 wf by (rule cow_wf)
  have t3: "tree_at (nodes ?T3) ?t3" using t2 d2 N by auto
  have e3: "inorder ?t3 = inorder (plug cs (mk d p pd t (mk d b bd y z)))"
    by (simp add: inorder_mk z split: dir.splits)
  have s3: "skeys (inorder ?t3)" by (simp only: e3 srt)
  have rt3: "rt = tid ?t3" using rt by (simp add: tid_plug)
  obtain T4 q pd4 bd4 where r:
    "rotate_nodes (hd (map fid cs @ [Nil_id])) p d rt ?T3 =
       Some (b', tid (plug (retarget q cs) (mk d b' bd4 (mk d p pd4 t y) ?z)), T4)"
    "cow ?T3 T4" "tree_at (nodes T4) (plug (retarget q cs) (mk d b' bd4 (mk d p pd4 t y) ?z))"
    "recol (nd_red (?pd\<lparr>nd_red := False\<rparr>)) (?pd\<lparr>nd_red := False\<rparr>) pd4"
    "recol (nd_red (?bd2\<lparr>nd_red := nd_red pd\<rparr>)) (?bd2\<lparr>nd_red := nd_red pd\<rparr>) bd4"
    by (rule rotate_zip' [OF W3 t3 s3 _ _ _ rt3 refl]) (use own W2 in simp_all)
  let ?t4 = "plug (retarget q cs) (mk d b' bd4 (mk d p pd4 t y) ?z)"
  obtain f fs where f: "map fid cs @ [Nil_id] = f # fs" by (cases "map fid cs @ [Nil_id]") auto
  have run: "remove_far_red d b p (map fid cs @ [Nil_id]) rt T = Some (tid ?t4, T4)"
    using ob(1) oc(1) N r(1) own f by (simp add: remove_far_red_def heap_simps)
  have e4: "inorder ?t4 = inorder (plug cs (mk d p pd t (mk d b bd y z)))"
    using r(4,5) by (simp add: inorder_mk z recol_def split: dir.splits)
  obtain n where h: "hb t n" "hb y n" "hb z n" "chb cs (if nd_red pd then Suc n else Suc (Suc n))"
    using inv col by (auto simp: del_inv_def)
  have "\<exists>m. hb ?t4 m"
    unfolding hb_plug using h r(4,5) col
    by (intro exI [of _ "if nd_red pd then Suc n else Suc (Suc n)"]) (simp add: recol_def z)
  moreover have "invc ?t4"
    using inv col r(4,5) kids_ok_black [of t] unfolding del_inv_def by (simp add: invc_plug recol_def z)
  moreover have c4: "cow T T4" using c3 r(2) by (rule rtranclp_trans)
  ultimately have "del_done T4 [] ?t4"
    unfolding del_done_def using r(3) srt e4 cow_wf [OF c4 wf] invc_kids_ok [of ?t4]
    by (simp del: inorder_plug add: owned_frames_def)
  then show ?thesis using run c4 e4 by (intro exI [of _ T4] exI [of _ ?t4]) simp
qed

lemma near_red:
  fixes T :: "('k::linorder, 'v) ptree"
  assumes inv: "del_inv T ((d, p, pd, mk d b bd (mk d yi yd y1 y2) z) # cs) t"
    and col: "\<not> nd_red bd" "nd_red yd" "\<not> is_red z"
    and rt: "rt = tid (plug ((d, p, pd, mk d b bd (mk d yi yd y1 y2) z) # cs) t)"
  shows "\<exists>T' pd' y' yd' b' bd'. remove_near_red d b p rt T = Some (y', rt, T') \<and> cow T T' \<and>
    del_inv T' ((d, p, pd', mk d y' yd' y1 (mk d b' bd' y2 z)) # cs) t \<and>
    \<not> nd_red yd' \<and> nd_red bd' \<and>
    inorder (plug ((d, p, pd', mk d y' yd' y1 (mk d b' bd' y2 z)) # cs) t) =
    inorder (plug ((d, p, pd, mk d b bd (mk d yi yd y1 y2) z) # cs) t)"
proof -
  let ?y = "mk d yi yd y1 y2"
  have wf: "wft T" and own: "nd_rid pd = rid T" "\<not> nd_read_only pd" "owned_frames (rid T) cs"
    using inv by (simp_all add: del_inv_def owned_frames_def)
  have tree: "tree_at (nodes T) (plug cs (mk d p pd t (mk d b bd ?y z)))"
    and srt: "skeys (inorder (plug cs (mk d p pd t (mk d b bd ?y z))))"
    using inv by (simp_all only: del_inv_def plug.simps)
  obtain b' T1 where ob: "own_brother d p b T = Some (b', T1)" "cow T T1"
    "tree_at (nodes T1) (plug cs (mk d p (redirect (opp d) b' pd) t (mk d b' (own_nd (rid T) bd) ?y z)))"
    by (rule own_brother_zip [OF wf tree srt own(1)])
  let ?pd = "redirect (opp d) b' pd" and ?bd = "own_nd (rid T) bd"
  have W1: "wft T1" "rid T1 = rid T" using cow_wf cow_members ob(2) wf by blast+
  have e1: "inorder (plug cs (mk d p ?pd t (mk d b' ?bd ?y z))) =
      inorder (plug cs (mk d p pd t (mk d b bd ?y z)))"
    by (simp add: inorder_mk split: dir.splits)
  obtain y' T2 where oc: "own_child d b' T1 = Some T2" "cow T1 T2"
    "tree_at (nodes T2) (plug ((opp d, p, ?pd, t) # cs) (mk d b' (redirect d y' ?bd)
       (mk d y' (own_nd (rid T1) yd) y1 y2) z))"
    by (rule own_child_zip [of T1 "(opp d, p, ?pd, t) # cs" d b' ?bd d yi yd y1 y2 z])
      (use W1 ob(3) srt e1 in \<open>simp_all only: plug.simps mk_opp own_nd_fields\<close>)
  let ?bd2 = "redirect d y' ?bd" and ?yd = "own_nd (rid T) yd"
  have W2: "wft T2" "rid T2 = rid T" using cow_wf cow_members oc(2) W1 by metis+
  let ?cs = "(opp d, p, ?pd, t) # cs"
  have t2: "tree_at (nodes T2) (plug ?cs (mk d b' ?bd2 (mk d y' ?yd y1 y2) z))"
    using oc(3) by (simp only: W1)
  have e2: "inorder (plug ?cs (mk d b' ?bd2 (mk d y' ?yd y1 y2) z)) =
      inorder (plug cs (mk d p pd t (mk d b bd ?y z)))"
    by (simp add: inorder_mk mk_opp split: dir.splits)
  have s2: "skeys (inorder (plug ?cs (mk d b' ?bd2 (mk d y' ?yd y1 y2) z)))" by (simp only: e2 srt)
  have o2: "owned_frames (rid T2) ?cs" using own W2 by (simp add: owned_frames_def)
  have ow: "nd_rid ?bd2 = rid T2" "nd_rid ?yd = rid T2" using W2 by simp_all
  have rt2: "rt = tid (plug ?cs (mk d b' ?bd2 (mk d y' ?yd y1 y2) z))" using rt by (simp add: tid_plug)
  obtain T3 T4 q bd' yd' where r:
    "swap_color b' y' T2 = Some T3"
    "rotate_nodes (hd (map fid ?cs @ [Nil_id])) b' (opp d) rt T3 =
       Some (y', tid (plug (retarget q ?cs) (mk d y' yd' y1 (mk d b' bd' y2 z))), T4)"
    "cow T2 T4" "tree_at (nodes T4) (plug (retarget q ?cs) (mk d y' yd' y1 (mk d b' bd' y2 z)))"
    "recol (nd_red ?yd) ?bd2 bd'" "recol (nd_red ?bd2) ?yd yd'"
    by (rule insert_outer [OF W2(1) t2 s2 ow o2 rt2])
  let ?pd' = "set_child (opp d) q ?pd"
  let ?t = "plug ((d, p, ?pd', mk d y' yd' y1 (mk d b' bd' y2 z)) # cs) t"
  have t4: "tree_at (nodes T4) ?t" using r(4) by (simp only: retarget.simps plug.simps mk_opp)
  have e4: "inorder ?t = inorder (plug cs (mk d p pd t (mk d b bd ?y z)))"
    using r(5,6) by (simp add: inorder_mk recol_def split: dir.splits)
  have ch: "child_ref d b' T2 = Some y'" using t2 by (simp add: heap_simps)
  have "tid (plug (retarget q ?cs) (mk d y' yd' y1 (mk d b' bd' y2 z))) = rt"
    using rt by (simp add: tid_plug)
  then have run: "remove_near_red d b p rt T = Some (y', rt, T4)"
    using ob(1) oc(1) ch r(1,2) by (simp add: remove_near_red_def)
  have c4: "cow T T4" using ob(2) oc(2) r(3) by (meson rtranclp_trans)
  have W4: "wft T4" "rid T4 = rid T" using cow_wf cow_members c4 wf by blast+
  obtain n where h: "hb t n" "hb y1 n" "hb y2 n" "hb z n"
    "chb cs (if nd_red pd then Suc n else Suc (Suc n))"
    using inv col by (auto simp: del_inv_def)
  have "\<exists>n. hb t n \<and> chb ((d, p, ?pd', mk d y' yd' y1 (mk d b' bd' y2 z)) # cs) (Suc n)"
    using h r(5,6) col by (intro exI [of _ n]) (auto simp: recol_def)
  moreover have "kids_ok t" "cinvc ((d, p, ?pd', mk d y' yd' y1 (mk d b' bd' y2 z)) # cs)"
    "\<not> top_red [last ((d, p, ?pd', mk d y' yd' y1 (mk d b' bd' y2 z)) # cs)]"
    using inv r(5,6) col by (auto simp: del_inv_def recol_def split: if_splits)
  moreover have "skeys (inorder ?t)" by (simp only: e4 srt)
  ultimately have "del_inv T4 ((d, p, ?pd', mk d y' yd' y1 (mk d b' bd' y2 z)) # cs) t"
    unfolding del_inv_def using W4 t4 own by (simp only: owned_frames_def) simp
  then show ?thesis
    using run c4 e4 r(5,6) col
    by (intro exI [of _ T4] exI [of _ ?pd'] exI [of _ y'] exI [of _ yd'] exI [of _ b'] exI [of _ bd'])
      (simp add: recol_def)
qed

lemma both_black:
  fixes T :: "('k::linorder, 'v) ptree"
  assumes inv: "del_inv T ((d, p, pd, mk d b bd y z) # cs) t"
    and col: "\<not> is_red t" "\<not> nd_red bd" "\<not> is_red y" "\<not> is_red z"
  shows "\<exists>b' T1 T' t'. own_brother d p b T = Some (b', T1) \<and> set_red b' True T1 = Some T' \<and> cow T T' \<and>
    del_inv T' cs t' \<and> tid t' = p \<and> is_red t' = nd_red pd \<and>
    inorder (plug cs t') = inorder (plug ((d, p, pd, mk d b bd y z) # cs) t)"
proof -
  have wf: "wft T" and own: "nd_rid pd = rid T" "\<not> nd_read_only pd" "owned_frames (rid T) cs"
    using inv by (simp_all add: del_inv_def owned_frames_def)
  have tree: "tree_at (nodes T) (plug cs (mk d p pd t (mk d b bd y z)))"
    and srt: "skeys (inorder (plug cs (mk d p pd t (mk d b bd y z))))"
    using inv by (simp_all only: del_inv_def plug.simps)
  obtain b' T1 where ob: "own_brother d p b T = Some (b', T1)" "cow T T1"
    "tree_at (nodes T1) (plug cs (mk d p (redirect (opp d) b' pd) t (mk d b' (own_nd (rid T) bd) y z)))"
    by (rule own_brother_zip [OF wf tree srt own(1)])
  let ?pd = "redirect (opp d) b' pd" and ?bd = "own_nd (rid T) bd"
  have e1: "inorder (plug cs (mk d p ?pd t (mk d b' ?bd y z))) =
      inorder (plug cs (mk d p pd t (mk d b bd y z)))"
    by (simp add: inorder_mk split: dir.splits)
  have d1: "dist (plug cs (mk d p ?pd t (mk d b' ?bd y z)))"
    using ob(3) by (rule skeys_dist) (simp only: e1 srt)
  have W1: "wft T1" "rid T1 = rid T" using cow_wf cow_members ob(2) wf by blast+
  have N: "nodes T1 b' = Some ?bd" "b' \<noteq> p" using ob(3) d1 by auto
  let ?T' = "put_node b' (?bd\<lparr>nd_red := True\<rparr>) T1"
  let ?t' = "mk d p ?pd t (mk d b' (?bd\<lparr>nd_red := True\<rparr>) y z)"
  have c: "cow T ?T'" using ob(2) N W1 by (intro cow_intros) (auto simp: owns_def)
  have e: "inorder (plug cs ?t') = inorder (plug cs (mk d p pd t (mk d b bd y z)))"
    by (simp add: inorder_mk split: dir.splits)
  obtain n where h: "hb t n" "hb y n" "hb z n" "chb cs (if nd_red pd then Suc n else Suc (Suc n))"
    using inv col by (auto simp: del_inv_def)
  then have "\<exists>n. hb ?t' n \<and> chb cs (Suc n)"
    using col by (intro exI [of _ "if nd_red pd then n else Suc n"]) (auto split: if_splits)
  moreover have "kids_ok ?t'" "cinvc cs" "cs \<noteq> [] \<longrightarrow> \<not> top_red [last cs]"
    using inv col kids_ok_black [of t] by (auto simp: del_inv_def)
  moreover have "tree_at (nodes ?T') (plug cs ?t')" using ob(3) d1 N by auto
  moreover have "wft ?T'" using c wf by (rule cow_wf)
  moreover have "skeys (inorder (plug cs ?t'))" by (simp only: e srt)
  ultimately have "del_inv ?T' cs ?t'"
    unfolding del_inv_def using own W1 by simp
  moreover have "set_red b' True T1 = Some ?T'" using N by (simp add: heap_simps)
  ultimately show ?thesis
    using ob(1) c e by (intro exI [of _ b'] exI [of _ T1] exI [of _ ?T'] exI [of _ ?t']) simp
qed

text \<open>With a black brother, one step of the loop either moves the extra black to the parent or ends the
  loop with a finished tree.\<close>

lemma black_brother:
  fixes T :: "('k::linorder, 'v) ptree"
  assumes inv: "del_inv T ((d, p, pd, s) # cs) t" and col: "\<not> is_red t" "\<not> is_red s"
    and rt: "rt = tid (plug ((d, p, pd, s) # cs) t)"
  shows "(\<exists>T' t'. remove_black_brother d (tid s) p (map fid cs @ [Nil_id]) rt T =
        Some (tid t', hd (map fid cs @ [Nil_id]), tl (map fid cs @ [Nil_id]), rt, T') \<and> cow T T' \<and>
      del_inv T' cs t' \<and> rt = tid (plug cs t') \<and> is_red t' = nd_red pd \<and>
      inorder (plug cs t') = inorder (plug ((d, p, pd, s) # cs) t)) \<or>
    (\<exists>T' t'. remove_black_brother d (tid s) p (map fid cs @ [Nil_id]) rt T =
        Some (tid t', Nil_id, map fid cs @ [Nil_id], tid t', T') \<and> cow T T' \<and>
      del_done T' [] t' \<and> inorder t' = inorder (plug ((d, p, pd, s) # cs) t))"
proof -
  have wf: "wft T" and tree: "tree_at (nodes T) (plug ((d, p, pd, s) # cs) t)"
    using inv by (simp_all only: del_inv_def)
  have "s \<noteq> Lf" using inv by (auto simp: del_inv_def)
  then obtain b bd y z where s: "s = mk d b bd y z" by (rule mk_cases)
  have C: "child_ref d b T = Some (tid y)" "child_ref (opp d) b T = Some (tid z)"
    "get_red (tid y) T = Some (is_red y)" "get_red (tid z) T = Some (is_red z)"
    using tree get_red_tree [OF wf, of y] get_red_tree [OF wf, of z] by (simp_all add: s heap_simps)
  obtain f fs where f: "map fid cs @ [Nil_id] = f # fs" by (cases "map fid cs @ [Nil_id]") auto
  consider "\<not> is_red y" "\<not> is_red z" | "is_red z" | "is_red y" "\<not> is_red z" by blast
  then show ?thesis
  proof cases
    case 1
    obtain b' T1 T' t' where B: "own_brother d p b T = Some (b', T1)" "set_red b' True T1 = Some T'"
      "cow T T'" "del_inv T' cs t'" "tid t' = p" "is_red t' = nd_red pd"
      "inorder (plug cs t') = inorder (plug ((d, p, pd, s) # cs) t)"
      using both_black [OF inv [unfolded s] col(1) _ 1] col(2) unfolding s by auto
    have "rt = tid (plug cs t')" using rt B(5) by (simp add: tid_plug)
    moreover have "remove_black_brother d (tid s) p (map fid cs @ [Nil_id]) rt T =
        Some (tid t', hd (map fid cs @ [Nil_id]), tl (map fid cs @ [Nil_id]), rt, T')"
      using C 1 B(1,2,5) f by (cases d) (simp_all add: remove_black_brother_def s)
    ultimately show ?thesis using B(3-7) by (intro disjI1 exI [of _ T'] exI [of _ t']) simp
  next
    case 2
    obtain T' t' where R: "remove_far_red d b p (map fid cs @ [Nil_id]) rt T = Some (tid t', T')"
      "cow T T'" "del_done T' [] t'" "inorder t' = inorder (plug ((d, p, pd, s) # cs) t)"
      using far_red [OF inv [unfolded s] col(1) _ 2 rt [unfolded s]] col(2) unfolding s by auto
    have "remove_black_brother d (tid s) p (map fid cs @ [Nil_id]) rt T =
        Some (tid t', Nil_id, map fid cs @ [Nil_id], tid t', T')"
      using C 2 R(1) by (cases d) (simp_all add: remove_black_brother_def s)
    then show ?thesis using R(2-4) by (intro disjI2 exI [of _ T'] exI [of _ t']) simp
  next
    case 3
    have "y \<noteq> Lf" using 3 by auto
    then obtain yi yd y1 y2 where y: "y = mk d yi yd y1 y2" by (rule mk_cases)
    obtain T1 pd' y' yd' b' bd' where N: "remove_near_red d b p rt T = Some (y', rt, T1)" "cow T T1"
      "del_inv T1 ((d, p, pd', mk d y' yd' y1 (mk d b' bd' y2 z)) # cs) t" "\<not> nd_red yd'" "nd_red bd'"
      "inorder (plug ((d, p, pd', mk d y' yd' y1 (mk d b' bd' y2 z)) # cs) t) =
       inorder (plug ((d, p, pd, s) # cs) t)"
      using near_red [OF inv [unfolded s y] _ _ 3(2) rt [unfolded s y]] col(2) 3(1) unfolding s y
      by auto
    have rt1: "rt = tid (plug ((d, p, pd', mk d y' yd' y1 (mk d b' bd' y2 z)) # cs) t)"
      using rt by (simp add: tid_plug)
    obtain T' t' where R: "remove_far_red d y' p (map fid cs @ [Nil_id]) rt T1 = Some (tid t', T')"
      "cow T1 T'" "del_done T' [] t'"
      "inorder t' = inorder (plug ((d, p, pd', mk d y' yd' y1 (mk d b' bd' y2 z)) # cs) t)"
      using far_red [OF N(3) col(1) N(4) _ rt1] N(5) by auto
    have "remove_black_brother d (tid s) p (map fid cs @ [Nil_id]) rt T =
        Some (tid t', Nil_id, map fid cs @ [Nil_id], tid t', T')"
      using C 3 N(1) R(1) by (cases d) (simp_all add: remove_black_brother_def s)
    then show ?thesis
      using R(2-4) N(2,6) by (intro disjI2 exI [of _ T'] exI [of _ t']) (auto intro: rtranclp_trans)
  qed
qed

text \<open>A red brother is rotated above the parent; the parent becomes red and the brother black.\<close>

lemma red_brother:
  fixes T :: "('k::linorder, 'v) ptree"
  assumes inv: "del_inv T ((d, p, pd, s) # cs) t" and col: "is_red s"
    and rt: "rt = tid (plug ((d, p, pd, s) # cs) t)"
  shows "\<exists>T' y z pd' b' bd' q. remove_red_brother d (tid s) p (map fid cs @ [Nil_id]) rt T =
      Some (tid y, map fid ((d, b', bd', z) # retarget q cs) @ [Nil_id],
        tid (plug ((d, p, pd', y) # (d, b', bd', z) # retarget q cs) t), T') \<and> cow T T' \<and>
    del_inv T' ((d, p, pd', y) # (d, b', bd', z) # retarget q cs) t \<and> \<not> is_red y \<and> nd_red pd' \<and>
    inorder (plug ((d, p, pd', y) # (d, b', bd', z) # retarget q cs) t) =
      inorder (plug ((d, p, pd, s) # cs) t)"
proof -
  have "s \<noteq> Lf" using col by auto
  then obtain b bd y z where s: "s = mk d b bd y z" by (rule mk_cases)
  have wf: "wft T" and own: "nd_rid pd = rid T" "\<not> nd_read_only pd" "owned_frames (rid T) cs"
    using inv by (simp_all add: del_inv_def owned_frames_def)
  have tree: "tree_at (nodes T) (plug cs (mk d p pd t (mk d b bd y z)))"
    and srt: "skeys (inorder (plug cs (mk d p pd t (mk d b bd y z))))"
    using inv by (simp_all only: del_inv_def plug.simps s)
  obtain b' T1 where ob: "own_brother d p b T = Some (b', T1)" "cow T T1"
    "tree_at (nodes T1) (plug cs (mk d p (redirect (opp d) b' pd) t (mk d b' (own_nd (rid T) bd) y z)))"
    by (rule own_brother_zip [OF wf tree srt own(1)])
  let ?pd = "redirect (opp d) b' pd" and ?bd = "own_nd (rid T) bd"
  have W1: "wft T1" "rid T1 = rid T" using cow_wf cow_members ob(2) wf by blast+
  have e1: "inorder (plug cs (mk d p ?pd t (mk d b' ?bd y z))) =
      inorder (plug cs (mk d p pd t (mk d b bd y z)))"
    by (simp add: inorder_mk split: dir.splits)
  have d1: "dist (plug cs (mk d p ?pd t (mk d b' ?bd y z)))"
    using ob(3) by (rule skeys_dist) (simp only: e1 srt)
  have N: "nodes T1 p = Some ?pd" "nodes T1 b' = Some ?bd" "b' \<noteq> p" using ob(3) d1 by auto
  let ?pd2 = "?pd\<lparr>nd_red := nd_red bd\<rparr>" and ?bd2 = "?bd\<lparr>nd_red := nd_red pd\<rparr>"
  let ?T2 = "put_node p ?pd2 (put_node b' ?bd2 T1)"
  let ?t2 = "plug cs (mk d p ?pd2 t (mk d b' ?bd2 y z))"
  have sw: "swap_color b' p T1 = Some ?T2" using N own by (simp add: heap_simps)
  have c2: "cow T ?T2" using ob(2) N own W1 by (intro cow_intros) (auto simp: owns_def)
  have W2: "wft ?T2" using c2 wf by (rule cow_wf)
  have t2: "tree_at (nodes ?T2) ?t2" using ob(3) d1 N by auto
  have e2: "inorder ?t2 = inorder (plug cs (mk d p pd t (mk d b bd y z)))"
    by (simp add: inorder_mk split: dir.splits)
  have s2: "skeys (inorder ?t2)" by (simp only: e2 srt)
  have rt2: "rt = tid ?t2" using rt by (simp add: tid_plug)
  obtain T3 q pd' bd' where r: "rotate_nodes (hd (map fid cs @ [Nil_id])) p d rt ?T2 =
      Some (b', tid (plug (retarget q cs) (mk d b' bd' (mk d p pd' t y) z)), T3)"
    "cow ?T2 T3" "tree_at (nodes T3) (plug (retarget q cs) (mk d b' bd' (mk d p pd' t y) z))"
    "recol (nd_red ?pd2) ?pd2 pd'" "recol (nd_red ?bd2) ?bd2 bd'"
    by (rule rotate_zip' [OF W2 t2 s2 _ _ _ rt2 refl]) (use own W1 in simp_all)
  let ?cs = "(d, p, pd', y) # (d, b', bd', z) # retarget q cs"
  have c3: "cow T T3" using c2 r(2) by (rule rtranclp_trans)
  have W3: "wft T3" "rid T3 = rid T" using cow_wf cow_members c3 wf by blast+
  obtain f fs where f: "map fid cs @ [Nil_id] = f # fs" by (cases "map fid cs @ [Nil_id]") auto
  have "child_ref (opp d) p T3 = Some (tid y)" using r(3) by (simp add: heap_simps)
  then have run: "remove_red_brother d (tid s) p (map fid cs @ [Nil_id]) rt T =
      Some (tid y, map fid ((d, b', bd', z) # retarget q cs) @ [Nil_id], tid (plug ?cs t), T3)"
    using ob(1) sw r(1) f by (simp add: remove_red_brother_def s)
  have e3: "inorder (plug ?cs t) = inorder (plug cs (mk d p pd t (mk d b bd y z)))"
    using r(4,5) by (simp add: inorder_mk recol_def split: dir.splits)
  have C: "\<not> nd_red pd" "\<not> is_red y" "\<not> is_red z" "nd_red bd" "invc y" "invc z" "cinvc cs" "kids_ok t"
    "cs \<noteq> [] \<longrightarrow> \<not> top_red [last cs]"
    using inv col by (auto simp: del_inv_def s)
  obtain n where h: "hb t n" "hb y (Suc n)" "hb z (Suc n)" "chb cs (Suc (Suc n))"
    using inv C by (auto simp: del_inv_def s)
  then have "\<exists>n. hb t n \<and> chb ?cs (Suc n)"
    using r(4,5) C by (intro exI [of _ n]) (simp add: recol_def)
  moreover have "cinvc ?cs" "\<not> top_red [last ?cs]"
    using C r(4,5) by (auto simp: recol_def)
  moreover have "owned_frames (rid T3) ?cs"
    using own r(4,5) W3 unfolding owned_frames_def [of _ ?cs]
    by (simp add: recol_def) (simp add: owned_frames_def [symmetric])
  moreover have "skeys (inorder (plug ?cs t))" by (simp only: e3 srt)
  moreover have "tree_at (nodes T3) (plug ?cs t)" using r(3) by (simp only: plug.simps)
  ultimately have "del_inv T3 ?cs t" unfolding del_inv_def using W3 C(8) by blast
  moreover have "nd_red pd'" using r(4) C by (simp add: recol_def)
  ultimately show ?thesis
    using run c3 e3 C(2) unfolding s by (intro exI conjI) (assumption | simp)+
qed

lemma del_inv_done:
  assumes "del_inv T cs t" and "cs = [] \<or> is_red t"
  shows "del_done T cs t"
  using assms unfolding del_inv_def del_done_def by blast

lemma delete_loop_exit:
  assumes "wft T" and "tree_at (nodes T) t" and "tid t = rt \<or> is_red t"
  shows "delete_loop (tid t) parent path rt T = Some (tid t, parent, rt, T)"
  using assms get_red_tree [OF assms(1,2)] by (subst delete_loop.simps) auto

lemma tid_plug_neq:
  assumes "tree_at N (plug cs t)" and "dist (plug cs t)" and "cs \<noteq> []"
  shows "tid (plug cs t) \<noteq> tid t"
proof -
  have "fid (last cs) \<in> cidset cs" using assms(3) by (rule fid_last_in_cidset)
  moreover have "tid t \<notin> cidset cs"
    using assms tid_in_idset [of t] zero_notin_cidset [of N cs] by (cases "t = Lf") auto
  ultimately show ?thesis using assms(3) by (auto simp: tid_plug)
qed

text \<open>One iteration: either the invariant holds for a shorter path, or the loop is over.\<close>

lemma mirror_remove_balance_ok:
  fixes T :: "('k::linorder, 'v) ptree"
  assumes inv: "del_inv T ((d, p, pd, s) # cs) t" and col: "\<not> is_red t"
  shows "\<exists>T' cs' t' path'.
    mirror_remove_balance d (tid t) p (map fid cs @ [Nil_id]) (tid (plug ((d, p, pd, s) # cs) t)) T =
      Some (tid t', hd (map fid cs' @ [Nil_id]), path', tid (plug cs' t'), T') \<and> cow T T' \<and>
    inorder (plug cs' t') = inorder (plug ((d, p, pd, s) # cs) t) \<and>
    (cs' = cs \<and> del_inv T' cs' t' \<and> path' = tl (map fid cs @ [Nil_id]) \<or>
     del_done T' cs' t' \<and> (cs' = [] \<or> is_red t'))"
proof -
  let ?path = "map fid cs @ [Nil_id]" and ?t = "plug ((d, p, pd, s) # cs) t"
  have wf: "wft T" and tree: "tree_at (nodes T) ?t" using inv by (simp_all only: del_inv_def)
  have br: "child_ref (opp d) p T = Some (tid s)" "get_red (tid s) T = Some (is_red s)"
    using tree get_red_tree [OF wf, of s] by (simp_all add: heap_simps)
  show ?thesis
  proof (cases "is_red s")
    case False
    then have mrb: "mirror_remove_balance d (tid t) p ?path (tid ?t) T =
        remove_black_brother d (tid s) p ?path (tid ?t) T"
      using br by (simp add: mirror_remove_balance_def)
    from black_brother [OF inv col False refl] show ?thesis
      unfolding mrb [symmetric]
    proof (elim disjE exE conjE, goal_cases)
      case (1 T' t')
      then show ?case by (intro exI [of _ T'] exI [of _ cs] exI [of _ t']) simp
    next
      case (2 T' t')
      then show ?case by (intro exI [of _ T'] exI [of _ "[]"] exI [of _ t'] exI [of _ ?path]) simp
    qed
  next
    case True
    from red_brother [OF inv True refl] obtain T1 y z pd' b' bd' q where R:
      "remove_red_brother d (tid s) p ?path (tid ?t) T =
        Some (tid y, map fid ((d, b', bd', z) # retarget q cs) @ [Nil_id],
          tid (plug ((d, p, pd', y) # (d, b', bd', z) # retarget q cs) t), T1)"
      "cow T T1" "del_inv T1 ((d, p, pd', y) # (d, b', bd', z) # retarget q cs) t" "\<not> is_red y"
      "nd_red pd'" "inorder (plug ((d, p, pd', y) # (d, b', bd', z) # retarget q cs) t) = inorder ?t"
      by blast
    let ?cs = "(d, b', bd', z) # retarget q cs"
    have mrb: "mirror_remove_balance d (tid t) p ?path (tid ?t) T =
        remove_black_brother d (tid y) p (map fid ?cs @ [Nil_id]) (tid (plug ((d, p, pd', y) # ?cs) t)) T1"
      using br R(1) True by (simp add: mirror_remove_balance_def)
    from black_brother [OF R(3) col R(4) refl] show ?thesis
      unfolding mrb [symmetric] R(6)
    proof (elim disjE exE conjE, goal_cases)
      case (1 T' t')
      then have "del_done T' ?cs t'" "is_red t'" using R(5) by (auto intro: del_inv_done)
      moreover have "cow T T'" using R(2) 1 by (auto intro: rtranclp_trans)
      ultimately show ?case using 1 by (intro exI [of _ T'] exI [of _ ?cs] exI [of _ t']) simp
    next
      case (2 T' t')
      moreover have "cow T T'" using R(2) 2 by (auto intro: rtranclp_trans)
      ultimately show ?case
        by (intro exI [of _ T'] exI [of _ "[]"] exI [of _ t'] exI [of _ "map fid ?cs @ [Nil_id]"]) simp
    qed
  qed
qed

lemma delete_loop_ok:
  fixes T :: "('k::linorder, 'v) ptree"
  assumes "del_inv T cs t"
  shows "\<exists>cs' t' T'. delete_loop (tid t) (hd (map fid cs @ [Nil_id])) (tl (map fid cs @ [Nil_id]))
      (tid (plug cs t)) T = Some (tid t', hd (map fid cs' @ [Nil_id]), tid (plug cs' t'), T') \<and>
    cow T T' \<and> del_done T' cs' t' \<and> inorder (plug cs' t') = inorder (plug cs t)"
  using assms
proof (induction "length cs" arbitrary: cs t T rule: less_induct)
  case less
  have wf: "wft T" and tree: "tree_at (nodes T) (plug cs t)"
    using less.prems by (simp_all only: del_inv_def)
  show ?case
  proof (cases "cs = [] \<or> is_red t")
    case True
    then have "tid t = tid (plug cs t) \<or> is_red t" by auto
    with tree have "delete_loop (tid t) (hd (map fid cs @ [Nil_id])) (tl (map fid cs @ [Nil_id]))
        (tid (plug cs t)) T = Some (tid t, hd (map fid cs @ [Nil_id]), tid (plug cs t), T)"
      by (intro delete_loop_exit wf) auto
    then show ?thesis using del_inv_done [OF less.prems True] by blast
  next
    case False
    then obtain d p pd s cs1 where cs: "cs = (d, p, pd, s) # cs1" "\<not> is_red t"
      by (cases cs rule: top_red.cases) auto
    note inv = less.prems [unfolded cs(1)]
    have dist: "dist (plug cs t)" using less.prems by (intro skeys_dist [OF tree]) (simp add: del_inv_def)
    have ext: "tid t \<noteq> tid (plug cs t)" "get_red (tid t) T = Some False"
      using tid_plug_neq [OF tree dist] get_red_tree [OF wf, of t] tree cs by auto
    have "s \<noteq> Lf" using inv by (auto simp: del_inv_def)
    then have "tid s \<noteq> tid t"
      using tree dist tid_in_idset [of s] tid_in_idset [of t] cs zero_notin_idset [of "nodes T" s]
      by (cases "t = Lf") auto
    then have dir: "\<exists>pl. child_ref DL p T = Some pl \<and> (if pl = tid t then DL else DR) = d"
      using tree by (cases d) (auto simp: cs heap_simps)
    let ?path = "map fid cs1 @ [Nil_id]" and ?rt = "tid (plug cs t)"
    have step: "delete_loop (tid t) p ?path ?rt T = do {
        (extra_black, parent, path, rt, T) \<leftarrow> mirror_remove_balance d (tid t) p ?path ?rt T;
        delete_loop extra_black parent path rt T }"
      using ext dir by (subst delete_loop.simps) auto
    obtain T1 cs' t1 path' where M: "mirror_remove_balance d (tid t) p ?path ?rt T =
        Some (tid t1, hd (map fid cs' @ [Nil_id]), path', tid (plug cs' t1), T1)" "cow T T1"
      "inorder (plug cs' t1) = inorder (plug cs t)"
      "cs' = cs1 \<and> del_inv T1 cs' t1 \<and> path' = tl ?path \<or>
       del_done T1 cs' t1 \<and> (cs' = [] \<or> is_red t1)"
      using mirror_remove_balance_ok [OF inv cs(2)] unfolding cs(1) by blast
    have "\<exists>cs2 t2 T2. delete_loop (tid t1) (hd (map fid cs' @ [Nil_id])) path' (tid (plug cs' t1)) T1 =
        Some (tid t2, hd (map fid cs2 @ [Nil_id]), tid (plug cs2 t2), T2) \<and>
      cow T1 T2 \<and> del_done T2 cs2 t2 \<and> inorder (plug cs2 t2) = inorder (plug cs' t1)"
    proof (cases "cs' = [] \<or> is_red t1")
      case True
      then have "del_done T1 cs' t1" using M(4) del_inv_done by blast
      moreover from True this have "delete_loop (tid t1) (hd (map fid cs' @ [Nil_id])) path'
          (tid (plug cs' t1)) T1 = Some (tid t1, hd (map fid cs' @ [Nil_id]), tid (plug cs' t1), T1)"
        by (intro delete_loop_exit) (auto simp: del_done_def)
      ultimately show ?thesis by blast
    qed (use M(4) less.hyps [of cs1 T1 t1] cs(1) in auto)
    then show ?thesis
      using step M(1-3) rtranclp_trans [OF M(2)] unfolding cs(1) by fastforce
  qed
qed

section \<open>Removing a node\<close>

text \<open>\<open>t\<close> is the finished tree in the heap of \<open>T'\<close>, reached from \<open>T\<close>, with the entries \<open>es\<close>.\<close>

definition finished ::
  "('k::linorder, 'v) ptree \<Rightarrow> ('k \<times> 'v) list \<Rightarrow> ('k, 'v) ptree \<Rightarrow> ('k, 'v) ntree \<Rightarrow> bool" where
  "finished T es T' t \<longleftrightarrow>
     cow T T' \<and> tree_at (nodes T') t \<and> rbt t \<and> inorder t = es \<and> (t = Lf \<or> owns T' (tid t))"

lemma rbt_paint:
  assumes "del_done T cs (Nd i nd l r)" and "\<not> nd_red nd'"
  shows "rbt (plug (retarget p cs) (Nd j nd' l r))"
proof -
  have "\<exists>n. hb (Nd j nd' l r) n \<and> chb (retarget p cs) n"
  proof (cases "cs = []")
    case True
    then obtain n where "hb (Nd i nd l r) n" using assms(1) by (auto simp: del_done_def)
    then have "hb (Nd j nd' l r) n \<or> hb (Nd j nd' l r) (Suc n)"
      using assms(2) by (auto split: if_splits nat.splits)
    then show ?thesis using True by auto
  next
    case False
    then obtain n where "nd_red nd" "hb (Nd i nd l r) n" "chb cs (Suc n)"
      using assms(1) by (auto simp: del_done_def)
    then show ?thesis using assms(2) by (intro exI [of _ "Suc n"]) simp
  qed
  then have "\<exists>n. hb (plug (retarget p cs) (Nd j nd' l r)) n" by (simp only: hb_plug)
  then show ?thesis
    using assms by (auto simp: rbt_def invc_plug is_red_plug del_done_def)
qed

lemma own_copy_zip:
  fixes T :: "('k::linorder, 'v) ptree"
  assumes wf: "wft T" and tree: "tree_at (nodes T) (plug cs (Nd i nd l r))"
    and dist: "dist (plug cs (Nd i nd l r))"
  shows "\<exists>i' T'. own_copy i T = Some (i', T') \<and> cow T T' \<and> i' \<noteq> Nil_id \<and>
    tree_at (nodes T') (plug cs (Nd i nd l r)) \<and> tree_at (nodes T') (Nd i' (own_nd (rid T) nd) l r) \<and>
    i' \<notin> cidset cs \<and> i' \<notin> idset l \<and> i' \<notin> idset r"
proof -
  have N: "nodes T i = Some nd" "i \<noteq> 0" "np_ref (nd_left nd) = Some (tid l)"
    "np_ref (nd_right nd) = Some (tid r)"
    using tree by auto
  obtain i' T' where c: "own_copy i T = Some (i', T')" "cow T T'" "i' \<noteq> 0"
    "nodes T' = (nodes T)(i' \<mapsto> own_nd (rid T) nd)" "i' = i \<or> nodes T i' = None"
    by (rule own_copy_spec [OF wf N])
  have eq: "nodes T' i = nodes T i"
    using c(4) N(1) cow_foreign [OF c(2) wf N(1)] own_nd_same [OF _ wf_writable [OF wf N(1)]]
    by (cases "nd_rid nd = rid T") auto
  have fresh: "i' \<noteq> i \<Longrightarrow> i' \<notin> idset (plug cs (Nd i nd l r))"
    using c(5) tree_at_dom [OF tree, of i'] by auto
  have "nodes T' j = nodes T j" if "j \<in> idset (plug cs (Nd i nd l r))" for j
    using that fresh eq c(4) by (cases "j = i'"; cases "i' = i") auto
  then have "tree_at (nodes T') (plug cs (Nd i nd l r))"
    using tree tree_at_cong by blast
  moreover have "i' \<notin> cidset cs" "i' \<notin> idset l" "i' \<notin> idset r"
    using fresh dist by (cases "i' = i"; auto)+
  moreover from this have "tree_at (nodes T') (Nd i' (own_nd (rid T) nd) l r)"
    using tree c(3,4) by simp
  ultimately show ?thesis using c(1-3) by blast
qed

lemma balance_delete_ok:
  fixes T :: "('k::linorder, 'v) ptree"
  assumes inv: "del_inv T cs t"
  shows "\<exists>T' t'. balance_delete (tid t) (map fid cs @ [Nil_id]) (tid (plug cs t)) T = Some (tid t', T') \<and>
    finished T (inorder (plug cs t)) T' t'"
proof -
  obtain f fs where f: "map fid cs @ [Nil_id] = f # fs" by (cases "map fid cs @ [Nil_id]") auto
  obtain cs1 t1 T1 where L: "delete_loop (tid t) f fs (tid (plug cs t)) T =
      Some (tid t1, hd (map fid cs1 @ [Nil_id]), tid (plug cs1 t1), T1)"
    "cow T T1" "del_done T1 cs1 t1" "inorder (plug cs1 t1) = inorder (plug cs t)"
    using delete_loop_ok [OF inv] unfolding f by auto
  have D: "wft T1" "tree_at (nodes T1) (plug cs1 t1)" "skeys (inorder (plug cs1 t1))"
    "owned_frames (rid T1) cs1" using L(3) by (simp_all only: del_done_def)
  show ?thesis
  proof (cases t1)
    case Lf
    then have "cs1 = []" using L(3) by (auto simp: del_done_def)
    moreover have "own_copy Nil_id T1 = Some (Nil_id, push_fresh Nil_id T1)"
      using get_rid_nil [OF D(1)] by (auto simp: own_copy_def fresh_copy_def Copy_node_def)
    ultimately have "balance_delete (tid t) (map fid cs @ [Nil_id]) (tid (plug cs t)) T =
        Some (tid Lf, push_fresh Nil_id T1)"
      using L(1) Lf by (simp add: balance_delete_def f transplant_def)
    moreover have "cow T (push_fresh Nil_id T1)"
      using L(2) cow_step.nil_fresh by (rule rtranclp.rtrancl_into_rtrancl)
    ultimately show ?thesis
      using L(4) Lf \<open>cs1 = []\<close>
      by (intro exI [of _ "push_fresh Nil_id T1"] exI [of _ Lf]) (simp add: finished_def rbt_def)
  next
    case (Nd i nd l r)
    have dist: "dist (plug cs1 t1)" using D(2,3) by (rule skeys_dist)
    obtain i' T2 where c: "own_copy i T1 = Some (i', T2)" "cow T1 T2" "i' \<noteq> 0"
      and t2: "tree_at (nodes T2) (plug cs1 t1)" "tree_at (nodes T2) (Nd i' (own_nd (rid T1) nd) l r)"
        "i' \<notin> cidset cs1" "i' \<notin> idset l" "i' \<notin> idset r"
      using own_copy_zip [OF D(1) D(2) [unfolded Nd] dist [unfolded Nd]] unfolding Nd by blast
    have W2: "wft T2" "rid T2 = rid T1" using cow_wf cow_members c(2) D(1) by metis+
    have "idset (Nd i' (own_nd (rid T1) nd) l r) \<inter> cidset cs1 = {}"
      using dist Nd t2(3) by auto
    moreover have "t1 \<noteq> Lf" "owned_frames (rid T2) cs1" using Nd D(4) W2(2) by simp_all
    ultimately obtain p T3 where tp: "transplant (hd (map fid cs1 @ [Nil_id])) (tid t1)
        (tid (Nd i' (own_nd (rid T1) nd) l r)) (tid (plug cs1 t1)) T2 =
        Some (tid (plug (retarget p cs1) (Nd i' (own_nd (rid T1) nd) l r)), T3)"
      "cow T2 T3" "tree_at (nodes T3) (plug (retarget p cs1) (Nd i' (own_nd (rid T1) nd) l r))"
      using transplant_zip [OF W2(1) t2(1) _ dist t2(2) _ _ refl] by blast
    have W3: "wft T3" "rid T3 = rid T1" using cow_wf cow_members tp(2) W2 by metis+
    let ?nd = "(own_nd (rid T1) nd)\<lparr>nd_red := False\<rparr>"
    let ?T4 = "put_node i' ?nd T3" and ?t4 = "plug (retarget p cs1) (Nd i' ?nd l r)"
    have c4: "cow T ?T4"
      using L(2) c(2) tp(2,3) W3 by (intro cow_intros) (auto simp: owns_def intro: rtranclp_trans)
    have t4: "tree_at (nodes ?T4) ?t4" using tp(3) t2(3-5) by auto
    have "rid T1 = rid T" using cow_members [OF L(2)] by simp
    then have "owns ?T4 (tid ?t4)"
      using D(4) W3 t4 by (intro owns_root) (auto simp: owns_def)
    moreover have "tid ?t4 = tid (plug (retarget p cs1) (Nd i' (own_nd (rid T1) nd) l r))"
      by (simp add: tid_plug)
    moreover have "set_red i' False T3 = Some ?T4" using tp(3) by (simp add: heap_simps)
    ultimately show ?thesis
      using L(1,4) c(1,3) tp(1) c4 t4 rbt_paint [OF L(3) [unfolded Nd], of ?nd p i'] Nd
      by (intro exI [of _ ?T4] exI [of _ ?t4]) (simp add: balance_delete_def f finished_def)
  qed
qed

text \<open>Unlinking a node with at most one child and repairing the balance.\<close>

lemma unlink_ok:
  fixes T :: "('k::linorder, 'v) ptree"
  assumes wf: "wft T" and tree: "tree_at (nodes T) (plug cs (mk d i nd Lf y))"
    and dist: "dist (plug cs (mk d i nd Lf y))" and srt: "skeys (lefts cs @ inorder y @ rights cs)"
    and own: "owned_frames (rid T) cs" and rb: "rbt (plug cs (mk d i nd Lf y))"
    and rt: "rt = tid (plug cs (mk d i nd Lf y))"
  shows "\<exists>rt1 T1 T' t'. transplant (hd (map fid cs @ [Nil_id])) i (tid y) rt T = Some (rt1, T1) \<and>
    get_red i T1 = Some (nd_red nd) \<and>
    (if \<not> nd_red nd then balance_delete (tid y) (map fid cs @ [Nil_id]) rt1 T1 else Some (rt1, T1)) =
      Some (tid t', T') \<and> finished T (lefts cs @ inorder y @ rights cs) T' t'"
proof -
  let ?x = "mk d i nd Lf y"
  have Y: "tree_at (nodes T) y" "idset y \<inter> cidset cs = {}" using tree dist by auto
  obtain p T1 where tp: "transplant (hd (map fid cs @ [Nil_id])) (tid ?x) (tid y) rt T =
      Some (tid (plug (retarget p cs) y), T1)" "cow T T1" "tree_at (nodes T1) (plug (retarget p cs) y)"
    "\<forall>j. j \<notin> cidset cs \<longrightarrow> nodes T1 j = nodes T j"
    using transplant_zip [OF wf tree mk_simps(4) dist Y own rt] by blast
  have W: "wft T1" "rid T1 = rid T" using cow_wf cow_members tp(2) wf by blast+
  have i: "get_red i T1 = Some (nd_red nd)" using tp(4) dist tree by (simp add: heap_simps)
  obtain n where h: "hb ?x n" "chb cs n" using rb hb_plug [of cs ?x] by (auto simp: rbt_def)
  have C: "invc y" "cinvc cs" "cs \<noteq> [] \<longrightarrow> \<not> top_red [last cs]" "nd_red nd \<longrightarrow> \<not> is_red y \<and> cs \<noteq> []"
    using rb by (auto simp: rbt_def invc_plug is_red_plug split: if_splits)
  show ?thesis
  proof (cases "nd_red nd")
    case True
    then have "hb y n" using h(1) by auto
    then have "\<exists>n. hb (plug (retarget p cs) y) n" unfolding hb_plug using h by auto
    then have "rbt (plug (retarget p cs) y)"
      using C True by (auto simp: rbt_def invc_plug is_red_plug)
    moreover have "owns T1 (tid (plug (retarget p cs) y))"
      using C True own W tp(3) by (intro owns_root) auto
    ultimately have "finished T (lefts cs @ inorder y @ rights cs) T1 (plug (retarget p cs) y)"
      using tp(2,3) by (simp add: finished_def)
    then show ?thesis using tp(1) i True by auto
  next
    case False
    then obtain m where "n = Suc m" "hb y m" using h by (cases n) auto
    then have "\<exists>m. hb y m \<and> chb (retarget p cs) (Suc m)" using h by auto
    then have "del_inv T1 (retarget p cs) y"
      unfolding del_inv_def using W tp(3) srt own C invc_kids_ok [of y] by simp
    from balance_delete_ok [OF this] obtain T' t' where
      "balance_delete (tid y) (map fid cs @ [Nil_id]) (tid (plug (retarget p cs) y)) T1 = Some (tid t', T')"
      "finished T1 (lefts cs @ inorder y @ rights cs) T' t'" by auto
    moreover from this(2) have "finished T (lefts cs @ inorder y @ rights cs) T' t'"
      using tp(2) unfolding finished_def by (auto intro: rtranclp_trans)
    ultimately show ?thesis using tp(1) i False by auto
  qed
qed

section \<open>Delete\<close>

lemma Delete_absent:
  assumes "denotes T t" and "k \<notin> fst ` set (inorder t)"
  shows "Delete k T = Some T"
  using assms delete_recursive_miss [of T t k "[]"] by (simp add: Delete_def denotes_def)

lemma rbt_plug_cong:
  assumes "same_tree r' r" and "nd_red nd' = nd_red nd"
  shows "rbt (plug cs (Nd i nd' l r')) = rbt (plug cs (Nd i nd l r))"
proof -
  have "hb (Nd i nd' l r') n = hb (Nd i nd l r) n" for n
    using assms by (simp add: same_tree_hb split: nat.splits)
  then show ?thesis
    using assms by (simp add: rbt_def invc_plug hb_plug is_red_plug same_tree_invc same_tree_is_red
        del: hb.simps)
qed

text \<open>The node to remove has two children: the successor's payload moves into it and the successor is
  unlinked.\<close>

lemma successor_ok:
  fixes T :: "('k::linorder, 'v) ptree"
  assumes wf: "wft T" and tree: "tree_at (nodes T) (plug cs (Nd i nd l r))" "r \<noteq> Lf"
    and srt: "skeys (inorder (plug cs (Nd i nd l r)))" and own: "owned_frames (rid T) cs"
    and ond: "nd_rid nd = rid T"
    and rb: "rbt (plug cs (Nd i nd l r))" and rt: "rt = tid (plug cs (Nd i nd l r))"
  shows "\<exists>T1 T2 T3 T4 T5 rd m path mr rt1 c t'. own_child DR i T = Some T1 \<and>
    child_ref DR i T1 = Some rd \<and>
    build_min_path rd (i # map fid cs @ [Nil_id]) T1 = Some (m, path, T2) \<and>
    child_ref DR m T2 = Some mr \<and> steal_payload i m T2 = Some T3 \<and>
    transplant (hd path) m mr rt T3 = Some (rt1, T4) \<and> path \<noteq> [] \<and> get_red m T4 = Some c \<and>
    (if \<not> c then balance_delete mr path rt1 T4 else Some (rt1, T4)) = Some (tid t', T5) \<and>
    finished T (lefts cs @ inorder l @ inorder r @ rights cs) T5 t'"
proof -
  obtain j jd jl jr where r: "r = Nd j jd jl jr" using tree(2) by (cases r) auto
  obtain j' T1 where oc: "own_child DR i T = Some T1" "cow T T1"
    "tree_at (nodes T1) (plug cs (mk DR i (redirect DR j' nd) (mk DL j' (own_nd (rid T) jd) jl jr) l))"
    by (rule own_child_zip [of T cs DR i nd DL j jd jl jr l])
      (use wf tree srt ond in \<open>simp_all only: mk.simps r\<close>)
  let ?nd = "redirect DR j' nd" and ?jd = "own_nd (rid T) jd"
  let ?f = "(DR, i, ?nd, l)"
  have W1: "wft T1" "rid T1 = rid T" using cow_wf cow_members oc(2) wf by blast+
  have s1: "skeys (inorder (plug (?f # cs) (Nd j' ?jd jl jr)))" using srt by (simp add: r)
  have t1: "tree_at (nodes T1) (plug (?f # cs) (Nd j' ?jd jl jr))" using oc(3) by simp
  obtain csm m md mr T2 where M:
    "build_min_path j' (i # map fid cs @ [Nil_id]) T1 = Some (m, map fid csm @ i # map fid cs @ [Nil_id], T2)"
    "cow T1 T2" "tree_at (nodes T2) (plug (csm @ ?f # cs) (Nd m md Lf mr))" "nd_rid md = rid T"
    "owned_frames (rid T) csm" "lefts csm = []"
    "same_tree (plug csm (Nd m md Lf mr)) (Nd j' ?jd jl jr)"
    using build_min_path_zip [OF W1(1) t1 s1, of "i # map fid cs @ [Nil_id]"] W1(2) by auto
  have W2: "wft T2" "rid T2 = rid T" using cow_wf cow_members M(2) W1 by metis+
  have ino: "inorder r = (nd_key md, nd_val md) # inorder mr @ rights csm"
    using same_tree_inorder [OF M(7)] M(6) by (simp add: r)
  have "inorder (plug (csm @ ?f # cs) (Nd m md Lf mr)) = inorder (plug cs (Nd i nd l r))"
    using M(6) by (simp add: plug_append ino)
  then have d2: "dist (plug (csm @ ?f # cs) (Nd m md Lf mr))"
    using M(3) srt by (intro skeys_dist [of "nodes T2"]) simp_all
  have N: "nodes T2 i = Some ?nd" "nodes T2 m = Some md" "i \<noteq> m" "i \<notin> cidset csm" "i \<notin> cidset cs"
    "i \<notin> idset l" "i \<notin> idset mr"
    using M(3) d2 by (auto simp: plug_append)
  have ro: "\<not> nd_read_only nd" "\<not> nd_read_only md"
    using wf_writable [OF W2(1) N(1)] wf_writable [OF W2(1) N(2)] ond M(4) W2(2) by auto
  let ?nd3 = "?nd\<lparr>nd_key := nd_key md, nd_val := nd_val md\<rparr>"
  let ?T3 = "put_node i ?nd3 T2" and ?cs = "csm @ (DR, i, ?nd3, l) # cs"
  have sp: "steal_payload i m T2 = Some ?T3" using N ro by (simp add: heap_simps)
  have c3: "cow T ?T3"
    using oc(2) M(2) N ro ond W2 by (intro cow_intros) (auto simp: owns_def intro: rtranclp_trans)
  have t3: "tree_at (nodes ?T3) (plug ?cs (mk DL m md Lf mr))"
    using M(3) N by (auto simp: plug_append)
  have d3: "dist (plug ?cs (mk DL m md Lf mr))" using d2 by (simp add: plug_append)
  have e3: "lefts ?cs @ inorder mr @ rights ?cs = lefts cs @ inorder l @ inorder r @ rights cs"
    using M(6) by (simp add: lefts_append rights_append ino)
  have s3: "skeys (lefts ?cs @ inorder mr @ rights ?cs)"
    unfolding e3 using srt by (simp add: sorted_wrt_append)
  have o3: "owned_frames (rid ?T3) ?cs"
    using own M(5) W2 ond ro by (auto simp: owned_frames_def)
  have "same_tree (plug csm (Nd m md Lf mr)) r" using M(7) by (cases "plug csm (Nd m md Lf mr)") (simp_all add: r)
  from rbt_plug_cong [OF this, of ?nd3 nd cs i l] rb
  have rb3: "rbt (plug ?cs (mk DL m md Lf mr))" by (simp add: plug_append)
  have rt3: "rt = tid (plug ?cs (mk DL m md Lf mr))" using rt by (simp add: tid_plug)
  have ch: "child_ref DR m T2 = Some (tid mr)" "child_ref DR i T1 = Some j'"
    using M(3) t1 by (simp_all add: heap_simps)
  from unlink_ok [OF cow_wf [OF c3 wf] t3 d3 s3 o3 rb3 rt3]
  obtain rt1 T4 T5 t' where U:
    "transplant (hd (map fid ?cs @ [Nil_id])) m (tid mr) rt ?T3 = Some (rt1, T4)"
    "get_red m T4 = Some (nd_red md)"
    "(if \<not> nd_red md then balance_delete (tid mr) (map fid ?cs @ [Nil_id]) rt1 T4 else Some (rt1, T4)) =
      Some (tid t', T5)" "finished ?T3 (lefts ?cs @ inorder mr @ rights ?cs) T5 t'" by blast
  have "finished T (lefts cs @ inorder l @ inorder r @ rights cs) T5 t'"
    using U(4) c3 unfolding finished_def e3 by (auto intro: rtranclp_trans)
  moreover have path: "map fid ?cs @ [Nil_id] = map fid csm @ i # map fid cs @ [Nil_id]" by simp
  ultimately show ?thesis
    using oc(1) M(1) ch sp U(1-3) [unfolded path] by (intro exI conjI) (assumption | simp)+
qed

lemma finished_denotes:
  assumes "denotes T t" and "cow T T1" and "finished T1 es T2 t2" and "skeys es"
  shows "cow T (T2\<lparr>root := Some (tid t2)\<rparr>)" and "denotes (T2\<lparr>root := Some (tid t2)\<rparr>) t2"
proof -
  have f: "cow T1 T2" "tree_at (nodes T2) t2" "rbt t2" "inorder t2 = es" "t2 = Lf \<or> owns T2 (tid t2)"
    using assms(3) by (simp_all add: finished_def)
  show c: "cow T (T2\<lparr>root := Some (tid t2)\<rparr>)"
    using assms(2) f(1) by (intro cow_set_root) (rule rtranclp_trans)
  have "wft T" using assms(1) by (simp add: denotes_def)
  from cow_wf [OF c this] show "denotes (T2\<lparr>root := Some (tid t2)\<rparr>) t2"
    using f assms(4) by (auto simp: denotes_def base_root_def owns_def)
qed

text \<open>The three ways to take the node out, on the path that the descent has copied.\<close>

lemma Delete_run:
  fixes T :: "('k::linorder, 'v) ptree"
  assumes wf: "wft T" and tree: "tree_at (nodes T) (plug cs (Nd i nd l r))"
    and srt: "skeys (inorder (plug cs (Nd i nd l r)))" and own: "owned_frames (rid T) cs"
    and ond: "nd_rid nd = rid T" and rb: "rbt (plug cs (Nd i nd l r))" and key: "nd_key nd = k"
    and rec: "base_root T0 = Some b" "delete_recursive T0 [] k b =
      Some (Some (tid (plug cs (Nd i nd l r))), i # map fid cs, T)"
  shows "\<exists>T' t'. Delete k T0 = Some (T'\<lparr>root := Some (tid t')\<rparr>) \<and>
    finished T (lefts cs @ inorder l @ inorder r @ rights cs) T' t'"
proof -
  let ?rt = "tid (plug cs (Nd i nd l r))"
  have N: "nodes T i = Some nd" "np_ref (nd_left nd) = Some (tid l)" "np_ref (nd_right nd) = Some (tid r)"
    "tid l = 0 \<longleftrightarrow> l = Lf" "tid r = 0 \<longleftrightarrow> r = Lf"
    using tree tid_zero_iff [of "nodes T"] by auto
  have dist: "dist (plug cs (Nd i nd l r))" using tree srt by (rule skeys_dist)
  have s: "skeys (lefts cs @ inorder l @ inorder r @ rights cs)"
    using srt by (simp add: sorted_wrt_append)
  obtain f fs where f: "map fid cs @ [Nil_id] = f # fs" by (cases "map fid cs @ [Nil_id]") auto
  consider "l = Lf" | "l \<noteq> Lf" "r = Lf" | "l \<noteq> Lf" "r \<noteq> Lf" by blast
  then show ?thesis
  proof cases
    case 1
    have "\<exists>rt1 T1 T' t'. transplant (hd (map fid cs @ [Nil_id])) i (tid r) ?rt T = Some (rt1, T1) \<and>
      get_red i T1 = Some (nd_red nd) \<and>
      (if \<not> nd_red nd then balance_delete (tid r) (map fid cs @ [Nil_id]) rt1 T1 else Some (rt1, T1)) =
        Some (tid t', T') \<and> finished T (lefts cs @ inorder r @ rights cs) T' t'"
      by (rule unlink_ok [of T cs DL i nd r]) (use wf tree dist s own rb 1 in simp_all)
    then show ?thesis
      using rec N key 1 f by (fastforce simp: Delete_def Let_def)
  next
    case 2
    have "\<exists>rt1 T1 T' t'. transplant (hd (map fid cs @ [Nil_id])) i (tid l) ?rt T = Some (rt1, T1) \<and>
      get_red i T1 = Some (nd_red nd) \<and>
      (if \<not> nd_red nd then balance_delete (tid l) (map fid cs @ [Nil_id]) rt1 T1 else Some (rt1, T1)) =
        Some (tid t', T') \<and> finished T (lefts cs @ inorder l @ rights cs) T' t'"
      by (rule unlink_ok [of T cs DR i nd l]) (use wf tree dist s own rb 2 in simp_all)
    then show ?thesis
      using rec N key 2 f by (fastforce simp: Delete_def Let_def)
  next
    case 3
    from successor_ok [OF wf tree 3(2) srt own ond rb refl]
    obtain T1 T2 T3 T4 T5 rd m path mr rt1 c t' where S: "own_child DR i T = Some T1"
      "child_ref DR i T1 = Some rd" "build_min_path rd (i # map fid cs @ [Nil_id]) T1 = Some (m, path, T2)"
      "child_ref DR m T2 = Some mr" "steal_payload i m T2 = Some T3"
      "transplant (hd path) m mr ?rt T3 = Some (rt1, T4)" "path \<noteq> []" "get_red m T4 = Some c"
      "(if \<not> c then balance_delete mr path rt1 T4 else Some (rt1, T4)) = Some (tid t', T5)"
      "finished T (lefts cs @ inorder l @ inorder r @ rights cs) T5 t'" by blast
    have "front path = Some (hd path)" using S(7) by (cases path) auto
    then have "Delete k T0 = Some (T5\<lparr>root := Some (tid t')\<rparr>)"
      using rec N key 3 S(1-9) by (simp add: Delete_def Let_def)
    then show ?thesis using S(10) by blast
  qed
qed

theorem Delete_present:
  assumes "denotes T t" and "k \<in> fst ` set (inorder t)"
  obtains T' t' where "Delete k T = Some T'" "cow T T'" "denotes T' t'" "root T' = Some (tid t')"
    "inorder t' = del_list k (inorder t)"
proof -
  have D: "wft T" "tree_at (nodes T) t" "skeys (inorder t)" "rbt t" "base_root T = Some (tid t)"
    using assms(1) by (simp_all add: denotes_def)
  from delete_recursive_hit [OF D(1-3) assms(2), of "[]"]
  obtain i nd l r cs T1 where R:
    "delete_recursive T [] k (tid t) = Some (Some (tid (plug cs (Nd i nd l r))), i # map fid cs, T1)"
    "path_spec k T t cs (Nd i nd l r) (Nd i nd l r) T1" "nd_key nd = k" "nd_rid nd = rid T" by auto
  have P: "cow T T1" "tree_at (nodes T1) (plug cs (Nd i nd l r))" "owned_frames (rid T) cs"
    "same_tree (plug cs (Nd i nd l r)) t" "search_ok k cs"
    using R(2) by (simp_all only: path_spec_def)
  have W: "wft T1" "rid T1 = rid T" using cow_wf cow_members P(1) D(1) by blast+
  have ino: "inorder t = lefts cs @ inorder l @ (k, nd_val nd) # inorder r @ rights cs"
    using same_tree_inorder [OF P(4)] R(3) by simp
  have del: "del_list k (inorder t) = lefts cs @ inorder l @ inorder r @ rights cs"
  proof -
    have "\<forall>p \<in> set (lefts cs @ inorder l). fst p < k" "\<forall>p \<in> set (inorder r @ rights cs). k < fst p"
      using D(3) by (auto simp: ino sorted_wrt_append)
    from del_list_hit [OF this, of "nd_val nd"] show ?thesis by (simp add: ino)
  qed
  have "\<exists>T' t'. Delete k T = Some (T'\<lparr>root := Some (tid t')\<rparr>) \<and>
      finished T1 (lefts cs @ inorder l @ inorder r @ rights cs) T' t'"
    by (rule Delete_run [OF W(1) P(2) _ _ _ _ R(3) D(5) R(1)])
      (use P D R W same_tree_rbt [OF P(4)] same_tree_inorder [OF P(4)] in simp_all)
  then obtain T' t' where F: "Delete k T = Some (T'\<lparr>root := Some (tid t')\<rparr>)"
    "finished T1 (del_list k (inorder t)) T' t'" unfolding del by blast
  have "skeys (del_list k (inorder t))" using D(3) by (rule skeys_del_list)
  note fin = finished_denotes [OF assms(1) P(1) F(2) this]
  have "inorder t' = del_list k (inorder t)" using F(2) unfolding finished_def by blast
  then show thesis by (intro that [OF F(1) fin]) simp_all
qed

end
