(* ===== verification/TreeMap.thy ===== *)
theory TreeMap
  imports TreeDelete
begin

text \<open>
  The tree as a map from keys to values. The locale \<open>versioned_map\<close> is the contract that the transaction
  and database code relies on: a lookup, an update and a removal that act on a finite map, keep an
  invariant, and leave the nodes of every other version alone. The tree code is an instance of it.
\<close>

section \<open>Lookup\<close>

lemma Get_loop_tree:
  assumes "tree_at (nodes T) t" and "skeys (inorder t)"
  shows "Get_loop k (tid t) T =
    Some (case map_of (inorder t) k of None \<Rightarrow> Inl ENOENT | Some v \<Rightarrow> Inr v)"
  using assms
proof (induction t)
  case Lf
  then show ?case by (simp add: Get_loop.simps [of k 0 T])
next
  case (Nd i nd l r)
  have sub: "skeys (inorder l)" "skeys (inorder r)" "\<forall>p \<in> set (inorder l). fst p < nd_key nd"
    "\<forall>p \<in> set (inorder r). nd_key nd < fst p"
    using Nd.prems(2) by (auto simp: sorted_wrt_append)
  have miss: "nd_key nd \<le> k \<Longrightarrow> map_of (inorder l) k = None" "k \<le> nd_key nd \<Longrightarrow> map_of (inorder r) k = None"
    using sub(3,4) by (auto simp: map_of_eq_None_iff)
  show ?case
    using Nd sub miss
    by (cases k "nd_key nd" rule: linorder_cases; subst Get_loop.simps)
      (auto simp: map_add_def split: option.splits)
qed

lemma Get_denotes:
  assumes "denotes T t"
  shows "Get k T = Some (case map_of (inorder t) k of None \<Rightarrow> Inl ENOENT | Some v \<Rightarrow> Inr v)"
  using assms Get_loop_tree [of T t k] by (simp add: Get_def denotes_def)

section \<open>Put and Delete on any key\<close>

lemma Put_denotes:
  assumes den: "denotes T t"
  obtains T' t' where "Put k v T = Some T'" "cow T T'" "denotes T' t'" "root T' = Some (tid t')"
    "inorder t' = put_list k v (inorder t)"
proof (cases "k \<in> fst ` set (inorder t)")
  case False
  then show thesis using that Put_new_key [OF den] by metis
next
  case True
  have T: "skeys (inorder t)" "tree_at (nodes T) t" "base_root T = Some (tid t)"
    using den by (simp_all add: denotes_def)
  obtain T1 t1 where D: "Delete k T = Some T1" "cow T T1" "denotes T1 t1" "root T1 = Some (tid t1)"
    "inorder t1 = del_list k (inorder t)"
    using Delete_present [OF den True] by metis
  have "k \<notin> fst ` set (inorder t1)" using D(5) by (auto simp: del_list_def)
  then obtain rt nn path parent rest rt' T2 T3 T4 t' where I:
    "insert_recursive T1 [] k v (tid t1) = Some (Some rt, path, T2)"
    "path @ [Nil_id] = nn # parent # rest"
    "insert_loop parent nn rest rt T2 = Some (rt', T3)" "set_red rt' False T3 = Some T4"
    "cow T1 (T4\<lparr>root := Some rt'\<rparr>)" "denotes (T4\<lparr>root := Some rt'\<rparr>) t'"
    "inorder t' = put_list k v (inorder t1)"
    by (rule insert_finish [OF D(3), of k v])
  have "length path + 1 = length (nn # parent # rest)" using arg_cong [OF I(2), of length] by simp
  then have "path \<noteq> []" by auto
  moreover have "insert_recursive T [] k v (tid t) = Some (None, [], T)"
    using insert_recursive_hit [OF T(2,1) True] .
  ultimately have "Put k v T = Some (T4\<lparr>root := Some rt'\<rparr>)"
    using T(3) D(1,4) I(1-4) by (simp add: Put_def Let_def)
  moreover have "rt' = tid t'" using I(6) by (simp add: denotes_def base_root_def)
  moreover have "inorder t' = put_list k v (inorder t)"
    using I(7) D(5) by (simp add: put_list_del_list)
  moreover have "cow T (T4\<lparr>root := Some rt'\<rparr>)" using D(2) I(5) by (rule rtranclp_trans)
  ultimately show thesis using that I(6) by simp
qed

lemma Delete_denotes:
  assumes den: "denotes T t"
  obtains T' t' where "Delete k T = Some T'" "cow T T'" "denotes T' t'"
    "inorder t' = del_list k (inorder t)"
proof (cases "k \<in> fst ` set (inorder t)")
  case True
  then show thesis using that Delete_present [OF den] by metis
next
  case False
  then show thesis using that [of T t] den Delete_absent [OF den False] by (simp add: del_list_miss)
qed

section \<open>Copy\<close>

lemma copy_recursive_ok:
  fixes T :: "('k::linorder, 'v) ptree"
  assumes "wft T" and "tree_at (nodes T) t" and "skeys (inorder t)"
  shows "copy_recursive T k (tid t) = Some (None, T) \<or>
    (\<exists>cs i nd l r T'. copy_recursive T k (tid t) = Some (Some (tid (plug cs (Nd i nd l r))), T') \<and>
       path_spec k T t cs (Nd i nd l r) (Nd i nd l r) T' \<and> nd_rid nd = rid T \<and> nd_key nd = k)"
  using assms
proof (induction t)
  case Lf
  then show ?case by (simp add: copy_recursive.simps [of T k 0])
next
  case (Nd i nd l r)
  note eq = copy_recursive.simps [of T k i]
  have N: "nodes T i = Some nd" "i \<noteq> 0" "np_ref (nd_left nd) = Some (tid l)"
    "np_ref (nd_right nd) = Some (tid r)" using Nd.prems(2) by auto
  show ?case
  proof (cases "k = nd_key nd")
    case True
    show ?thesis
    proof (cases "nd_rid nd = rid T")
      case True
      then show ?thesis using N \<open>k = nd_key nd\<close> by (intro disjI1) (subst copy_recursive.simps, simp)
    next
      case False
      obtain i' T' where c: "own_copy i T = Some (i', T')"
        "path_spec k T (Nd i nd l r) [] (Nd i' (own_nd (rid T) nd) l r) (Nd i' (own_nd (rid T) nd) l r) T'"
        by (rule path_spec_here [OF Nd.prems])
      have "copy_recursive T k i = Some (Some i', T')"
        using N True False c(1) by (subst eq) (simp add: own_copy_def heap_simps)
      then show ?thesis using c(2) True
        by (intro disjI2 exI [of _ "[]"] exI [of _ i'] exI [of _ "own_nd (rid T) nd"] exI [of _ l]
            exI [of _ r] exI [of _ T']) simp
    qed
  next
    case False
    define d where "d = (if k < nd_key nd then DL else DR)"
    have k: "if d = DL then k < nd_key nd else nd_key nd < k" using False by (auto simp: d_def)
    let ?u = "if d = DL then l else r"
    have "skeys (inorder l)" "skeys (inorder r)" using Nd.prems(3) by (auto simp: sorted_wrt_append)
    then have "copy_recursive T k (tid ?u) = Some (None, T) \<or>
      (\<exists>cs i nd l r T'. copy_recursive T k (tid ?u) = Some (Some (tid (plug cs (Nd i nd l r))), T') \<and>
       path_spec k T ?u cs (Nd i nd l r) (Nd i nd l r) T' \<and> nd_rid nd = rid T \<and> nd_key nd = k)"
      using Nd by (cases "d = DL") simp_all
    then show ?thesis
    proof (elim disjE exE conjE)
      assume "copy_recursive T k (tid ?u) = Some (None, T)"
      then have "copy_recursive T k i = Some (None, T)"
        using N False k by (cases "k < nd_key nd") (simp_all add: eq d_def)
      then show ?thesis by simp
    next
      fix cs j jd jl jr T1
      assume R: "copy_recursive T k (tid ?u) = Some (Some (tid (plug cs (Nd j jd jl jr))), T1)"
        and P: "path_spec k T ?u cs (Nd j jd jl jr) (Nd j jd jl jr) T1"
        and J: "nd_rid jd = rid T" "nd_key jd = k"
      obtain i' T2 T3 f where S: "own_copy i T1 = Some (i', T2)"
        "set_ref d i' (tid (plug cs (Nd j jd jl jr))) T2 = Some T3" "fid f = i'"
        "tid (plug (cs @ [f]) (Nd j jd jl jr)) = i'"
        "path_spec k T (Nd i nd l r) (cs @ [f]) (Nd j jd jl jr) (Nd j jd jl jr) T3"
        using path_spec_step [OF Nd.prems k P] by blast
      have "copy_recursive T k i = Some (Some i', T3)"
        using R S(1,2) N k False by (cases "k < nd_key nd") (simp_all add: eq d_def)
      then show ?thesis using S(4,5) J by (intro disjI2) (metis tid.simps(2))
    qed
  qed
qed

lemma Copy_denotes:
  assumes den: "denotes T t"
  obtains T' t' where "Copy k T = Some T'" "cow T T'" "denotes T' t'" "same_tree t' t"
proof -
  have D: "wft T" "tree_at (nodes T) t" "skeys (inorder t)" "rbt t" "base_root T = Some (tid t)"
    using den by (simp_all add: denotes_def)
  from copy_recursive_ok [OF D(1-3), of k] show thesis
  proof (elim disjE exE conjE)
    assume "copy_recursive T k (tid t) = Some (None, T)"
    then show thesis using that den D(5) by (simp add: Copy_def)
  next
    fix cs i nd l r T1
    assume R: "copy_recursive T k (tid t) = Some (Some (tid (plug cs (Nd i nd l r))), T1)"
      "path_spec k T t cs (Nd i nd l r) (Nd i nd l r) T1" "nd_rid nd = rid T"
    let ?t = "plug cs (Nd i nd l r)"
    have P: "cow T T1" "tree_at (nodes T1) ?t" "owned_frames (rid T) cs" "same_tree ?t t"
      using R(2) by (simp_all only: path_spec_def)
    have W: "rid T1 = rid T" using cow_members P(1) by blast
    have "owns T1 (tid ?t)" using P R(3) W by (intro owns_root) (auto simp: owns_def)
    then have "finished T1 (inorder t) T1 ?t"
      using P D(4) same_tree_rbt [OF P(4)] same_tree_inorder [OF P(4)] by (simp add: finished_def)
    note F = finished_denotes [OF den P(1) this D(3)]
    have "Copy k T = Some (T1\<lparr>root := Some (tid ?t)\<rparr>)" using R(1) D(5) by (simp add: Copy_def)
    then show thesis using that F P(4) by blast
  qed
qed

section \<open>The contract\<close>

text \<open>\<open>rep s m\<close>: the object \<open>s\<close> stands for the map \<open>m\<close>. \<open>keeps s s'\<close>: going from \<open>s\<close> to \<open>s'\<close> nothing that
  other versions can see has changed.\<close>

locale versioned_map =
  fixes rep :: "'s \<Rightarrow> ('k \<rightharpoonup> 'v) \<Rightarrow> bool"
    and get :: "'k \<Rightarrow> 's \<Rightarrow> (errno + 'v) option"
    and put :: "'k \<Rightarrow> 'v \<Rightarrow> 's \<Rightarrow> 's option"
    and del :: "'k \<Rightarrow> 's \<Rightarrow> 's option"
    and cpy :: "'k \<Rightarrow> 's \<Rightarrow> 's option"
    and keeps :: "'s \<Rightarrow> 's \<Rightarrow> bool"
  assumes get_law: "rep s m \<Longrightarrow> get k s = Some (case m k of None \<Rightarrow> Inl ENOENT | Some v \<Rightarrow> Inr v)"
    and put_law: "rep s m \<Longrightarrow> \<exists>s'. put k v s = Some s' \<and> rep s' (m(k \<mapsto> v)) \<and> keeps s s'"
    and del_law: "rep s m \<Longrightarrow> \<exists>s'. del k s = Some s' \<and> rep s' (m(k := None)) \<and> keeps s s'"
    and cpy_law: "rep s m \<Longrightarrow> \<exists>s'. cpy k s = Some s' \<and> rep s' m \<and> keeps s s'"
    and keeps_refl: "keeps s s"
    and keeps_trans: "keeps s s' \<Longrightarrow> keeps s' s'' \<Longrightarrow> keeps s s''"
begin

lemma rep_unique: "rep s m \<Longrightarrow> rep s m' \<Longrightarrow> m = m'"
proof (rule ext)
  fix k
  assume "rep s m" "rep s m'"
  from get_law [OF this(1), of k] get_law [OF this(2), of k] show "m k = m' k"
    by (auto split: option.splits)
qed

lemma get_after_put:
  assumes "rep s m"
  shows "\<exists>s'. put k v s = Some s' \<and> get k s' = Some (Inr v) \<and> (\<forall>j. j \<noteq> k \<longrightarrow> get j s' = get j s)"
proof -
  obtain s' where s': "put k v s = Some s'" "rep s' (m(k \<mapsto> v))" using put_law [OF assms] by blast
  show ?thesis using s' get_law [OF assms] get_law [OF s'(2)] by auto
qed

lemma get_after_del:
  assumes "rep s m"
  shows "\<exists>s'. del k s = Some s' \<and> get k s' = Some (Inl ENOENT) \<and> (\<forall>j. j \<noteq> k \<longrightarrow> get j s' = get j s)"
proof -
  obtain s' where s': "del k s = Some s'" "rep s' (m(k := None))" using del_law [OF assms] by blast
  show ?thesis using s' get_law [OF assms] get_law [OF s'(2)] by auto
qed

end

definition represents :: "('k::linorder, 'v) ptree \<Rightarrow> ('k \<rightharpoonup> 'v) \<Rightarrow> bool" where
  "represents T m \<longleftrightarrow> (\<exists>t. denotes T t \<and> map_of (inorder t) = m)"

interpretation tree: versioned_map represents Get Put Delete Copy cow
proof unfold_locales
  fix s :: "('k::linorder, 'v) ptree" and m k v
  assume "represents s m"
  then obtain t where t: "denotes s t" "map_of (inorder t) = m" by (auto simp: represents_def)
  show "Get k s = Some (case m k of None \<Rightarrow> Inl ENOENT | Some v \<Rightarrow> Inr v)"
    using Get_denotes [OF t(1)] t(2) by simp
  show "\<exists>s'. Put k v s = Some s' \<and> represents s' (m(k \<mapsto> v)) \<and> cow s s'"
    using Put_denotes [OF t(1), of k v] t(2) unfolding represents_def by (metis map_of_put_list)
  show "\<exists>s'. Delete k s = Some s' \<and> represents s' (m(k := None)) \<and> cow s s'"
    using Delete_denotes [OF t(1), of k] t(2) unfolding represents_def by (metis map_of_del_list)
  show "\<exists>s'. Copy k s = Some s' \<and> represents s' m \<and> cow s s'"
    using Copy_denotes [OF t(1), of k] t(2) unfolding represents_def by (metis same_tree_inorder)
qed (auto intro: rtranclp_trans)

section \<open>Starting from a snapshot\<close>

text \<open>The heap of the process between transactions: nil in its place, free numbers, and every reference
  of a node resolved in the heap.\<close>

definition heap_ok :: "('k, 'v) heap \<Rightarrow> bool" where
  "heap_ok H \<longleftrightarrow>
     (\<exists>nd. nodes H Nil_id = Some nd \<and> is_nil_node nd) \<and> 0 < next_node H \<and>
     (\<forall>i \<ge> next_node H. nodes H i = None) \<and>
     (\<forall>i nd d q. nodes H i = Some nd \<and> np_ref (child d nd) = Some q \<longrightarrow> nodes H q \<noteq> None)"

definition rid_free :: "int \<Rightarrow> ('k, 'v) heap \<Rightarrow> bool" where
  "rid_free r H \<longleftrightarrow> r \<noteq> int64_min \<and> (\<forall>i nd. nodes H i = Some nd \<longrightarrow> nd_rid nd \<noteq> r)"

lemma new_ptree_members [simp]:
  "nodes (new_ptree H p r i) = nodes H \<and> next_node (new_ptree H p r i) = next_node H \<and>
   root (new_ptree H p r i) = None \<and> src_root (new_ptree H p r i) = p \<and>
   rid (new_ptree H p r i) = r \<and> intention (new_ptree H p r i) = i \<and>
   afterimage (new_ptree H p r i) = None \<and> fresh_nodes (new_ptree H p r i) = []"
  by (simp add: new_ptree_def heap.defs)

lemma new_ptree_denotes:
  assumes "heap_ok H" and "rid_free r H" and "np_ref p = Some (tid t)" and "tree_at (nodes H) t"
    and "skeys (inorder t)" and "rbt t"
  shows "denotes (new_ptree H p r i) t"
  using assms unfolding denotes_def wft_def base_root_def heap_ok_def rid_free_def
  by simp (metis option.exhaust)

section \<open>Depth\<close>

fun depth :: "('k, 'v) ntree \<Rightarrow> nat" where
  "depth Lf = 0"
| "depth (Nd i nd l r) = Suc (max (depth l) (depth r))"

lemma hb_size: "hb t n \<Longrightarrow> 2 ^ n \<le> length (inorder t) + 1"
proof (induction t arbitrary: n)
  case (Nd i nd l r)
  show ?case
  proof (cases "nd_red nd")
    case True
    then show ?thesis using Nd.IH(1) [of n] Nd.prems by simp
  next
    case False
    then obtain m where "n = Suc m" "hb l m" "hb r m" using Nd.prems by (cases n) auto
    then show ?thesis using Nd.IH(1) [of m] Nd.IH(2) [of m] by simp
  qed
qed simp

lemma hb_depth: "hb t n \<Longrightarrow> invc t \<Longrightarrow> depth t \<le> 2 * n + (if is_red t then 1 else 0)"
proof (induction t arbitrary: n)
  case (Nd i nd l r)
  show ?case
  proof (cases "nd_red nd")
    case True
    then show ?thesis using Nd.IH(1) [of n] Nd.IH(2) [of n] Nd.prems by simp
  next
    case False
    then obtain m where "n = Suc m" "hb l m" "hb r m" using Nd.prems by (cases n) auto
    then show ?thesis using Nd.IH(1) [of m] Nd.IH(2) [of m] Nd.prems False by (auto split: if_splits)
  qed
qed simp

end
