(* ===== verification/TreeProps.thy ===== *)
theory TreeProps
  imports TreeMap
begin

text \<open>
  The properties of the persistent tree, each with an application to a concrete tree.
\<close>

section \<open>A sample heap\<close>

text \<open>A committed tree with the keys 10, 20 and 30, written by the intention at position 7, and a
  transaction tree with rid -1 on top of it.\<close>

abbreviation sptr :: "nat \<Rightarrow> node_ptr" where
  "sptr n \<equiv> \<lparr>np_ref = Some n, np_addr = Some \<lparr>position = 7, offset = 0, is_afterimage = False\<rparr>\<rparr>"

definition nil_sample :: "(int, string) node" where
  "nil_sample =
     \<lparr>nd_left = \<lparr>np_ref = None, np_addr = None\<rparr>, nd_right = \<lparr>np_ref = None, np_addr = None\<rparr>,
      nd_key = 0, nd_val = [], nd_red = False, nd_rid = int64_min, nd_read_only = True\<rparr>"

definition node_sample :: "nat \<Rightarrow> nat \<Rightarrow> int \<Rightarrow> string \<Rightarrow> bool \<Rightarrow> (int, string) node" where
  "node_sample l r k v c =
     \<lparr>nd_left = sptr l, nd_right = sptr r, nd_key = k, nd_val = v, nd_red = c, nd_rid = 7,
      nd_read_only = True\<rparr>"

definition heap_sample :: "(int, string) heap" where
  "heap_sample =
     \<lparr>nodes = [0 \<mapsto> nil_sample, 1 \<mapsto> node_sample 0 0 10 ''a'' True, 2 \<mapsto> node_sample 1 3 20 ''b'' False,
               3 \<mapsto> node_sample 0 0 30 ''c'' True],
      next_node = 4\<rparr>"

definition tree_sample :: "(int, string) ntree" where
  "tree_sample =
     Nd 2 (node_sample 1 3 20 ''b'' False) (Nd 1 (node_sample 0 0 10 ''a'' True) Lf Lf)
       (Nd 3 (node_sample 0 0 30 ''c'' True) Lf Lf)"

definition ptree_sample :: "(int, string) ptree" where
  "ptree_sample = new_ptree heap_sample (sptr 2) (-1) None"

lemma child_if: "child d nd = (if d = DL then nd_left nd else nd_right nd)"
  by (cases d) simp_all

lemma sample_denotes: "denotes ptree_sample tree_sample"
  unfolding ptree_sample_def
proof (rule new_ptree_denotes)
  show "heap_ok heap_sample"
    by (auto simp: heap_ok_def heap_sample_def node_sample_def nil_sample_def is_nil_node_def
        child_if split: if_splits)
  show "rid_free (-1) heap_sample"
    by (auto simp: rid_free_def heap_sample_def node_sample_def nil_sample_def int64_min_def
        split: if_splits)
  show "rbt tree_sample"
    unfolding rbt_def tree_sample_def by (auto simp: node_sample_def intro!: exI [of _ 1])
qed (auto simp: tree_sample_def heap_sample_def node_sample_def)

lemma sample_represents: "represents ptree_sample [10 \<mapsto> ''a'', 20 \<mapsto> ''b'', 30 \<mapsto> ''c'']"
  unfolding represents_def using sample_denotes
  by (intro exI [of _ tree_sample]) (auto simp: tree_sample_def node_sample_def fun_eq_iff)

lemma sample_foreign: "i \<in> idset tree_sample \<Longrightarrow> \<not> owns ptree_sample i"
  by (auto simp: owns_def tree_sample_def ptree_sample_def heap_sample_def node_sample_def)

lemma Delete_last_nil:
  assumes "denotes T t" and "inorder t = [(k, v)]"
  shows "\<exists>T'. Delete k T = Some T' \<and> root T' = Some Nil_id \<and> Nil_id \<in> set (fresh_nodes T')"
proof -
  obtain i nd where t: "t = Nd i nd Lf Lf" and k: "nd_key nd = k"
    using assms(2) by (cases t) (auto simp: append_eq_Cons_conv, (metis inorder.elims append_is_Nil_conv list.distinct(1))+)
  have D: "wft T" "tree_at (nodes T) (Nd i nd Lf Lf)" "skeys (inorder (Nd i nd Lf Lf))" "\<not> nd_red nd"
    "base_root T = Some i"
    using assms(1) by (auto simp: denotes_def t rbt_def)
  obtain i' T1 where c: "own_copy i T = Some (i', T1)"
    "path_spec k T (Nd i nd Lf Lf) [] (Nd i' (own_nd (rid T) nd) Lf Lf) (Nd i' (own_nd (rid T) nd) Lf Lf) T1"
    by (rule path_spec_here [OF D(1-3)])
  have c1: "cow T T1" "nodes T1 i' = Some (own_nd (rid T) nd)" "i' \<noteq> 0"
    using c(2) by (auto simp: path_spec_def)
  have W: "wft T1" using cow_wf [OF c1(1) D(1)] .
  have rec: "delete_recursive T [] k i = Some (Some i', [i'], T1)"
    using D(2) k c(1) by (subst delete_recursive.simps) simp
  have "delete_loop 0 0 [] 0 T1 = Some (0, 0, 0, T1)"
    using delete_loop_exit [OF W, of Lf 0] by simp
  moreover have "own_copy 0 T1 = Some (0, push_fresh 0 T1)"
    using get_rid_nil [OF W] by (auto simp: own_copy_def fresh_copy_def Copy_node_def)
  ultimately have "balance_delete 0 [0] 0 T1 = Some (0, push_fresh 0 T1)"
    by (simp add: balance_delete_def transplant_def)
  then have "Delete k T = Some ((push_fresh 0 T1)\<lparr>root := Some 0\<rparr>)"
    using rec D(2,4,5) k c1 by (simp add: Delete_def Let_def transplant_def heap_simps)
  then show ?thesis by simp
qed

text \<open>A committed tree with one entry.\<close>

definition single_heap :: "(int, string) heap" where
  "single_heap =
     \<lparr>nodes = [0 \<mapsto> nil_sample, 1 \<mapsto> node_sample 0 0 10 ''a'' False], next_node = 2\<rparr>"

lemma single_denotes:
  "denotes (new_ptree single_heap (sptr 1) (-1) None) (Nd 1 (node_sample 0 0 10 ''a'' False) Lf Lf)"
proof (rule new_ptree_denotes)
  show "heap_ok single_heap"
    by (auto simp: heap_ok_def single_heap_def node_sample_def nil_sample_def is_nil_node_def
        child_if split: if_splits)
  show "rid_free (-1) single_heap"
    by (auto simp: rid_free_def single_heap_def node_sample_def nil_sample_def int64_min_def
        split: if_splits)
  show "rbt (Nd 1 (node_sample 0 0 10 ''a'' False) Lf Lf)"
    unfolding rbt_def by (auto simp: node_sample_def intro!: exI [of _ 1])
qed (auto simp: single_heap_def node_sample_def)

section \<open>Properties\<close>

text \<open>C1: \<^verbatim>\<open>Put\<close> on a tree that stands for the map \<open>m\<close> always completes (no assertion fails, every loop ends)
  and yields a tree that stands for \<open>m\<close> with the key bound to the new value.\<close>

theorem Put_refines_update:
  assumes "represents T m"
  shows "\<exists>T'. Put k v T = Some T' \<and> represents T' (m(k \<mapsto> v))"
  using tree.put_law [OF assms] by blast

theorem Put_refines_update_witness:
  "\<exists>T'. Put 25 ''d'' ptree_sample = Some T' \<and>
     represents T' ([10 \<mapsto> ''a'', 20 \<mapsto> ''b'', 30 \<mapsto> ''c''](25 \<mapsto> ''d''))"
  by (rule Put_refines_update [OF sample_represents])

text \<open>C2: \<^verbatim>\<open>Delete\<close> on a tree that stands for \<open>m\<close> always completes and yields a tree that stands for \<open>m\<close>
  without the key; deleting an absent key leaves the map as it is.\<close>

theorem Delete_refines_removal:
  assumes "represents T m"
  shows "\<exists>T'. Delete k T = Some T' \<and> represents T' (m(k := None))"
  using tree.del_law [OF assms] by blast

theorem Delete_refines_removal_witness:
  "\<exists>T'. Delete 20 ptree_sample = Some T' \<and>
     represents T' ([10 \<mapsto> ''a'', 20 \<mapsto> ''b'', 30 \<mapsto> ''c''](20 := None))"
  by (rule Delete_refines_removal [OF sample_represents])

text \<open>C3: after \<^verbatim>\<open>Put\<close> and then \<^verbatim>\<open>Delete\<close> of another key, \<^verbatim>\<open>Get\<close> returns the stored value for the first key,
  \<^verbatim>\<open>-ENOENT\<close> for the deleted one, and for every other key what it returned before.\<close>

theorem Get_after_Put_Delete:
  assumes "represents T m" and "j \<noteq> k"
  shows "\<exists>T1 T2. Put k v T = Some T1 \<and> Delete j T1 = Some T2 \<and>
    Get k T2 = Some (Inr v) \<and> Get j T2 = Some (Inl ENOENT) \<and>
    (\<forall>i. i \<noteq> k \<and> i \<noteq> j \<longrightarrow> Get i T2 = Get i T)"
proof -
  obtain T1 where T1: "Put k v T = Some T1" "represents T1 (m(k \<mapsto> v))"
    using tree.put_law [OF assms(1)] by blast
  obtain T2 where T2: "Delete j T1 = Some T2" "represents T2 ((m(k \<mapsto> v))(j := None))"
    using tree.del_law [OF T1(2)] by blast
  show ?thesis
    using T1(1) T2(1) assms(2) tree.get_law [OF T2(2)] tree.get_law [OF assms(1)] by simp
qed

theorem Get_after_Put_Delete_witness:
  "\<exists>T1 T2. Put 25 ''d'' ptree_sample = Some T1 \<and> Delete 10 T1 = Some T2 \<and>
    Get 25 T2 = Some (Inr ''d'') \<and> Get 10 T2 = Some (Inl ENOENT) \<and>
    (\<forall>i. i \<noteq> 25 \<and> i \<noteq> 10 \<longrightarrow> Get i T2 = Get i ptree_sample)"
  by (rule Get_after_Put_Delete [OF sample_represents]) simp

text \<open>C4: \<^verbatim>\<open>Put\<close> and \<^verbatim>\<open>Delete\<close> keep the red-black and search-tree invariants: the heap holds a tree in key
  order whose root is black, in which no red node has a red child and all paths have the same number
  of black nodes, and its entries are the old ones with the key inserted or removed.\<close>

theorem Put_Delete_keep_red_black:
  assumes "denotes T t"
  shows "(\<exists>T' t'. Put k v T = Some T' \<and> root T' = Some (tid t') \<and> tree_at (nodes T') t' \<and> rbt t' \<and>
           inorder t' = put_list k v (inorder t) \<and> skeys (inorder t')) \<and>
         (\<exists>T' t'. Delete k T = Some T' \<and> base_root T' = Some (tid t') \<and> tree_at (nodes T') t' \<and> rbt t' \<and>
           inorder t' = del_list k (inorder t) \<and> skeys (inorder t'))"
proof
  obtain T' t' where "Put k v T = Some T'" "denotes T' t'" "root T' = Some (tid t')"
    "inorder t' = put_list k v (inorder t)" by (rule Put_denotes [OF assms])
  then show "\<exists>T' t'. Put k v T = Some T' \<and> root T' = Some (tid t') \<and> tree_at (nodes T') t' \<and> rbt t' \<and>
      inorder t' = put_list k v (inorder t) \<and> skeys (inorder t')"
    by (intro exI [of _ T'] exI [of _ t']) (simp add: denotes_def)
  obtain T' t' where "Delete k T = Some T'" "denotes T' t'" "inorder t' = del_list k (inorder t)"
    by (rule Delete_denotes [OF assms])
  then show "\<exists>T' t'. Delete k T = Some T' \<and> base_root T' = Some (tid t') \<and> tree_at (nodes T') t' \<and>
      rbt t' \<and> inorder t' = del_list k (inorder t) \<and> skeys (inorder t')"
    by (intro exI [of _ T'] exI [of _ t']) (simp add: denotes_def)
qed

theorem Put_Delete_keep_red_black_witness:
  "(\<exists>T' t'. Put 25 ''d'' ptree_sample = Some T' \<and> root T' = Some (tid t') \<and> tree_at (nodes T') t' \<and>
      rbt t' \<and> inorder t' = [(10, ''a''), (20, ''b''), (25, ''d''), (30, ''c'')] \<and> skeys (inorder t'))"
  using Put_Delete_keep_red_black [OF sample_denotes, of 25 "''d''"]
  by (simp add: tree_sample_def node_sample_def put_list_def)

text \<open>C5: snapshots are immutable. A tree made of nodes of other versions, such as the snapshot a
  transaction started from, is held unchanged by the heap after \<^verbatim>\<open>Put\<close>, \<^verbatim>\<open>Delete\<close> and \<^verbatim>\<open>Copy\<close>.\<close>

theorem writes_keep_snapshots:
  assumes "denotes T t" and "tree_at (nodes T) old" and "\<forall>i \<in> idset old. \<not> owns T i"
    and "Put k v T = Some T' \<or> Delete k T = Some T' \<or> Copy k T = Some T'"
  shows "tree_at (nodes T') old"
proof -
  have "cow T T'"
    using assms(4) Put_denotes [OF assms(1), of k v] Delete_denotes [OF assms(1), of k]
      Copy_denotes [OF assms(1), of k] by (metis option.inject)
  moreover have "wft T" using assms(1) by (simp add: denotes_def)
  ultimately show ?thesis
    using assms(3) by (intro cow_snapshot [OF _ _ assms(2)]) (auto simp: owns_def)
qed

theorem writes_keep_snapshots_witness:
  "\<exists>T'. Put 25 ''d'' ptree_sample = Some T' \<and> tree_at (nodes T') tree_sample"
proof -
  obtain T' where T': "Put 25 ''d'' ptree_sample = Some T'" by (rule Put_denotes [OF sample_denotes])
  have "tree_at (nodes ptree_sample) tree_sample" using sample_denotes by (simp add: denotes_def)
  moreover have "\<forall>i \<in> idset tree_sample. \<not> owns ptree_sample i" using sample_foreign by blast
  ultimately have "tree_at (nodes T') tree_sample"
    by (rule writes_keep_snapshots [OF sample_denotes _ _ disjI1 [OF T']])
  then show ?thesis using T' by blast
qed

text \<open>C6: after a write, the nodes that carry the transaction's rid are exactly the nodes recorded as
  fresh (but for nil), all of them writable, and every node that was not there before the write is
  one of them: what is serialized later is what the transaction created.\<close>

theorem fresh_nodes_exact:
  assumes "denotes T t" and "Put k v T = Some T' \<or> Delete k T = Some T'"
  shows "{i. owns T' i} = set (fresh_nodes T') - {Nil_id} \<and>
    (\<forall>i nd. nodes T' i = Some nd \<and> nodes T i \<noteq> Some nd \<longrightarrow> owns T' i \<and> \<not> nd_read_only nd)"
proof -
  have c: "cow T T'"
    using assms(2) Put_denotes [OF assms(1), of k v] Delete_denotes [OF assms(1), of k]
    by (metis option.inject)
  have wf: "wft T" using assms(1) by (simp add: denotes_def)
  have W: "wft T'" "rid T' = rid T" using cow_wf [OF c wf] cow_members [OF c] by auto
  have "i \<in> set (fresh_nodes T') - {Nil_id}" if "owns T' i" for i
    using that W(1) wf_own_nonnil [OF W(1)] unfolding wft_def owns_def by blast
  moreover have "owns T' i" if "i \<in> set (fresh_nodes T') - {Nil_id}" for i
    using that W(1) unfolding wft_def owns_def by blast
  moreover have "owns T' i \<and> \<not> nd_read_only nd" if "nodes T' i = Some nd" "nodes T i \<noteq> Some nd" for i nd
    using cow_new [OF c that(1)] that W wf_writable [OF W(1)] by (auto simp: owns_def)
  ultimately show ?thesis by blast
qed

theorem fresh_nodes_exact_witness:
  "\<exists>T'. Delete 20 ptree_sample = Some T' \<and> {i. owns T' i} = set (fresh_nodes T') - {Nil_id}"
proof -
  obtain T' where "Delete 20 ptree_sample = Some T'" by (rule Delete_denotes [OF sample_denotes])
  then show ?thesis using fresh_nodes_exact [OF sample_denotes, of 20 _ T'] by blast
qed

text \<open>\<^verbatim>\<open>Copy\<close> completes and changes no key, value, colour or shape; every lookup gives the same
  result as before.\<close>

theorem Copy_keeps_tree:
  assumes "denotes T t"
  shows "\<exists>T' t'. Copy k T = Some T' \<and> denotes T' t' \<and> same_tree t' t \<and> Get j T' = Get j T"
proof -
  obtain T' t' where c: "Copy k T = Some T'" "denotes T' t'" "same_tree t' t"
    by (rule Copy_denotes [OF assms])
  then show ?thesis
    using Get_denotes [OF assms, of j] Get_denotes [OF c(2), of j] same_tree_inorder [OF c(3)] by auto
qed



text \<open>When \<^verbatim>\<open>Delete\<close> removes the only entry of a tree, the tree becomes empty and the nil node is
  recorded among the transaction's fresh nodes.\<close>

theorem Delete_last_entry_records_nil:
  assumes "denotes T t" and "inorder t = [(k, v)]"
  shows "\<exists>T'. Delete k T = Some T' \<and> root T' = Some Nil_id \<and> Nil_id \<in> set (fresh_nodes T')"
  by (rule Delete_last_nil [OF assms])

end
