(* ===== verification/AfterImageProps.thy ===== *)
theory AfterImageProps
  imports AfterImage
begin

text \<open>
  Correctness of after images. The walks of the encoder over the heap are related to functions on
  trees, and the decoder applied to the encoded nodes gives the tree back: a reader that has only the
  log sees the entries, colours and shape that the writer had in memory.
\<close>

section \<open>The address walk on trees\<close>

fun own_root :: "int \<Rightarrow> ('k, 'v) ntree \<Rightarrow> bool" where
  "own_root r Lf = False"
| "own_root r (Nd i nd a b) \<longleftrightarrow> nd_rid nd = r"

fun osize :: "int \<Rightarrow> ('k, 'v) ntree \<Rightarrow> nat" where
  "osize r Lf = 0"
| "osize r (Nd i nd a b) = (if nd_rid nd = r then osize r a + osize r b + 1 else 0)"

text \<open>The tree in which the pointers between nodes of the delta carry their addresses in the after image
  at \<open>pos\<close>; the flag says whether \<open>pos\<close> is the position of the after image or of the intention.\<close>

definition addr_ptr :: "bool \<Rightarrow> u64 \<Rightarrow> int \<Rightarrow> node_ptr \<Rightarrow> node_ptr" where
  "addr_ptr h pos off p =
     p\<lparr>np_addr := Some \<lparr>position = pos, offset = word_of_int off, is_afterimage = h\<rparr>\<rparr>"

definition addr_nd ::
  "bool \<Rightarrow> int \<Rightarrow> u64 \<Rightarrow> int \<Rightarrow> int \<Rightarrow> ('k, 'v) ntree \<Rightarrow> ('k, 'v) ntree \<Rightarrow> ('k, 'v) node \<Rightarrow> ('k, 'v) node"
where
  "addr_nd h r pos lo ro a b nd =
     nd\<lparr>nd_left := (if own_root r a then addr_ptr h pos lo (nd_left nd) else nd_left nd),
        nd_right := (if own_root r b then addr_ptr h pos ro (nd_right nd) else nd_right nd)\<rparr>"

fun addr_tree :: "bool \<Rightarrow> int \<Rightarrow> u64 \<Rightarrow> int \<Rightarrow> ('k, 'v) ntree \<Rightarrow> ('k, 'v) ntree" where
  "addr_tree h r pos f Lf = Lf"
| "addr_tree h r pos f (Nd i nd a b) =
     (if nd_rid nd \<noteq> r then Nd i nd a b
      else Nd i (addr_nd h r pos (f + int (osize r a) - 1) (f + int (osize r a) + int (osize r b) - 1) a b nd)
             (addr_tree h r pos f a) (addr_tree h r pos (f + int (osize r a)) b))"

abbreviation infect_tree :: "int \<Rightarrow> u64 \<Rightarrow> int \<Rightarrow> ('k, 'v) ntree \<Rightarrow> ('k, 'v) ntree" where
  "infect_tree \<equiv> addr_tree False"

abbreviation infect_nd ::
  "int \<Rightarrow> u64 \<Rightarrow> int \<Rightarrow> int \<Rightarrow> ('k, 'v) ntree \<Rightarrow> ('k, 'v) ntree \<Rightarrow> ('k, 'v) node \<Rightarrow> ('k, 'v) node" where
  "infect_nd \<equiv> addr_nd False"

lemma np_ref_addr_ptr [simp]: "np_ref (addr_ptr h pos off p) = np_ref p"
  by (simp add: addr_ptr_def)

lemma SetIntentionAddress_addr: "SetIntentionAddress pos (word_of_int off) p = addr_ptr False pos off p"
  by (simp add: SetIntentionAddress_def addr_ptr_def)

lemma addr_nd_fields [simp]:
  "nd_key (addr_nd h r pos lo ro a b nd) = nd_key nd \<and> nd_val (addr_nd h r pos lo ro a b nd) = nd_val nd \<and>
   nd_red (addr_nd h r pos lo ro a b nd) = nd_red nd \<and> nd_rid (addr_nd h r pos lo ro a b nd) = nd_rid nd \<and>
   nd_read_only (addr_nd h r pos lo ro a b nd) = nd_read_only nd \<and>
   np_ref (nd_left (addr_nd h r pos lo ro a b nd)) = np_ref (nd_left nd) \<and>
   np_ref (nd_right (addr_nd h r pos lo ro a b nd)) = np_ref (nd_right nd)"
  by (simp add: addr_nd_def addr_ptr_def)

lemma addr_tree_shape [simp]:
  "tid (addr_tree h r pos f t) = tid t \<and> idset (addr_tree h r pos f t) = idset t \<and>
   same_tree (addr_tree h r pos f t) t \<and> own_root q (addr_tree h r pos f t) = own_root q t \<and>
   osize q (addr_tree h r pos f t) = osize q t \<and> dist (addr_tree h r pos f t) = dist t \<and>
   (addr_tree h r pos f t = Lf \<longleftrightarrow> t = Lf)"
  by (induction t arbitrary: f) auto

text \<open>The nil node of the heap does not carry the rid of the tree.\<close>

definition nil_foreign :: "('k, 'v) ptree \<Rightarrow> bool" where
  "nil_foreign T \<longleftrightarrow> (\<exists>nd. nodes T Nil_id = Some nd \<and> nd_rid nd \<noteq> rid T)"

lemma get_rid_tree:
  assumes "nil_foreign T" and "tree_at (nodes T) t"
  shows "\<exists>x. get_rid (tid t) T = Some x \<and> (tid t \<noteq> Nil_id \<and> x = rid T \<longleftrightarrow> own_root (rid T) t) \<and>
    (tid t = Nil_id \<or> x \<noteq> rid T \<longleftrightarrow> \<not> own_root (rid T) t)"
  using assms by (cases t) (auto simp: nil_foreign_def heap_simps)

lemma infect_node_eq:
  assumes "nil_foreign T" and "tree_at (nodes T) (Nd i nd a b)" and "i \<notin> idset a" and "i \<notin> idset b"
  shows "infect_node i pos lo ro T = Some (put_node i (infect_nd (rid T) pos lo ro a b nd) T)"
proof -
  obtain x where x: "get_rid (tid a) T = Some x" "tid a \<noteq> Nil_id \<and> x = rid T \<longleftrightarrow> own_root (rid T) a"
    using get_rid_tree [of T a] assms by auto
  define nd1 where "nd1 = (if own_root (rid T) a
    then nd\<lparr>nd_left := SetIntentionAddress pos (word_of_int lo) (nd_left nd)\<rparr> else nd)"
  have N: "nodes T i = Some nd" "np_ref (nd_left nd) = Some (tid a)" "np_ref (nd_right nd) = Some (tid b)"
    "tree_at (nodes T) b" "i \<noteq> 0" using assms by auto
  have s1: "infect_node_ptr pos DL i lo T = Some (put_node i nd1 T)"
    using N x by (auto simp: infect_node_ptr_def heap_simps upd_node_def nd1_def put_node_def fun_upd_idem)
  have "nil_foreign (put_node i nd1 T)" "tree_at (nodes (put_node i nd1 T)) b"
    using assms N by (auto simp: nil_foreign_def)
  from get_rid_tree [OF this] obtain y where y: "get_rid (tid b) (put_node i nd1 T) = Some y"
    "tid b \<noteq> Nil_id \<and> y = rid T \<longleftrightarrow> own_root (rid T) b" by auto
  have "nd_right nd1 = nd_right nd" by (simp add: nd1_def)
  then have "infect_node_ptr pos DR i ro (put_node i nd1 T) =
      Some (put_node i (infect_nd (rid T) pos lo ro a b nd) T)"
    using N y by (auto simp: infect_node_ptr_def heap_simps upd_node_def nd1_def put_node_def addr_nd_def SetIntentionAddress_addr)
  with s1 show ?thesis by (simp add: infect_node_def)
qed

text \<open>\<open>only_nodes T T' A\<close>: \<open>T'\<close> differs from \<open>T\<close> only in the nodes with numbers in \<open>A\<close>.\<close>

definition only_nodes :: "('k, 'v) ptree \<Rightarrow> ('k, 'v) ptree \<Rightarrow> nat set \<Rightarrow> bool" where
  "only_nodes T T' A \<longleftrightarrow> (\<exists>N. T' = T\<lparr>nodes := N\<rparr> \<and> (\<forall>j. j \<notin> A \<longrightarrow> N j = nodes T j))"

lemma only_nodes_refl [simp]: "only_nodes T T A"
  unfolding only_nodes_def by (intro exI [of _ "nodes T"]) simp

lemma only_nodes_trans: "only_nodes T T1 A \<Longrightarrow> only_nodes T1 T2 B \<Longrightarrow> only_nodes T T2 (A \<union> B)"
  by (auto simp: only_nodes_def)

lemma only_nodes_put: "only_nodes T (put_node i nd T) {i}"
  unfolding only_nodes_def put_node_def by (intro exI conjI) (rule refl, simp)

lemma only_nodes_members:
  assumes "only_nodes T T' A"
  shows "rid T' = rid T \<and> root T' = root T \<and> fresh_nodes T' = fresh_nodes T \<and> src_root T' = src_root T \<and>
    (\<forall>j. j \<notin> A \<longrightarrow> nodes T' j = nodes T j)"
  using assms by (auto simp: only_nodes_def)

lemma tree_at_only:
  "only_nodes T T' A \<Longrightarrow> A \<inter> idset t = {} \<Longrightarrow> tree_at (nodes T') t = tree_at (nodes T) t"
  by (rule tree_at_cong) (auto simp: only_nodes_def)

lemma infect_after_image_tree:
  fixes T :: "('k, 'v) ptree"
  assumes "nil_foreign T" and "tree_at (nodes T) t" and "dist t"
  shows "\<exists>T'. infect_after_image (tid t) pos f T = Some (f + int (osize (rid T) t), T') \<and>
    only_nodes T T' (idset t) \<and> tree_at (nodes T') (infect_tree (rid T) pos f t)"
  using assms
proof (induction t arbitrary: T f)
  case Lf
  then show ?case
    by (subst infect_after_image.simps) (auto simp: nil_foreign_def heap_simps)
next
  case (Nd i nd a b)
  have N: "nodes T i = Some nd" "i \<noteq> 0" "np_ref (nd_left nd) = Some (tid a)"
    "np_ref (nd_right nd) = Some (tid b)" "tree_at (nodes T) a" "tree_at (nodes T) b"
    "dist a" "dist b" "i \<notin> idset a" "i \<notin> idset b" "idset a \<inter> idset b = {}" "0 \<notin> idset a" "0 \<notin> idset b"
    using Nd.prems zero_notin_idset [of "nodes T" a] zero_notin_idset [of "nodes T" b] by auto
  show ?case
  proof (cases "nd_rid nd = rid T")
    case False
    then show ?thesis
      using N by (subst infect_after_image.simps) (simp add: heap_simps)
  next
    case True
    let ?r = "rid T" and ?f1 = "f + int (osize (rid T) a)"
    let ?f2 = "f + int (osize (rid T) a) + int (osize (rid T) b)"
    obtain T1 where A: "infect_after_image (tid a) pos f T = Some (?f1, T1)" "only_nodes T T1 (idset a)"
      "tree_at (nodes T1) (infect_tree ?r pos f a)"
      using Nd.IH(1) [OF Nd.prems(1) N(5,7)] by blast
    note m1 = only_nodes_members [OF A(2)]
    have 1: "nil_foreign T1" "tree_at (nodes T1) b" "nodes T1 i = Some nd"
      using Nd.prems(1) m1 N tree_at_only [OF A(2), of b] by (auto simp: nil_foreign_def)
    obtain T2 where B: "infect_after_image (tid b) pos ?f1 T1 = Some (?f2, T2)"
      "only_nodes T1 T2 (idset b)" "tree_at (nodes T2) (infect_tree ?r pos ?f1 b)"
      using Nd.IH(2) [OF 1(1,2) N(8)] m1 by auto
    note m2 = only_nodes_members [OF B(2)]
    let ?a = "infect_tree ?r pos f a" and ?b = "infect_tree ?r pos ?f1 b"
    have 2: "nil_foreign T2" "tree_at (nodes T2) (Nd i nd ?a ?b)"
      using 1 m1 m2 N A(3) B(3) tree_at_only [OF B(2), of ?a] by (auto simp: nil_foreign_def)
    let ?nd = "infect_nd ?r pos (?f1 - 1) (?f2 - 1) a b nd"
    have nd: "infect_nd ?r pos (?f1 - 1) (?f2 - 1) ?a ?b nd = ?nd" by (simp add: addr_nd_def)
    have C: "infect_node i pos (?f1 - 1) (?f2 - 1) T2 = Some (put_node i ?nd T2)"
      using infect_node_eq [OF 2, of pos "?f1 - 1" "?f2 - 1"] N m1 m2 nd by simp
    have "infect_after_image i pos f T = Some (f + int (osize ?r (Nd i nd a b)), put_node i ?nd T2)"
      using N True A(1) B(1) C 1 by (subst infect_after_image.simps) (simp add: heap_simps Let_def)
    moreover have "only_nodes T (put_node i ?nd T2) (idset (Nd i nd a b))"
      using only_nodes_trans [OF only_nodes_trans [OF A(2) B(2)] only_nodes_put [of T2 i ?nd]]
      by (simp add: insert_commute Un_commute)
    moreover have "tree_at (nodes (put_node i ?nd T2)) (infect_tree ?r pos f (Nd i nd a b))"
      using 2(2) N True by simp
    ultimately show ?thesis unfolding tid.simps by blast
  qed
qed

section \<open>The encoder on trees\<close>

definition nil_pb :: pb_ptr where
  "nil_pb = \<lparr>pb_nil = True, pb_self = False, pb_intention = None, pb_afterimage = None, pb_off = None\<rparr>"

definition self_pb :: "int \<Rightarrow> pb_ptr" where
  "self_pb off =
     \<lparr>pb_nil = False, pb_self = True, pb_intention = None, pb_afterimage = None,
      pb_off = Some (word_of_int off)\<rparr>"

definition foreign_pb :: "(u64 \<Rightarrow> u64 option) \<Rightarrow> node_address \<Rightarrow> pb_ptr" where
  "foreign_pb i2a a =
     (let known = (if is_afterimage a then Some (position a) else i2a (position a))
      in \<lparr>pb_nil = False, pb_self = False,
          pb_intention = (if known = None then Some (position a) else None), pb_afterimage = known,
          pb_off = Some (ucast (offset a))\<rparr>)"

definition enc_ptr ::
  "int \<Rightarrow> (u64 \<Rightarrow> u64 option) \<Rightarrow> int \<Rightarrow> ('k, 'v) ntree \<Rightarrow> node_ptr \<Rightarrow> pb_ptr" where
  "enc_ptr r i2a off c p =
     (if c = Lf then nil_pb else if own_root r c then self_pb off else foreign_pb i2a (the (np_addr p)))"

fun enc_tree ::
  "int \<Rightarrow> (u64 \<Rightarrow> u64 option) \<Rightarrow> int \<Rightarrow> ('k, 'v) ntree \<Rightarrow> ('k, 'v) pb_node list" where
  "enc_tree r i2a f Lf = []"
| "enc_tree r i2a f (Nd i nd a b) =
     (if nd_rid nd \<noteq> r then []
      else enc_tree r i2a f a @ enc_tree r i2a (f + int (osize r a)) b @
        [\<lparr>pb_red = nd_red nd, pb_key = nd_key nd, pb_val = nd_val nd,
          pb_left = enc_ptr r i2a (f + int (osize r a) - 1) a (nd_left nd),
          pb_right = enc_ptr r i2a (f + int (osize r a) + int (osize r b) - 1) b (nd_right nd)\<rparr>])"

fun own_list :: "int \<Rightarrow> ('k, 'v) ntree \<Rightarrow> nat list" where
  "own_list r Lf = []"
| "own_list r (Nd i nd a b) = (if nd_rid nd \<noteq> r then [] else own_list r a @ own_list r b @ [i])"

text \<open>Pointers from nodes of the delta to nodes outside it have an address.\<close>

fun addressed :: "int \<Rightarrow> ('k, 'v) ntree \<Rightarrow> bool" where
  "addressed r Lf = True"
| "addressed r (Nd i nd a b) \<longleftrightarrow>
     (nd_rid nd = r \<longrightarrow>
        (a = Lf \<or> own_root r a \<or> np_addr (nd_left nd) \<noteq> None) \<and>
        (b = Lf \<or> own_root r b \<or> np_addr (nd_right nd) \<noteq> None) \<and>
        addressed r a \<and> addressed r b)"

lemma length_enc_tree [simp]: "length (enc_tree r i2a f t) = osize r t"
  by (induction t arbitrary: f) auto

lemma length_own_list [simp]: "length (own_list r t) = osize r t"
  by (induction t) auto

lemma osize_pos: "own_root r t \<Longrightarrow> 0 < osize r t"
  by (cases t) auto

text \<open>A pointer of an infected node is encoded as the tree function says, as long as its offset fits
  into 16 bits.\<close>

lemma serialize_node_ptr_eq:
  assumes "nil_foreign T" and "tree_at (nodes T) c" and "np_ref p = Some (tid c)" and "np_ref p' = np_ref p"
    and "own_root (rid T) c \<Longrightarrow> 0 \<le> off \<and> off < 65536 \<and>
      np_addr p = Some \<lparr>position = pos, offset = word_of_int off, is_afterimage = False\<rparr>"
    and "c = Lf \<or> own_root (rid T) c \<or> np_addr p \<noteq> None \<and> np_addr p' = np_addr p"
  shows "serialize_node_ptr i2a p off T = Some (enc_ptr (rid T) i2a off c p')"
proof -
  have w: "uint (word_of_int off :: u16) = off" if "0 \<le> off" "off < 65536"
    using that by (simp add: uint_word_of_int)
  show ?thesis
  proof (cases c)
    case Lf
    then show ?thesis
      using assms(1,3) by (auto simp: serialize_node_ptr_def enc_ptr_def nil_pb_def nil_foreign_def heap_simps)
  next
    case (Nd i nd a b)
    then show ?thesis
      using assms w
      by (auto simp: serialize_node_ptr_def enc_ptr_def self_pb_def foreign_pb_def heap_simps
          split: option.splits)
  qed
qed

lemma serialize_intention_tree:
  fixes T :: "('k, 'v) ptree"
  assumes "nil_foreign T" and "tree_at (nodes T) (infect_tree (rid T) pos f t)" and "addressed (rid T) t"
    and "0 \<le> f" and "f + int (osize (rid T) t) \<le> 65536"
  shows "serialize_intention i2a T msg (tid t) f delta =
    Some (msg @ enc_tree (rid T) i2a f t, f + int (osize (rid T) t), delta @ own_list (rid T) t)"
  using assms
proof (induction t arbitrary: f msg delta)
  case Lf
  then show ?case
    by (subst serialize_intention.simps) (auto simp: nil_foreign_def heap_simps)
next
  case (Nd i nd a b)
  let ?r = "rid T" and ?f1 = "f + int (osize (rid T) a)"
  let ?f2 = "f + int (osize (rid T) a) + int (osize (rid T) b)"
  show ?case
  proof (cases "nd_rid nd = ?r")
    case False
    then show ?thesis
      using Nd.prems by (subst serialize_intention.simps) (simp add: heap_simps)
  next
    case True
    let ?nd = "infect_nd ?r pos (?f1 - 1) (?f2 - 1) a b nd"
    have N: "nodes T i = Some ?nd" "i \<noteq> 0" "np_ref (nd_left nd) = Some (tid a)"
      "np_ref (nd_right nd) = Some (tid b)"
      "tree_at (nodes T) (infect_tree ?r pos f a)" "tree_at (nodes T) (infect_tree ?r pos ?f1 b)"
      using Nd.prems(2) True by auto
    have A: "serialize_intention i2a T msg (tid a) f delta =
        Some (msg @ enc_tree ?r i2a f a, ?f1, delta @ own_list ?r a)"
      using Nd.prems True N by (intro Nd.IH(1)) auto
    have B: "serialize_intention i2a T m (tid b) ?f1 d =
        Some (m @ enc_tree ?r i2a ?f1 b, ?f2, d @ own_list ?r b)" for m d
      using Nd.prems True N by (intro Nd.IH(2)) auto
    have L: "serialize_node_ptr i2a (nd_left ?nd) (?f1 - 1) T =
        Some (enc_ptr ?r i2a (?f1 - 1) (infect_tree ?r pos f a) (nd_left nd))"
      using Nd.prems True N osize_pos [of ?r a]
      by (intro serialize_node_ptr_eq [of _ _ _ _ _ pos])
        (auto simp: addr_nd_def addr_ptr_def)
    have R: "serialize_node_ptr i2a (nd_right ?nd) (?f2 - 1) T =
        Some (enc_ptr ?r i2a (?f2 - 1) (infect_tree ?r pos ?f1 b) (nd_right nd))"
      using Nd.prems True N osize_pos [of ?r b]
      by (intro serialize_node_ptr_eq [of _ _ _ _ _ pos])
        (auto simp: addr_nd_def addr_ptr_def)
    have S: "serialize_node i2a i (?f1 - 1) (?f2 - 1) T =
        Some \<lparr>pb_red = nd_red nd, pb_key = nd_key nd, pb_val = nd_val nd,
          pb_left = enc_ptr ?r i2a (?f1 - 1) a (nd_left nd),
          pb_right = enc_ptr ?r i2a (?f2 - 1) b (nd_right nd)\<rparr>"
      using N(1) L R by (simp add: serialize_node_def enc_ptr_def)
    show ?thesis
      using True N A B S by (subst serialize_intention.simps) (simp add: heap_simps Let_def)
  qed
qed

section \<open>Trees in the log\<close>

text \<open>\<open>L\<close> gives the after image stored at a position of the log, \<open>I\<close> the position of the first after image
  of an intention. \<open>in_log L I a t\<close>: following addresses from \<open>a\<close> and decoding gives the tree \<open>t\<close>.\<close>

definition resolve_pos :: "(u64 \<Rightarrow> u64 option) \<Rightarrow> node_address \<Rightarrow> u64 option" where
  "resolve_pos I a = (if is_afterimage a then Some (position a) else I (position a))"

definition link_ok :: "node_ptr \<Rightarrow> ('k, 'v) ntree \<Rightarrow> (node_address \<Rightarrow> bool) \<Rightarrow> bool" where
  "link_ok p c P =
     (if c = Lf then np_ref p = Some Nil_id
      else np_ref p = None \<and> (case np_addr p of None \<Rightarrow> False | Some a \<Rightarrow> P a))"

fun in_log ::
  "(u64 \<Rightarrow> ('k, 'v) after_image option) \<Rightarrow> (u64 \<Rightarrow> u64 option) \<Rightarrow> node_address \<Rightarrow> ('k, 'v) ntree \<Rightarrow> bool"
where
  "in_log L I a Lf = False"
| "in_log L I a (Nd i nd l r) =
     (case resolve_pos I a of
        None \<Rightarrow> False
      | Some p \<Rightarrow>
          (case L p of
             None \<Rightarrow> False
           | Some ai \<Rightarrow>
               (case deserialize_node ai p (unat (offset a)) of
                  None \<Rightarrow> False
                | Some dn \<Rightarrow>
                    nd_key dn = nd_key nd \<and> nd_val dn = nd_val nd \<and> nd_red dn = nd_red nd \<and>
                    link_ok (nd_left dn) l (\<lambda>a. in_log L I a l) \<and>
                    link_ok (nd_right dn) r (\<lambda>a. in_log L I a r))))"

lemma in_log_Nd:
  "in_log L I a (Nd i nd l r) \<longleftrightarrow>
     (\<exists>p ai dn. resolve_pos I a = Some p \<and> L p = Some ai \<and>
        deserialize_node ai p (unat (offset a)) = Some dn \<and>
        nd_key dn = nd_key nd \<and> nd_val dn = nd_val nd \<and> nd_red dn = nd_red nd \<and>
        link_ok (nd_left dn) l (\<lambda>a. in_log L I a l) \<and> link_ok (nd_right dn) r (\<lambda>a. in_log L I a r))"
  by (auto split: option.splits)

lemma link_ok_mono: "link_ok p c P \<Longrightarrow> (\<And>a. P a \<Longrightarrow> Q a) \<Longrightarrow> link_ok p c Q"
  by (auto simp: link_ok_def split: option.splits if_splits)

lemma link_ok_unique:
  "link_ok p c P \<Longrightarrow> link_ok p c' P' \<Longrightarrow> (\<And>a. P a \<Longrightarrow> P' a \<Longrightarrow> same_tree c c') \<Longrightarrow> same_tree c c'"
  by (auto simp: link_ok_def split: option.splits if_splits)

text \<open>Two trees in the log at the same address have the same entries, colours and shape.\<close>

lemma in_log_unique: "in_log L I a t \<Longrightarrow> in_log L I a t' \<Longrightarrow> same_tree t t'"
proof (induction t arbitrary: a t')
  case (Nd i nd l r)
  obtain j md l' r' where t': "t' = Nd j md l' r'" using Nd.prems(2) by (cases t') auto
  obtain p ai dn where D: "nd_key dn = nd_key nd" "nd_val dn = nd_val nd" "nd_red dn = nd_red nd"
    "link_ok (nd_left dn) l (\<lambda>a. in_log L I a l)" "link_ok (nd_right dn) r (\<lambda>a. in_log L I a r)"
    "resolve_pos I a = Some p" "L p = Some ai" "deserialize_node ai p (unat (offset a)) = Some dn"
    using Nd.prems(1) unfolding in_log_Nd by blast
  have E: "nd_key dn = nd_key md \<and> nd_val dn = nd_val md \<and> nd_red dn = nd_red md"
    "link_ok (nd_left dn) l' (\<lambda>a. in_log L I a l')" "link_ok (nd_right dn) r' (\<lambda>a. in_log L I a r')"
    using Nd.prems(2) D(6-8) unfolding t' in_log_Nd by simp_all
  have "same_tree l l'" using D(4) E(2) Nd.IH(1) by (rule link_ok_unique)
  moreover have "same_tree r r'" using D(5) E(3) Nd.IH(2) by (rule link_ok_unique)
  ultimately show ?case using D(1-3) E(1) t' by simp
qed simp

lemma in_log_mono:
  assumes "in_log L I a t" and "L p = None"
  shows "in_log (L(p \<mapsto> ai)) I a t"
  using assms(1)
proof (induction t arbitrary: a)
  case (Nd i nd l r)
  then obtain q ai' dn where D: "resolve_pos I a = Some q" "L q = Some ai'"
    "deserialize_node ai' q (unat (offset a)) = Some dn"
    "nd_key dn = nd_key nd" "nd_val dn = nd_val nd" "nd_red dn = nd_red nd"
    "link_ok (nd_left dn) l (\<lambda>a. in_log L I a l)" "link_ok (nd_right dn) r (\<lambda>a. in_log L I a r)"
    unfolding in_log_Nd by blast
  have "link_ok (nd_left dn) l (\<lambda>a. in_log (L(p \<mapsto> ai)) I a l)"
    using D(7) Nd.IH(1) by (rule link_ok_mono)
  moreover have "link_ok (nd_right dn) r (\<lambda>a. in_log (L(p \<mapsto> ai)) I a r)"
    using D(8) Nd.IH(2) by (rule link_ok_mono)
  moreover have "q \<noteq> p" using D(2) assms(2) by auto
  ultimately show ?case
    unfolding in_log_Nd using D(1-6) by (intro exI [of _ q] exI [of _ ai'] exI [of _ dn]) simp
qed simp

lemma in_log_same_pos:
  assumes "resolve_pos I a = resolve_pos I b" and "offset a = offset b"
  shows "in_log L I a t = in_log L I b t"
  using assms by (cases t) (simp_all only: in_log.simps)

text \<open>Pointers that leave the delta lead, in the log, to the tree that they lead to in memory.\<close>

fun links_in_log ::
  "int \<Rightarrow> (u64 \<Rightarrow> ('k, 'v) after_image option) \<Rightarrow> (u64 \<Rightarrow> u64 option) \<Rightarrow> ('k, 'v) ntree \<Rightarrow> bool" where
  "links_in_log q L I Lf = True"
| "links_in_log q L I (Nd i nd a b) \<longleftrightarrow>
     (nd_rid nd = q \<longrightarrow>
        (a = Lf \<or> own_root q a \<or> (\<exists>x. np_addr (nd_left nd) = Some x \<and> in_log L I x a)) \<and>
        (b = Lf \<or> own_root q b \<or> (\<exists>x. np_addr (nd_right nd) = Some x \<and> in_log L I x b)) \<and>
        links_in_log q L I a \<and> links_in_log q L I b)"

lemma links_addressed: "links_in_log q L I t \<Longrightarrow> addressed q t"
  by (induction t) auto

lemma links_in_log_mono: "links_in_log q L I t \<Longrightarrow> L p = None \<Longrightarrow> links_in_log q (L(p \<mapsto> ai)) I t"
  by (induction t) (auto intro: in_log_mono)

lemma decode_ptr:
  assumes "\<forall>x y. i2a x = Some y \<longrightarrow> I x = Some y"
    and "c \<noteq> Lf \<Longrightarrow> own_root q c \<Longrightarrow>
      in_log L I \<lparr>position = p, offset = word_of_int off, is_afterimage = True\<rparr> c"
    and "c = Lf \<or> own_root q c \<or> (\<exists>x. np_addr ptr = Some x \<and> in_log L I x c)"
  shows "\<exists>dp. deserialize_ptr p (enc_ptr q i2a off c ptr) = Some dp \<and>
    link_ok dp c (\<lambda>a. in_log L I a c)"
proof (cases "c = Lf \<or> own_root q c")
  case True
  have "(ucast (word_of_int off :: 32 word) :: u16) = word_of_int off"
    by (rule bit_word_eqI) (simp add: bit_simps)
  then show ?thesis
    using True assms(2) by (auto simp: enc_ptr_def nil_pb_def self_pb_def deserialize_ptr_def
        SetAfterImageAddress_def link_ok_def Let_def)
next
  case False
  then obtain x where x: "np_addr ptr = Some x" "in_log L I x c" using assms(3) by auto
  have u: "(ucast (ucast (offset x) :: 32 word) :: u16) = offset x"
    by (rule bit_word_eqI) (simp add: bit_simps)
  show ?thesis
  proof (cases "if is_afterimage x then Some (position x) else i2a (position x)")
    case None
    then have "\<not> is_afterimage x" by (auto split: if_splits)
    then have "in_log L I \<lparr>position = position x, offset = offset x, is_afterimage = False\<rparr> c"
      using x(2) in_log_same_pos [of I x "\<lparr>position = position x, offset = offset x, is_afterimage = False\<rparr>" L c]
      by (simp add: resolve_pos_def)
    then show ?thesis
      using False x(1) None u by (auto simp: enc_ptr_def foreign_pb_def deserialize_ptr_def
          SetIntentionAddress_def link_ok_def Let_def)
  next
    case (Some y)
    then have "resolve_pos I x = Some y" using assms(1) by (auto simp: resolve_pos_def split: if_splits)
    then have "in_log L I \<lparr>position = y, offset = offset x, is_afterimage = True\<rparr> c"
      using x(2) in_log_same_pos [of I x "\<lparr>position = y, offset = offset x, is_afterimage = True\<rparr>" L c]
      by (simp add: resolve_pos_def)
    then show ?thesis
      using False x(1) Some u by (auto simp: enc_ptr_def foreign_pb_def deserialize_ptr_def
          SetAfterImageAddress_def link_ok_def Let_def)
  qed
qed

lemma decode_tree:
  assumes i2a: "\<forall>x y. i2a x = Some y \<longrightarrow> I x = Some y"
    and L: "L p = Some ai" and len: "length (ai_tree ai) \<le> 65536"
    and "ai_tree ai = pre @ enc_tree q i2a (int (length pre)) t @ post"
    and "links_in_log q L I t" and "own_root q t"
  shows "in_log L I \<lparr>position = p, offset = word_of_int (int (length pre) + int (osize q t) - 1),
    is_afterimage = True\<rparr> t"
  using assms(4-6)
proof (induction t arbitrary: pre post)
  case (Nd i nd a b)
  have own: "nd_rid nd = q" using Nd.prems(3) by simp
  let ?lo = "int (length pre) + int (osize q a) - 1"
  let ?ro = "int (length pre) + int (osize q a) + int (osize q b) - 1"
  let ?n = "\<lparr>pb_red = nd_red nd, pb_key = nd_key nd, pb_val = nd_val nd,
    pb_left = enc_ptr q i2a ?lo a (nd_left nd), pb_right = enc_ptr q i2a ?ro b (nd_right nd)\<rparr>"
  have split: "ai_tree ai = pre @ enc_tree q i2a (int (length pre)) a @
      enc_tree q i2a (int (length pre) + int (osize q a)) b @ ?n # post"
    using Nd.prems(1) own by simp
  have A: "in_log L I \<lparr>position = p, offset = word_of_int ?lo, is_afterimage = True\<rparr> a" if "own_root q a"
    using that Nd.prems(2) own split by (intro Nd.IH(1)) simp_all
  have B: "in_log L I \<lparr>position = p, offset = word_of_int ?ro, is_afterimage = True\<rparr> b" if "own_root q b"
  proof -
    have "in_log L I \<lparr>position = p, offset = word_of_int
        (int (length (pre @ enc_tree q i2a (int (length pre)) a)) + int (osize q b) - 1),
        is_afterimage = True\<rparr> b"
      using that Nd.prems(2) own split by (intro Nd.IH(2)) simp_all
    then show ?thesis by simp
  qed
  have links: "a = Lf \<or> own_root q a \<or> (\<exists>x. np_addr (nd_left nd) = Some x \<and> in_log L I x a)"
    "b = Lf \<or> own_root q b \<or> (\<exists>x. np_addr (nd_right nd) = Some x \<and> in_log L I x b)"
    using Nd.prems(2) own by auto
  let ?k = "length pre + osize q a + osize q b"
  have nth: "ai_tree ai ! ?k = ?n" "?k < length (ai_tree ai)"
    unfolding split by (simp_all add: nth_append)
  have off: "int (length pre) + int (osize q (Nd i nd a b)) - 1 = int ?k" using own by simp
  have unat: "unat (word_of_int (int ?k) :: u16) = ?k"
    using nth(2) len by (simp add: unsigned_of_nat take_bit_nat_eq_self del: of_nat_add)
  obtain dl where dl: "deserialize_ptr p (pb_left ?n) = Some dl" "link_ok dl a (\<lambda>x. in_log L I x a)"
    using decode_ptr [OF i2a A links(1)] by auto
  obtain dr where dr: "deserialize_ptr p (pb_right ?n) = Some dr" "link_ok dr b (\<lambda>x. in_log L I x b)"
    using decode_ptr [OF i2a B links(2)] by auto
  let ?dn = "\<lparr>nd_left = dl, nd_right = dr, nd_key = nd_key nd, nd_val = nd_val nd, nd_red = nd_red nd,
    nd_rid = sint (ai_intention ai), nd_read_only = False\<rparr>"
  have "deserialize_node ai p ?k = Some ?dn"
    using nth dl(1) dr(1) by (simp add: deserialize_node_def Let_def)
  then show ?case
    unfolding in_log_Nd off using L unat dl(2) dr(2)
    by (intro exI [of _ p] exI [of _ ai] exI [of _ ?dn]) (simp add: resolve_pos_def del: of_nat_add)
qed simp

section \<open>Switching the rid\<close>

lemma switch_rids_eq:
  assumes "distinct ns" and "if expect then r = sint pos else r < 0"
    and "\<forall>n \<in> set ns. \<exists>nd. nodes T n = Some nd \<and> nd_rid nd = r \<and> \<not> nd_read_only nd"
  shows "switch_rids expect pos ns T = Some (T\<lparr>nodes := (\<lambda>i.
    if i \<in> set ns then map_option (\<lambda>nd. nd\<lparr>nd_rid := sint pos\<rparr>) (nodes T i) else nodes T i)\<rparr>)"
  using assms
proof (induction ns arbitrary: T)
  case (Cons n ns)
  obtain nd where nd: "nodes T n = Some nd" "nd_rid nd = r" "\<not> nd_read_only nd"
    using Cons.prems(3) by auto
  let ?T = "put_node n (nd\<lparr>nd_rid := sint pos\<rparr>) T"
  have "switch_rids expect pos ns ?T = Some (?T\<lparr>nodes := (\<lambda>i.
      if i \<in> set ns then map_option (\<lambda>nd. nd\<lparr>nd_rid := sint pos\<rparr>) (nodes ?T i) else nodes ?T i)\<rparr>)"
    using Cons.prems by (intro Cons.IH) auto
  moreover have "?T\<lparr>nodes := (\<lambda>i.
      if i \<in> set ns then map_option (\<lambda>nd. nd\<lparr>nd_rid := sint pos\<rparr>) (nodes ?T i) else nodes ?T i)\<rparr> =
    T\<lparr>nodes := (\<lambda>i. if i \<in> set (n # ns) then map_option (\<lambda>nd. nd\<lparr>nd_rid := sint pos\<rparr>) (nodes T i)
       else nodes T i)\<rparr>"
    using Cons.prems(1) nd(1) by (auto simp: put_node_def intro!: arg_cong [of _ _ "\<lambda>N. T\<lparr>nodes := N\<rparr>"])
  ultimately show ?case
    using nd Cons.prems(2) by (auto simp: heap_simps set_rid_def upd_node_def)
qed simp

fun rerid :: "int \<Rightarrow> int \<Rightarrow> ('k, 'v) ntree \<Rightarrow> ('k, 'v) ntree" where
  "rerid r r' Lf = Lf"
| "rerid r r' (Nd i nd a b) =
     Nd i (if nd_rid nd = r then nd\<lparr>nd_rid := r'\<rparr> else nd) (rerid r r' a) (rerid r r' b)"

lemma rerid_shape [simp]:
  "tid (rerid r r' t) = tid t \<and> idset (rerid r r' t) = idset t \<and> same_tree (rerid r r' t) t \<and>
   dist (rerid r r' t) = dist t \<and> (rerid r r' t = Lf \<longleftrightarrow> t = Lf)"
  by (induction t) auto

text \<open>No node of the tree other than its own carries the new rid.\<close>

fun rid_unused :: "int \<Rightarrow> int \<Rightarrow> ('k, 'v) ntree \<Rightarrow> bool" where
  "rid_unused r r' Lf = True"
| "rid_unused r r' (Nd i nd a b) \<longleftrightarrow>
     (nd_rid nd = r \<or> nd_rid nd \<noteq> r') \<and> rid_unused r r' a \<and> rid_unused r r' b"

lemma rerid_own:
  assumes "rid_unused r r' t"
  shows "own_root r' (rerid r r' t) = own_root r t" and "osize r' (rerid r r' t) = osize r t"
  using assms by (induction t) auto

lemma same_tree_Lf: "same_tree t t' \<Longrightarrow> (t = Lf) = (t' = Lf)"
  by (cases t; cases t') auto

lemma in_log_same_tree: "same_tree t t' \<Longrightarrow> in_log L I a t = in_log L I a t'"
proof (induction t t' arbitrary: a rule: same_tree.induct)
  case (2 i nd l r t)
  then obtain j md l' r' where t: "t = Nd j md l' r'" by (cases t) auto
  have "(l = Lf) = (l' = Lf)" "(r = Lf) = (r' = Lf)"
    using "2.prems" t same_tree_Lf [of l l'] same_tree_Lf [of r r'] by simp_all
  then have "link_ok p l (\<lambda>a. in_log L I a l) = link_ok p l' (\<lambda>a. in_log L I a l')"
    "link_ok p r (\<lambda>a. in_log L I a r) = link_ok p r' (\<lambda>a. in_log L I a r')" for p
    using 2 t by (auto simp: link_ok_def split: option.splits)
  then show ?case using "2.prems" t by (simp add: in_log_Nd del: in_log.simps(2))
qed simp

lemma links_in_log_rerid:
  assumes "rid_unused r r' t" and "links_in_log r L I t"
  shows "links_in_log r' L I (rerid r r' t)"
  using assms
proof (induction t)
  case (Nd i nd a b)
  have s: "in_log L I x (rerid r r' c) = in_log L I x c" for x c
    by (rule in_log_same_tree) simp
  show ?case
    using Nd rerid_own(1) [of r r' a] rerid_own(1) [of r r' b] by (auto simp: s)
qed simp

section \<open>Writing an after image\<close>

text \<open>A tree object that has been written to and whose fresh nodes are what they should be: nil is not
  among them (see the deletion of the last entry) and no node is recorded twice.\<close>

definition ready :: "('k::linorder, 'v) ptree \<Rightarrow> ('k, 'v) ntree \<Rightarrow> bool" where
  "ready T t \<longleftrightarrow>
     denotes T t \<and> root T = Some (tid t) \<and> t \<noteq> Lf \<and> distinct (fresh_nodes T) \<and>
     Nil_id \<notin> set (fresh_nodes T)"

definition rid_switch_ok :: "bool \<Rightarrow> u64 \<Rightarrow> ('k, 'v) ptree \<Rightarrow> ('k, 'v) ntree \<Rightarrow> bool" where
  "rid_switch_ok expect pos T t \<longleftrightarrow>
     (if expect then rid T = sint pos else rid T < 0) \<and> rid_unused (rid T) (sint pos) t \<and>
     sint pos \<noteq> int64_min"

lemma infect_ready:
  fixes T :: "('k::linorder, 'v) ptree"
  assumes rdy: "ready T t" and sw: "rid_switch_ok expect pos T t"
  shows "\<exists>T1. infect_self_pointers pos expect T = Some (Some (int (osize (rid T) t) - 1), T1) \<and>
    rid T1 = sint pos \<and> root T1 = Some (tid t) \<and> nil_foreign T1 \<and> own_root (rid T) t \<and>
    tree_at (nodes T1) (infect_tree (sint pos) pos 0 (rerid (rid T) (sint pos) t))"
proof -
  have D: "denotes T t" "root T = Some (tid t)" "t \<noteq> Lf" "distinct (fresh_nodes T)"
    "Nil_id \<notin> set (fresh_nodes T)" using rdy by (simp_all add: ready_def)
  have wf: "wft T" and tree: "tree_at (nodes T) t" and srt: "skeys (inorder t)"
    using D(1) by (simp_all add: denotes_def)
  have own: "i \<in> set (fresh_nodes T) \<longleftrightarrow> (\<exists>nd. nodes T i = Some nd \<and> nd_rid nd = rid T)" for i
    using wf_fresh [OF wf, of i] wf_fresh_own [OF wf, of i] D(5) by metis
  let ?N = "\<lambda>i. if i \<in> set (fresh_nodes T) then map_option (\<lambda>nd. nd\<lparr>nd_rid := sint pos\<rparr>) (nodes T i)
    else nodes T i"
  let ?T = "T\<lparr>nodes := ?N, rid := sint pos\<rparr>"
  have "\<forall>n \<in> set (fresh_nodes T). \<exists>nd. nodes T n = Some nd \<and> nd_rid nd = rid T \<and> \<not> nd_read_only nd"
    using own wf_writable [OF wf] by blast
  then have S: "switch_rids expect pos (fresh_nodes T) T = Some (T\<lparr>nodes := ?N\<rparr>)"
    using D(4) sw by (intro switch_rids_eq [of _ _ "rid T"]) (auto simp: rid_switch_ok_def)
  have t1: "tree_at ?N (rerid (rid T) (sint pos) u)" if "tree_at (nodes T) u" for u
    using that
  proof (induction u)
    case (Nd i nd a b)
    then have "i \<in> set (fresh_nodes T) \<longleftrightarrow> nd_rid nd = rid T" using own [of i] by auto
    then show ?case using Nd by simp
  qed simp
  obtain nd0 where "nodes T Nil_id = Some nd0" "is_nil_node nd0" using wf_nil [OF wf] by blast
  then have nf: "nil_foreign ?T"
    using D(5) sw by (auto simp: nil_foreign_def is_nil_node_def rid_switch_ok_def)
  have o: "own_root (rid T) t"
    using D(1-3) tree by (cases t) (auto simp: denotes_def owns_def)
  have dist: "dist (rerid (rid T) (sint pos) t)" using skeys_dist [OF tree srt] by simp
  have ru: "rid_unused (rid T) (sint pos) t" using sw by (simp add: rid_switch_ok_def)
  obtain T1 where I: "infect_after_image (tid t) pos 0 ?T = Some (int (osize (rid T) t), T1)"
    "only_nodes ?T T1 (idset t)"
    "tree_at (nodes T1) (infect_tree (sint pos) pos 0 (rerid (rid T) (sint pos) t))"
    using infect_after_image_tree [OF nf _ dist, of pos 0] t1 [OF tree] rerid_own(2) [OF ru] by auto
  note m = only_nodes_members [OF I(2)]
  have g: "\<exists>x. get_rid (tid t) ?T = Some x \<and> (tid t = Nil_id \<or> x = sint pos)"
    using get_rid_tree [OF nf, of "rerid (rid T) (sint pos) t"] t1 [OF tree] rerid_own(1) [OF ru] o by auto
  have "infect_self_pointers pos expect T = Some (Some (int (osize (rid T) t) - 1), T1)"
    using S sw D(2) I(1) g osize_pos [OF o]
    by (auto simp: infect_self_pointers_def Let_def rid_switch_ok_def)
  moreover have "nil_foreign T1"
    using nf m zero_notin_idset [OF tree] by (simp add: nil_foreign_def)
  ultimately show ?thesis using m I(3) o D(2) by auto
qed

text \<open>What a reader of the log sees at the root of the after image.\<close>

lemma serialize_ready:
  fixes T1 :: "('k::linorder, 'v) ptree"
  assumes T1: "nil_foreign T1" "root T1 = Some (tid u)" "tree_at (nodes T1) (infect_tree (rid T1) pos 0 u)"
    and own: "own_root (rid T1) u" and size: "osize (rid T1) u \<le> 65536"
    and links: "links_in_log (rid T1) L I u" and i2a: "\<forall>x y. i2a x = Some y \<longrightarrow> I x = Some y"
    and p: "L p = None"
  shows "\<exists>ai. SerializeAfterImage i2a pos T1 = Some (ai, own_list (rid T1) u) \<and> ai_intention ai = pos \<and>
    length (ai_tree ai) = osize (rid T1) u \<and>
    in_log (L(p \<mapsto> ai)) I
      \<lparr>position = p, offset = word_of_int (int (osize (rid T1) u) - 1), is_afterimage = True\<rparr> u"
proof -
  let ?ai = "\<lparr>ai_intention = pos, ai_tree = enc_tree (rid T1) i2a 0 u\<rparr>"
  have "serialize_intention i2a T1 [] (tid u) 0 [] =
      Some (enc_tree (rid T1) i2a 0 u, int (osize (rid T1) u), own_list (rid T1) u)"
    using serialize_intention_tree [OF T1(1,3) links_addressed [OF links]] size by simp
  moreover have "\<exists>x. get_rid (tid u) T1 = Some x \<and> (tid u = Nil_id \<or> x = rid T1)"
    using get_rid_tree [OF T1(1,3)] own by auto
  ultimately have "SerializeAfterImage i2a pos T1 = Some (?ai, own_list (rid T1) u)"
    using T1(2) by (auto simp: SerializeAfterImage_def)
  moreover have "in_log (L(p \<mapsto> ?ai)) I \<lparr>position = p,
      offset = word_of_int (int (osize (rid T1) u) - 1), is_afterimage = True\<rparr> u"
    using size own links_in_log_mono [OF links p, of ?ai]
      decode_tree [OF i2a, where L = "L(p \<mapsto> ?ai)" and p = p and ai = ?ai and pre = "[]" and t = u and
        q = "rid T1" and post = "[]"]
    by simp
  ultimately show ?thesis by (intro exI [of _ ?ai]) simp
qed

section \<open>After image addresses in memory\<close>

lemma SetDeltaPosition_append:
  "SetDeltaPosition (xs @ ys) p T = Option.bind (SetDeltaPosition xs p T) (SetDeltaPosition ys p)"
  by (induction xs p T rule: SetDeltaPosition.induct) (auto split: Option.bind_splits)

lemma convert_ptr_eq:
  assumes "nil_foreign T" and "tree_at (nodes T) c" and "nodes T i = Some nd"
    and "np_ref (child d nd) = Some (tid c)" and "pos < p"
    and "own_root (rid T) c \<Longrightarrow> child d nd = addr_ptr False pos off q"
  shows "convert_ptr p d i T =
    Some (put_node i (if own_root (rid T) c then set_child d (addr_ptr True p off q) nd else nd) T)"
proof -
  obtain x where x: "get_rid (tid c) T = Some x" "tid c \<noteq> Nil_id \<and> x = rid T \<longleftrightarrow> own_root (rid T) c"
    "tid c = Nil_id \<or> x \<noteq> rid T \<longleftrightarrow> \<not> own_root (rid T) c"
    using get_rid_tree [OF assms(1,2)] by blast
  have nil: "tid c = Nil_id \<Longrightarrow> x \<noteq> rid T" using x(1) assms(1) by (auto simp: nil_foreign_def heap_simps)
  show ?thesis
  proof (cases "own_root (rid T) c")
    case True
    have "ConvertToAfterImage p (addr_ptr False pos off q) = Some (addr_ptr True p off q)"
      using assms(5) by (simp add: ConvertToAfterImage_def addr_ptr_def)
    then show ?thesis
      using True assms x by (simp add: convert_ptr_def heap_simps)
  next
    case False
    then have "x \<noteq> rid T" using x nil by auto
    then show ?thesis
      using False assms x by (simp add: convert_ptr_def heap_simps put_node_def fun_upd_idem)
  qed
qed

lemma set_delta_tree:
  fixes T :: "('k, 'v) ptree"
  assumes "nil_foreign T" and "tree_at (nodes T) (addr_tree False (rid T) pos f t)" and "dist t" and "pos < p"
  shows "\<exists>T'. SetDeltaPosition (own_list (rid T) t) p T = Some T' \<and> only_nodes T T' (idset t) \<and>
    tree_at (nodes T') (addr_tree True (rid T) p f t)"
  using assms
proof (induction t arbitrary: T f)
  case (Nd i nd a b)
  let ?r = "rid T" and ?f1 = "f + int (osize (rid T) a)"
  let ?f2 = "f + int (osize (rid T) a) + int (osize (rid T) b)"
  show ?case
  proof (cases "nd_rid nd = ?r")
    case True
    let ?nd = "addr_nd False ?r pos (?f1 - 1) (?f2 - 1) a b nd"
    have N: "nodes T i = Some ?nd" "i \<noteq> 0" "np_ref (nd_left nd) = Some (tid a)"
      "np_ref (nd_right nd) = Some (tid b)" "tree_at (nodes T) (addr_tree False ?r pos f a)"
      "tree_at (nodes T) (addr_tree False ?r pos ?f1 b)" "dist a" "dist b" "i \<notin> idset a" "i \<notin> idset b"
      "idset a \<inter> idset b = {}"
      using Nd.prems(2,3) True by auto
    have z: "0 \<notin> idset a" "0 \<notin> idset b" using zero_notin_idset [OF N(5)] zero_notin_idset [OF N(6)] by auto
    obtain T1 where A: "SetDeltaPosition (own_list ?r a) p T = Some T1" "only_nodes T T1 (idset a)"
      "tree_at (nodes T1) (addr_tree True ?r p f a)"
      using Nd.IH(1) [OF Nd.prems(1) N(5,7) Nd.prems(4)] by blast
    note m1 = only_nodes_members [OF A(2)]
    have 1: "nil_foreign T1" "tree_at (nodes T1) (addr_tree False ?r pos ?f1 b)" "nodes T1 i = Some ?nd"
      using Nd.prems(1) m1 N z tree_at_only [OF A(2), of "addr_tree False ?r pos ?f1 b"]
      by (auto simp: nil_foreign_def)
    obtain T2 where B: "SetDeltaPosition (own_list ?r b) p T1 = Some T2" "only_nodes T1 T2 (idset b)"
      "tree_at (nodes T2) (addr_tree True ?r p ?f1 b)"
      using Nd.IH(2) [of T1 ?f1] 1 N(8) Nd.prems(4) m1 by auto
    note m2 = only_nodes_members [OF B(2)]
    have 2: "nil_foreign T2" "tree_at (nodes T2) (addr_tree True ?r p f a)" "nodes T2 i = Some ?nd"
      using 1 m1 m2 N z A(3) tree_at_only [OF B(2), of "addr_tree True ?r p f a"]
      by (auto simp: nil_foreign_def)
    let ?nd1 = "if own_root ?r a then set_child DL (addr_ptr True p (?f1 - 1) (nd_left nd)) ?nd else ?nd"
    let ?nd2 = "addr_nd True ?r p (?f1 - 1) (?f2 - 1) a b nd"
    have c1: "convert_ptr p DL i T2 = Some (put_node i ?nd1 T2)"
      using convert_ptr_eq [OF 2(1,2,3), of DL pos p "?f1 - 1" "nd_left nd"] N m1 m2 Nd.prems(4)
      by (simp add: addr_nd_def)
    have 3: "nil_foreign (put_node i ?nd1 T2)"
      "tree_at (nodes (put_node i ?nd1 T2)) (addr_tree True ?r p ?f1 b)"
      using 2 B(3) N(2,10) by (auto simp: nil_foreign_def)
    have c2: "convert_ptr p DR i (put_node i ?nd1 T2) = Some (put_node i ?nd2 T2)"
      using convert_ptr_eq [OF 3, of i ?nd1 DR pos p "?f2 - 1" "nd_right nd"] N m1 m2 Nd.prems(4)
      by (auto simp: addr_nd_def put_node_def)
    have "SetDeltaPosition (own_list ?r (Nd i nd a b)) p T = Some (put_node i ?nd2 T2)"
      using True A(1) B(1) c1 c2 by (simp add: SetDeltaPosition_append)
    moreover have "only_nodes T (put_node i ?nd2 T2) (idset (Nd i nd a b))"
      using only_nodes_trans [OF only_nodes_trans [OF A(2) B(2)] only_nodes_put [of T2 i ?nd2]]
      by (simp add: insert_commute Un_commute)
    moreover have "tree_at (nodes (put_node i ?nd2 T2)) (addr_tree True ?r p f (Nd i nd a b))"
      using 2(2) B(3) N True by simp
    ultimately show ?thesis by blast
  qed (use Nd in simp)
qed simp

text \<open>In the tree with after image addresses every pointer of a delta node leads, through the log, to the
  tree it leads to in memory.\<close>

fun all_links ::
  "int \<Rightarrow> (u64 \<Rightarrow> ('k, 'v) after_image option) \<Rightarrow> (u64 \<Rightarrow> u64 option) \<Rightarrow> ('k, 'v) ntree \<Rightarrow> bool" where
  "all_links q L I Lf = True"
| "all_links q L I (Nd i nd a b) \<longleftrightarrow>
     (nd_rid nd = q \<longrightarrow>
        (a = Lf \<or> (\<exists>x. np_addr (nd_left nd) = Some x \<and> in_log L I x a)) \<and>
        (b = Lf \<or> (\<exists>x. np_addr (nd_right nd) = Some x \<and> in_log L I x b)) \<and>
        all_links q L I a \<and> all_links q L I b)"

lemma all_links_delta:
  assumes i2a: "\<forall>x y. i2a x = Some y \<longrightarrow> I x = Some y"
    and L: "L p = Some ai" and len: "length (ai_tree ai) \<le> 65536"
    and "ai_tree ai = pre @ enc_tree q i2a (int (length pre)) t @ post" and "links_in_log q L I t"
  shows "all_links q L I (addr_tree True q p (int (length pre)) t)"
  using assms(4,5)
proof (induction t arbitrary: pre post)
  case (Nd i nd a b)
  show ?case
  proof (cases "nd_rid nd = q")
    case True
    let ?f1 = "int (length pre) + int (osize q a)"
    let ?pre = "pre @ enc_tree q i2a (int (length pre)) a"
    have split: "\<exists>n. ai_tree ai = pre @ enc_tree q i2a (int (length pre)) a @
        enc_tree q i2a (int (length ?pre)) b @ n # post"
      using Nd.prems(1) True by simp
    then obtain n where n: "ai_tree ai = pre @ enc_tree q i2a (int (length pre)) a @
        (enc_tree q i2a (int (length ?pre)) b @ n # post)"
      "ai_tree ai = ?pre @ enc_tree q i2a (int (length ?pre)) b @ n # post" by auto
    have K: "links_in_log q L I a" "links_in_log q L I b" using Nd.prems(2) True by auto
    have s: "in_log L I x (addr_tree h q p f c) = in_log L I x c" for x h f c
      by (rule in_log_same_tree) simp
    have "all_links q L I (addr_tree True q p (int (length pre)) a)" using n(1) K(1) by (rule Nd.IH(1))
    moreover have "all_links q L I (addr_tree True q p ?f1 b)" using Nd.IH(2) [OF n(2) K(2)] by simp
    moreover have "own_root q a \<Longrightarrow>
        in_log L I \<lparr>position = p, offset = word_of_int (?f1 - 1), is_afterimage = True\<rparr> a"
      using decode_tree [OF i2a L len n(1) K(1)] by simp
    moreover have "own_root q b \<Longrightarrow> in_log L I
        \<lparr>position = p, offset = word_of_int (?f1 + int (osize q b) - 1), is_afterimage = True\<rparr> b"
      using decode_tree [OF i2a L len n(2) K(2)] by simp
    ultimately show ?thesis
      using True Nd.prems(2) by (auto simp: addr_nd_def addr_ptr_def s)
  qed simp
qed simp

section \<open>Fresh nodes are recorded once\<close>

lemma cow_step_distinct:
  "cow_step T T' \<Longrightarrow> wft T \<Longrightarrow> distinct (filter (\<lambda>i. i \<noteq> Nil_id) (fresh_nodes T)) \<Longrightarrow>
   distinct (filter (\<lambda>i. i \<noteq> Nil_id) (fresh_nodes T'))"
proof (induction rule: cow_step.induct)
  case (fresh_node nd T)
  have "next_node T \<notin> set (fresh_nodes T)"
    using wf_fresh_own [OF fresh_node.prems(1), of "next_node T"] wf_next [OF fresh_node.prems(1)] by auto
  then show ?case using fresh_node by simp
qed simp_all

lemma cow_distinct:
  assumes "cow T T'" and "wft T" and "distinct (filter (\<lambda>i. i \<noteq> Nil_id) (fresh_nodes T))"
  shows "distinct (filter (\<lambda>i. i \<noteq> Nil_id) (fresh_nodes T'))"
  using assms
proof (induction rule: rtranclp_induct)
  case (step T1 T2)
  then show ?case using cow_step_distinct [OF step(2) cow_wf [OF step(1)]] by simp
qed simp

text \<open>A read-only node among the fresh nodes makes the switch of the rids fail.\<close>

lemma switch_rids_read_only:
  assumes "n \<in> set ns" and "nodes T n = Some nd" and "nd_read_only nd"
  shows "switch_rids expect pos ns T = None"
  using assms
proof (induction ns arbitrary: T)
  case (Cons m ns)
  show ?case
  proof (cases "m = n")
    case True
    then show ?thesis using Cons.prems by (simp add: heap_simps set_rid_def)
  next
    case False
    then have "switch_rids expect pos ns T' = None" if "set_rid m (sint pos) T = Some T'" for T'
      using Cons that by (intro Cons.IH) (auto simp: set_rid_def upd_node_def split: if_splits option.splits)
    then show ?thesis by (auto split: Option.bind_splits)
  qed
qed simp

section \<open>A sample transaction\<close>

text \<open>Two new nodes, with the keys 20 and 10, above a node of the after image at position 7.\<close>

definition ai_sample :: "(int, string) after_image" where
  "ai_sample = \<lparr>ai_intention = 6, ai_tree = [\<lparr>pb_red = True, pb_key = 30, pb_val = ''c'', pb_left = nil_pb,
     pb_right = nil_pb\<rparr>]\<rparr>"

definition own_sample :: "nat \<Rightarrow> nat \<Rightarrow> int \<Rightarrow> string \<Rightarrow> bool \<Rightarrow> (int, string) node" where
  "own_sample l r k v c =
     \<lparr>nd_left = \<lparr>np_ref = Some l, np_addr = None\<rparr>,
      nd_right = \<lparr>np_ref = Some r, np_addr = Some \<lparr>position = 7, offset = 0, is_afterimage = True\<rparr>\<rparr>,
      nd_key = k, nd_val = v, nd_red = c, nd_rid = -1, nd_read_only = False\<rparr>"

definition txn_sample :: "(int, string) ptree" where
  "txn_sample =
     \<lparr>nodes = [0 \<mapsto> nil_sample, 3 \<mapsto> node_sample 0 0 30 ''c'' True, 4 \<mapsto> own_sample 5 3 20 ''b'' False,
               5 \<mapsto> own_sample 0 0 10 ''a'' True],
      next_node = 6, src_root = sptr 3, root = Some 4, rid = -1, intention = None, afterimage = None,
      fresh_nodes = [5, 4]\<rparr>"

definition txn_tree :: "(int, string) ntree" where
  "txn_tree =
     Nd 4 (own_sample 5 3 20 ''b'' False) (Nd 5 (own_sample 0 0 10 ''a'' True) Lf Lf)
       (Nd 3 (node_sample 0 0 30 ''c'' True) Lf Lf)"

definition log_sample :: "u64 \<Rightarrow> (int, string) after_image option" where
  "log_sample = [7 \<mapsto> ai_sample]"

lemmas txn_sample_defs =
  txn_sample_def txn_tree_def own_sample_def node_sample_def nil_sample_def

lemma txn_sample_ready: "ready txn_sample txn_tree"
proof -
  have "wft txn_sample"
    by (auto simp: wft_def txn_sample_defs is_nil_node_def int64_min_def child_if split: if_splits)
  moreover have "rbt txn_tree"
    unfolding rbt_def by (auto simp: txn_sample_defs intro!: exI [of _ 1])
  ultimately show ?thesis
    by (auto simp: ready_def denotes_def base_root_def txn_sample_defs owns_def)
qed

lemma txn_sample_switch: "rid_switch_ok False 9 txn_sample txn_tree"
  by (simp add: rid_switch_ok_def txn_sample_defs int64_min_def)

lemma txn_sample_links: "links_in_log (rid txn_sample) log_sample (\<lambda>_. None) txn_tree"
  by (simp add: txn_sample_defs log_sample_def ai_sample_def resolve_pos_def deserialize_node_def
      deserialize_ptr_def nil_pb_def link_ok_def)

section \<open>Properties\<close>



text \<open>C10: after \<^verbatim>\<open>SetDeltaPosition\<close> with the position of the after image, which lies behind the intention,
  every pointer of a new node that is not nil has an address that decodes to the subtree it points to:
  memory may be dropped and read back from the log.\<close>

theorem delta_positions_correct:
  assumes "ready T t" and "rid_switch_ok expect pos T t" and "osize (rid T) t \<le> 65536"
    and "links_in_log (rid T) L I t" and "\<forall>x y. i2a x = Some y \<longrightarrow> I x = Some y" and "L p = None"
    and "pos < p"
  shows "\<exists>off T1 ai delta T2 t2. infect_self_pointers pos expect T = Some (off, T1) \<and>
    SerializeAfterImage i2a pos T1 = Some (ai, delta) \<and> SetDeltaPosition delta p T1 = Some T2 \<and>
    root T2 = Some (tid t2) \<and> tree_at (nodes T2) t2 \<and> same_tree t2 t \<and>
    all_links (rid T2) (L(p \<mapsto> ai)) I t2"
proof -
  let ?u = "rerid (rid T) (sint pos) t"
  have ru: "rid_unused (rid T) (sint pos) t" using assms(2) by (simp add: rid_switch_ok_def)
  obtain T1 where T1: "infect_self_pointers pos expect T = Some (Some (int (osize (rid T) t) - 1), T1)"
    "rid T1 = sint pos" "root T1 = Some (tid t)" "nil_foreign T1" "own_root (rid T) t"
    "tree_at (nodes T1) (infect_tree (rid T1) pos 0 ?u)"
    using infect_ready [OF assms(1,2)] by auto
  have lk: "links_in_log (rid T1) L I ?u" using links_in_log_rerid [OF ru assms(4)] T1(2) by simp
  let ?ai = "\<lparr>ai_intention = pos, ai_tree = enc_tree (rid T1) i2a 0 ?u\<rparr>"
  have sz: "osize (rid T1) ?u \<le> 65536" using rerid_own(2) [OF ru] T1(2) assms(3) by simp
  have "serialize_intention i2a T1 [] (tid ?u) 0 [] =
      Some (enc_tree (rid T1) i2a 0 ?u, int (osize (rid T1) ?u), own_list (rid T1) ?u)"
    using serialize_intention_tree [OF T1(4,6) links_addressed [OF lk]] sz by simp
  moreover have "\<exists>x. get_rid (tid ?u) T1 = Some x \<and> (tid ?u = Nil_id \<or> x = rid T1)"
    using get_rid_tree [OF T1(4,6)] T1(2,5) rerid_own(1) [OF ru] by auto
  ultimately have S: "SerializeAfterImage i2a pos T1 = Some (?ai, own_list (rid T1) ?u)"
    using T1(3) by (auto simp: SerializeAfterImage_def)
  have "wft T" "tree_at (nodes T) t" "skeys (inorder t)"
    using assms(1) by (auto simp: ready_def denotes_def)
  then have dist: "dist ?u" using skeys_dist by simp
  obtain T2 where T2: "SetDeltaPosition (own_list (rid T1) ?u) p T1 = Some T2"
    "only_nodes T1 T2 (idset ?u)" "tree_at (nodes T2) (addr_tree True (rid T1) p 0 ?u)"
    using set_delta_tree [OF T1(4,6) dist assms(7)] by blast
  let ?t2 = "addr_tree True (rid T1) p 0 ?u"
  have "all_links (rid T1) (L(p \<mapsto> ?ai)) I ?t2"
    using all_links_delta [OF assms(5), where L = "L(p \<mapsto> ?ai)" and p = p and ai = ?ai and pre = "[]" and
        q = "rid T1" and t = ?u and post = "[]"] sz links_in_log_mono [OF lk assms(6), of ?ai] by simp
  moreover have "same_tree ?t2 t"
  proof -
    have "same_tree x y \<Longrightarrow> same_tree y z \<Longrightarrow> same_tree x z" for x y z :: "('a, 'b) ntree"
      by (induction x arbitrary: y z) (auto split: ntree.splits)
    then show ?thesis by (meson addr_tree_shape rerid_shape)
  qed
  ultimately show ?thesis
    using T1(1,3) S T2(1,3) only_nodes_members [OF T2(2)]
    by (intro exI [of _ "Some (int (osize (rid T) t) - 1)"] exI [of _ T1] exI [of _ ?ai]
        exI [of _ "own_list (rid T1) ?u"] exI [of _ T2] exI [of _ ?t2]) simp
qed

theorem delta_positions_correct_witness:
  "\<exists>off T1 ai delta T2 t2. infect_self_pointers 9 False txn_sample = Some (off, T1) \<and>
    SerializeAfterImage (\<lambda>_. None) 9 T1 = Some (ai, delta) \<and> SetDeltaPosition delta 11 T1 = Some T2 \<and>
    root T2 = Some (tid t2) \<and> tree_at (nodes T2) t2 \<and> same_tree t2 txn_tree \<and>
    all_links (rid T2) (log_sample(11 \<mapsto> ai)) (\<lambda>_. None) t2"
  by (rule delta_positions_correct [OF txn_sample_ready txn_sample_switch _ txn_sample_links])
    (simp_all add: txn_sample_defs log_sample_def)



text \<open>Node offsets are 16 bits wide. A pointer to a new node whose index is 65536 or more cannot be
  serialized: the assertion on the truncated offset fails.\<close>

theorem large_delta_offset_fails:
  assumes "np_ref p = Some q" and "q \<noteq> Nil_id" and "get_rid q T = Some (rid T)" and "65536 \<le> off"
  shows "serialize_node_ptr i2a (SetIntentionAddress pos (word_of_int off) p) off T = None"
proof -
  have "uint (word_of_int off :: u16) < 65536"
    using uint_lt2p [of "word_of_int off :: u16"] by simp
  then show ?thesis
    using assms by (simp add: serialize_node_ptr_def SetIntentionAddress_def del: uint_word_of_int_eq)
qed

end
