(* ===== verification/LruCache.thy ===== *)
theory LruCache
  imports Prelude
begin

text \<open>
  The cache of \<^verbatim>\<open>src/db/lru_cache.hpp\<close>: a map with a list of its keys, most recently used first. The list
  iterator that the map keeps for every key is the position of that key in the list, which holds each
  key once; comparing it with \<^verbatim>\<open>m_list.begin()\<close> is comparing the key with the first element. The map is an
  association list, whose order has no meaning.

  The locale \<open>lookup_cache\<close> is what the users of a cache rely on: reading does not change what is stored,
  and inserting loses entries but never changes one.
\<close>

record ('k, 'v) lru_cache =
  m_map :: "('k \<times> 'v) list"
  m_list :: "'k list"
  m_capacity :: nat

definition new_lru :: "nat \<Rightarrow> ('k, 'v) lru_cache" where
  "new_lru c = \<lparr>m_map = [], m_list = [], m_capacity = c\<rparr>"

definition lru_size :: "('k, 'v) lru_cache \<Rightarrow> nat" where
  "lru_size C = length (m_map C)"

definition lru_empty :: "('k, 'v) lru_cache \<Rightarrow> bool" where
  "lru_empty C \<longleftrightarrow> m_map C = []"

definition lru_contains :: "'k \<Rightarrow> ('k, 'v) lru_cache \<Rightarrow> bool" where
  "lru_contains k C \<longleftrightarrow> map_of (m_map C) k \<noteq> None"

text \<open>\<^verbatim>\<open>evict\<close> steps back from the end of the list, which is undefined when the list is empty (a cache of
  capacity 0).\<close>

definition evict :: "('k, 'v) lru_cache \<Rightarrow> ('k, 'v) lru_cache option" where
  "evict C =
     (if m_list C = [] then None
      else Some (C\<lparr>m_map := filter (\<lambda>p. fst p \<noteq> last (m_list C)) (m_map C),
                   m_list := butlast (m_list C)\<rparr>))"

definition lru_insert :: "'k \<Rightarrow> 'v \<Rightarrow> ('k, 'v) lru_cache \<Rightarrow> ('k, 'v) lru_cache option" where
  "lru_insert k v C =
     (case map_of (m_map C) k of
        Some _ \<Rightarrow> Some C
      | None \<Rightarrow> do {
          C \<leftarrow> (if lru_size C \<ge> m_capacity C then evict C else Some C);
          Some (C\<lparr>m_list := k # m_list C, m_map := (k, v) # m_map C\<rparr>) })"

definition lru_get :: "'k \<Rightarrow> ('k, 'v) lru_cache \<Rightarrow> 'v option \<times> ('k, 'v) lru_cache" where
  "lru_get k C =
     (case map_of (m_map C) k of
        None \<Rightarrow> (None, C)
      | Some v \<Rightarrow>
          (if take 1 (m_list C) \<noteq> [k]
           then (Some v, C\<lparr>m_list := k # remove1 k (m_list C)\<rparr>)
           else (Some v, C)))"

definition lru_clear :: "('k, 'v) lru_cache \<Rightarrow> ('k, 'v) lru_cache" where
  "lru_clear C = C\<lparr>m_map := [], m_list := []\<rparr>"

section \<open>Invariant\<close>

definition lru_ok :: "('k, 'v) lru_cache \<Rightarrow> bool" where
  "lru_ok C \<longleftrightarrow>
     distinct (m_list C) \<and> distinct (map fst (m_map C)) \<and> set (m_list C) = fst ` set (m_map C) \<and>
     length (m_map C) \<le> m_capacity C \<and> 0 < m_capacity C"

abbreviation lru_lookup :: "('k, 'v) lru_cache \<Rightarrow> 'k \<Rightarrow> 'v option" where
  "lru_lookup C \<equiv> map_of (m_map C)"

lemma lru_length: "lru_ok C \<Longrightarrow> length (m_list C) = length (m_map C)"
  unfolding lru_ok_def by (metis distinct_card length_map list.set_map)

lemma map_of_filter_neq: "map_of (filter (\<lambda>p. fst p \<noteq> k) ps) = (map_of ps)(k := None)"
  by (induction ps) auto

lemma lru_ok_new: "0 < c \<Longrightarrow> lru_ok (new_lru c)"
  by (simp add: lru_ok_def new_lru_def)

lemma lru_get_ok:
  assumes "lru_ok C"
  shows "lru_ok (snd (lru_get k C)) \<and> fst (lru_get k C) = lru_lookup C k \<and>
    lru_lookup (snd (lru_get k C)) = lru_lookup C"
proof (cases "map_of (m_map C) k")
  case (Some v)
  then have "k \<in> set (m_list C)"
    using assms by (auto simp: lru_ok_def dest: map_of_SomeD intro: rev_image_eqI)
  then show ?thesis using assms Some by (auto simp: lru_get_def lru_ok_def)
qed (use assms in \<open>simp add: lru_get_def\<close>)

lemma evict_ok:
  assumes "lru_ok C" and "m_map C \<noteq> []"
  shows "\<exists>C'. evict C = Some C' \<and> lru_ok C' \<and> length (m_map C') < m_capacity C' \<and>
    m_capacity C' = m_capacity C \<and> m_list C' = butlast (m_list C) \<and>
    lru_lookup C' = (lru_lookup C)(last (m_list C) := None)"
proof -
  have ne: "m_list C \<noteq> []" using assms lru_length [OF assms(1)] by auto
  let ?k = "last (m_list C)"
  let ?C = "C\<lparr>m_map := filter (\<lambda>p. fst p \<noteq> ?k) (m_map C), m_list := butlast (m_list C)\<rparr>"
  have "m_list C = butlast (m_list C) @ [?k]" using ne by simp
  then have b: "distinct (butlast (m_list C))" "?k \<notin> set (butlast (m_list C))"
    "set (m_list C) = insert ?k (set (butlast (m_list C)))"
    using assms(1) unfolding lru_ok_def by (metis distinct_append distinct_butlast, metis distinct_append
        disjoint_insert(1) list.simps(15), metis (no_types) Un_insert_right list.simps(15) set_append sup_bot_right list.set(1))
  have "?k \<in> fst ` set (m_map C)" using assms(1) ne by (auto simp: lru_ok_def)
  then have "length (filter (\<lambda>p. fst p \<noteq> ?k) (m_map C)) < length (m_map C)"
    by (auto intro: length_filter_less)
  moreover have "set (butlast (m_list C)) = fst ` set (filter (\<lambda>p. fst p \<noteq> ?k) (m_map C))"
  proof -
    have "set (butlast (m_list C)) = fst ` set (m_map C) - {?k}"
      using b assms(1) by (auto simp: lru_ok_def)
    then show ?thesis by (auto simp: image_iff)
  qed
  moreover have "distinct (map fst (filter (\<lambda>p. fst p \<noteq> ?k) (m_map C)))"
    using assms(1) by (simp add: lru_ok_def distinct_map_filter)
  ultimately show ?thesis
    using assms ne b(1) by (intro exI [of _ ?C]) (auto simp: evict_def lru_ok_def map_of_filter_neq)
qed

lemma lru_insert_ok:
  assumes "lru_ok C"
  shows "\<exists>C'. lru_insert k v C = Some C' \<and> lru_ok C' \<and> m_capacity C' = m_capacity C \<and>
    (case lru_lookup C k of
       Some _ \<Rightarrow> C' = C
     | None \<Rightarrow> lru_lookup C' = (if length (m_map C) < m_capacity C then lru_lookup C
                                else (lru_lookup C)(last (m_list C) := None))(k \<mapsto> v))"
proof (cases "lru_lookup C k")
  case (Some w)
  then show ?thesis using assms by (simp add: lru_insert_def)
next
  case None
  then have new: "k \<notin> fst ` set (m_map C)" by (simp add: map_of_eq_None_iff)
  show ?thesis
  proof (cases "length (m_map C) < m_capacity C")
    case True
    then show ?thesis
      using assms None new by (auto simp: lru_insert_def lru_size_def lru_ok_def)
  next
    case False
    then have "m_map C \<noteq> []" using assms by (auto simp: lru_ok_def)
    then obtain C1 where C1: "evict C = Some C1" "lru_ok C1" "length (m_map C1) < m_capacity C1"
      "m_capacity C1 = m_capacity C" "lru_lookup C1 = (lru_lookup C)(last (m_list C) := None)"
      using evict_ok [OF assms] by auto
    have "lru_lookup C1 k = None" using None C1(5) by simp
    then have "k \<notin> fst ` set (m_map C1)" by (simp add: map_of_eq_None_iff)
    then show ?thesis
      using C1 None False by (auto simp: lru_insert_def lru_size_def lru_ok_def)
  qed
qed

section \<open>Recency\<close>

text \<open>The specification of least-recently-used replacement: a list of all keys ever used, the most recent
  use first. The cache holds the first \<^verbatim>\<open>m_capacity\<close> of them.\<close>

definition touch :: "'k \<Rightarrow> 'k list \<Rightarrow> 'k list" where
  "touch k h = k # removeAll k h"

definition recency :: "'k list \<Rightarrow> ('k, 'v) lru_cache \<Rightarrow> bool" where
  "recency h C \<longleftrightarrow> lru_ok C \<and> distinct h \<and> m_list C = take (m_capacity C) h"

lemma take_removeAll_less:
  assumes "k \<notin> set (take (Suc n) h)"
  shows "take n (removeAll k h) = take n h"
  using assms by (induction h arbitrary: n) (auto simp: take_Cons split: nat.splits if_splits)

lemma take_touch_hit:
  assumes "k \<in> set (take n h)" and "distinct h"
  shows "take n (touch k h) = k # remove1 k (take n h)"
  using assms
proof (induction h arbitrary: n)
  case (Cons x h)
  then obtain m where n: "n = Suc m" by (cases n) auto
  show ?case
  proof (cases "x = k")
    case True
    then show ?thesis using Cons.prems n by (simp add: touch_def)
  next
    case False
    then have k: "k \<in> set (take m h)" using Cons.prems n by simp
    have IH: "take m (touch k h) = k # remove1 k (take m h)" using Cons.IH [OF k] Cons.prems by simp
    obtain j where m: "m = Suc j" using k by (cases m) auto
    show ?thesis using False IH n m by (simp add: touch_def)
  qed
qed simp

lemma recency_get:
  assumes "recency h C"
  shows "recency (if lru_lookup C k = None then h else touch k h) (snd (lru_get k C))"
proof (cases "lru_lookup C k")
  case (Some v)
  have R: "lru_ok C" "distinct h" "m_list C = take (m_capacity C) h" using assms by (simp_all add: recency_def)
  have k: "k \<in> set (m_list C)"
    using R(1) Some by (auto simp: lru_ok_def dest: map_of_SomeD intro: rev_image_eqI)
  have "m_list (snd (lru_get k C)) = k # remove1 k (m_list C)"
    using k Some by (cases "m_list C") (auto simp: lru_get_def)
  then have "m_list (snd (lru_get k C)) = take (m_capacity C) (touch k h)"
    using take_touch_hit [of k "m_capacity C" h] k R by simp
  moreover have "m_capacity (snd (lru_get k C)) = m_capacity C" using Some by (simp add: lru_get_def)
  moreover have "distinct (touch k h)" using R(2) by (simp add: touch_def distinct_removeAll)
  ultimately show ?thesis using lru_get_ok [OF R(1), of k] Some by (simp add: recency_def)
qed (use assms in \<open>simp add: lru_get_def\<close>)

lemma recency_insert:
  assumes "recency h C" and "lru_insert k v C = Some C'"
  shows "recency (if lru_lookup C k = None then touch k h else h) C'"
proof (cases "lru_lookup C k")
  case None
  have R: "lru_ok C" "distinct h" "m_list C = take (m_capacity C) h" using assms by (simp_all add: recency_def)
  have ok: "lru_ok C'" "m_capacity C' = m_capacity C" using lru_insert_ok [OF R(1), of k v] assms(2) by auto
  obtain n where n: "m_capacity C = Suc n" using R(1) by (cases "m_capacity C") (auto simp: lru_ok_def)
  have "k \<notin> fst ` set (m_map C)" using None by (simp add: map_of_eq_None_iff)
  then have k: "k \<notin> set (take (Suc n) h)" using R(1,3) n by (auto simp: lru_ok_def)
  have len: "length (m_map C) = min (length h) (Suc n)" using lru_length [OF R(1)] R(3) n by simp
  have "m_list C' = take (m_capacity C) (touch k h)"
  proof (cases "length h \<le> n")
    case True
    then have "m_list C' = k # h"
      using assms(2) None len n R(3) by (auto simp: lru_insert_def lru_size_def)
    moreover have "removeAll k h = h" using k True by (intro removeAll_id) simp
    ultimately show ?thesis using True n by (simp add: touch_def)
  next
    case False
    then have "m_list C' = k # butlast (m_list C)"
      using assms(2) None len n R(3) by (auto simp: lru_insert_def lru_size_def evict_def split: if_splits)
    moreover have "butlast (take (Suc n) h) = take n h" using False by (simp add: butlast_take)
    ultimately show ?thesis using take_removeAll_less [OF k] R(3) n by (simp add: touch_def)
  qed
  then show ?thesis
    using ok R(2) None by (simp add: recency_def touch_def distinct_removeAll)
qed (use assms in \<open>simp add: lru_insert_def\<close>)

section \<open>The contract\<close>

locale lookup_cache =
  fixes ok :: "'c \<Rightarrow> bool" and lookup :: "'c \<Rightarrow> 'k \<Rightarrow> 'v option"
    and get :: "'k \<Rightarrow> 'c \<Rightarrow> 'v option \<times> 'c" and ins :: "'k \<Rightarrow> 'v \<Rightarrow> 'c \<Rightarrow> 'c option"
  assumes get_law: "ok c \<Longrightarrow>
      ok (snd (get k c)) \<and> fst (get k c) = lookup c k \<and> lookup (snd (get k c)) = lookup c"
    and ins_law: "ok c \<Longrightarrow> \<exists>c'. ins k v c = Some c' \<and> ok c' \<and>
      lookup c' k = Some (case lookup c k of None \<Rightarrow> v | Some w \<Rightarrow> w) \<and>
      (\<forall>j. j \<noteq> k \<longrightarrow> lookup c' j = None \<or> lookup c' j = lookup c j)"
begin

text \<open>A cache that holds only values of a function stays so when such a value is inserted.\<close>

definition sound :: "('k \<Rightarrow> 'v option) \<Rightarrow> 'c \<Rightarrow> bool" where
  "sound f c \<longleftrightarrow> ok c \<and> (\<forall>k v. lookup c k = Some v \<longrightarrow> f k = Some v)"

lemma sound_get: "sound f c \<Longrightarrow> fst (get k c) = Some v \<Longrightarrow> f k = Some v"
  by (simp add: sound_def get_law)

lemma sound_after_get: "sound f c \<Longrightarrow> sound f (snd (get k c))"
  by (simp add: sound_def get_law)

lemma sound_ins:
  assumes "sound f c" and "f k = Some v"
  shows "\<exists>c'. ins k v c = Some c' \<and> sound f c' \<and> lookup c' k = Some v"
proof -
  have c: "ok c" "\<And>k v. lookup c k = Some v \<Longrightarrow> f k = Some v" using assms(1) by (auto simp: sound_def)
  obtain c' where i: "ins k v c = Some c'" "ok c'"
    "lookup c' k = Some (case lookup c k of None \<Rightarrow> v | Some w \<Rightarrow> w)"
    "\<forall>j. j \<noteq> k \<longrightarrow> lookup c' j = None \<or> lookup c' j = lookup c j"
    using ins_law [OF c(1), of k v] by blast
  have k: "lookup c' k = Some v" using i(3) c(2) [of k] assms(2) by (cases "lookup c k") auto
  have "f j = Some w" if "lookup c' j = Some w" for j w
  proof (cases "j = k")
    case False
    then have "lookup c j = Some w" using that i(4) by (metis option.distinct(1))
    then show ?thesis by (rule c(2))
  qed (use that k assms(2) in simp)
  then show ?thesis using i(1,2) k by (auto simp: sound_def)
qed

end

interpretation lru: lookup_cache lru_ok lru_lookup lru_get lru_insert
proof unfold_locales
  fix c :: "('k, 'v) lru_cache" and k v
  assume ok: "lru_ok c"
  show "lru_ok (snd (lru_get k c)) \<and> fst (lru_get k c) = lru_lookup c k \<and>
      lru_lookup (snd (lru_get k c)) = lru_lookup c"
    using lru_get_ok [OF ok] .
  obtain C' where "lru_insert k v c = Some C'" "lru_ok C'"
    "case lru_lookup c k of Some _ \<Rightarrow> C' = c
     | None \<Rightarrow> lru_lookup C' = (if length (m_map c) < m_capacity c then lru_lookup c
                                else (lru_lookup c)(last (m_list c) := None))(k \<mapsto> v)"
    using lru_insert_ok [OF ok, of k v] by blast
  then show "\<exists>c'. lru_insert k v c = Some c' \<and> lru_ok c' \<and>
      lru_lookup c' k = Some (case lru_lookup c k of None \<Rightarrow> v | Some w \<Rightarrow> w) \<and>
      (\<forall>j. j \<noteq> k \<longrightarrow> lru_lookup c' j = None \<or> lru_lookup c' j = lru_lookup c j)"
    by (intro exI [of _ C']) (auto split: option.splits)
qed

section \<open>Properties\<close>

text \<open>C12: least-recently-used replacement. If the cache holds the first \<^verbatim>\<open>m_capacity\<close> keys of the list of all
  keys ordered by their last use, so it does after a \<^verbatim>\<open>get\<close>, which uses the key when it is present, and
  after an \<^verbatim>\<open>insert\<close>, which completes and uses a key that was absent.\<close>

theorem lru_replacement:
  assumes "recency h C"
  shows "recency (if lru_lookup C k = None then h else touch k h) (snd (lru_get k C)) \<and>
    (\<exists>C'. lru_insert k v C = Some C' \<and> recency (if lru_lookup C k = None then touch k h else h) C' \<and>
       lru_lookup C' k = Some (case lru_lookup C k of None \<Rightarrow> v | Some w \<Rightarrow> w))"
proof -
  have ok: "lru_ok C" using assms by (simp add: recency_def)
  obtain C' where "lru_insert k v C = Some C'"
    "lru_lookup C' k = Some (case lru_lookup C k of None \<Rightarrow> v | Some w \<Rightarrow> w)"
    using lru.ins_law [OF ok, of k v] by blast
  then show ?thesis using recency_get [OF assms] recency_insert [OF assms] by blast
qed

theorem lru_replacement_witness:
  "\<exists>C'. lru_insert (3::nat) ''c'' \<lparr>m_map = [(1, ''a''), (2, ''b'')], m_list = [2, 1], m_capacity = 2\<rparr> =
     Some C' \<and> recency [3, 2, 1] C' \<and> lru_lookup C' 3 = Some ''c''"
  using lru_replacement [of "[2, 1]" "\<lparr>m_map = [(1, ''a''), (2, ''b'')], m_list = [2, 1], m_capacity = 2\<rparr>"
      "3::nat" "''c''"]
  by (auto simp: recency_def lru_ok_def touch_def)

end
