(* ===== verification/Intention.thy ===== *)
theory Intention
  imports AfterImageProps LruCache
begin

text \<open>
  Intentions (\<^verbatim>\<open>src/db/intention.h\<close>) and transactions (\<^verbatim>\<open>src/db/transaction_impl.cc\<close>). An intention is the
  record of the operations of a transaction that is appended to the log; a transaction runs its
  operations against a private copy-on-write tree and records them in its intention at the same time.
  Keys and values are strings, ordered as \<^verbatim>\<open>zlog::Slice::compare\<close> orders them: lexicographically by
  unsigned bytes.
\<close>

section \<open>Messages\<close>

datatype op_type = GET | PUT | DELETE | COPY

record tx_op =
  op_type :: op_type
  op_key :: string
  op_val :: "string option"

record pb_intention =
  i_snapshot :: u64
  i_token :: u64
  i_flush :: bool
  i_ops :: "tx_op list"

datatype log_entry = INTENTION pb_intention | AFTER_IMAGE "(string, string) after_image"

section \<open>Intention\<close>

record intention =
  int_msg :: pb_intention
  int_pos :: "u64 option"

definition new_intention :: "u64 \<Rightarrow> u64 \<Rightarrow> intention" where
  "new_intention snapshot token =
     \<lparr>int_msg = \<lparr>i_snapshot = snapshot, i_token = token, i_flush = False, i_ops = []\<rparr>, int_pos = None\<rparr>"

definition intention_at :: "pb_intention \<Rightarrow> u64 \<Rightarrow> intention" where
  "intention_at msg pos = \<lparr>int_msg = msg, int_pos = Some pos\<rparr>"

definition add_op :: "tx_op \<Rightarrow> intention \<Rightarrow> intention option" where
  "add_op p i =
     (if int_pos i \<noteq> None then None
      else Some (i\<lparr>int_msg := (int_msg i)\<lparr>i_ops := i_ops (int_msg i) @ [p]\<rparr>\<rparr>))"

definition int_Get :: "string \<Rightarrow> intention \<Rightarrow> intention option" where
  "int_Get key = add_op \<lparr>op_type = GET, op_key = key, op_val = None\<rparr>"

definition int_Put :: "string \<Rightarrow> string \<Rightarrow> intention \<Rightarrow> intention option" where
  "int_Put key val = add_op \<lparr>op_type = PUT, op_key = key, op_val = Some val\<rparr>"

definition int_Delete :: "string \<Rightarrow> intention \<Rightarrow> intention option" where
  "int_Delete key = add_op \<lparr>op_type = DELETE, op_key = key, op_val = None\<rparr>"

definition int_Copy :: "string \<Rightarrow> intention \<Rightarrow> intention option" where
  "int_Copy key = add_op \<lparr>op_type = COPY, op_key = key, op_val = None\<rparr>"

definition Flush :: "intention \<Rightarrow> bool" where
  "Flush i = i_flush (int_msg i)"

definition Snapshot :: "intention \<Rightarrow> u64" where
  "Snapshot i = i_snapshot (int_msg i)"

definition Token :: "intention \<Rightarrow> u64" where
  "Token i = i_token (int_msg i)"

text \<open>The loop of \<^verbatim>\<open>Serialize\<close> that looks for a mixture of copy and other operations.\<close>

fun copying_loop :: "tx_op list \<Rightarrow> bool option \<Rightarrow> bool option option" where
  "copying_loop [] copying = Some copying"
| "copying_loop (p # ps) copying =
     (if op_type p = COPY then
        let c = (case copying of None \<Rightarrow> True | Some c \<Rightarrow> c)
        in if \<not> c then None else copying_loop ps (Some c)
      else
        let c = (case copying of None \<Rightarrow> False | Some c \<Rightarrow> c)
        in if c then None else copying_loop ps (Some c))"

text \<open>\<^verbatim>\<open>Serialize\<close> returns the log entry; its encoding as bytes is protobuf's.\<close>

definition Serialize :: "intention \<Rightarrow> (log_entry \<times> intention) option" where
  "Serialize i =
     (if int_pos i \<noteq> None then None
      else do {
        copying \<leftarrow> copying_loop (i_ops (int_msg i)) None;
        c \<leftarrow> copying;
        let msg = (int_msg i)\<lparr>i_flush := c\<rparr>;
        Some (INTENTION msg, i\<lparr>int_msg := msg\<rparr>) })"

definition int_ops :: "intention \<Rightarrow> tx_op list option" where
  "int_ops i = (if int_pos i = None then None else Some (i_ops (int_msg i)))"

definition Position :: "intention \<Rightarrow> u64 option" where
  "Position i = int_pos i"

definition SetPosition :: "u64 \<Rightarrow> intention \<Rightarrow> intention option" where
  "SetPosition pos i = (if int_pos i \<noteq> None then None else Some (i\<lparr>int_pos := Some pos\<rparr>))"

definition OpKeys :: "intention \<Rightarrow> string set" where
  "OpKeys i = op_key ` set (i_ops (int_msg i))"

definition UpdateOpKeys :: "intention \<Rightarrow> string set" where
  "UpdateOpKeys i =
     op_key ` set (filter (\<lambda>p. op_type p = PUT \<or> op_type p = DELETE) (i_ops (int_msg i)))"

section \<open>Transaction\<close>

definition PREFIX_USER :: string where
  "PREFIX_USER = ''U''"

definition PREFIX_COMMITTED_INTENTION :: string where
  "PREFIX_COMMITTED_INTENTION = ''C''"

definition prefix_string :: "string \<Rightarrow> string \<Rightarrow> string" where
  "prefix_string prefix val = prefix @ [CHR 0x00] @ val"

text \<open>\<^verbatim>\<open>GetIntention\<close> and \<^verbatim>\<open>Tree\<close> move the members out of the transaction; a moved-out member is \<open>None\<close>.\<close>

record txn =
  token :: u64
  tree :: "(string, string) ptree option"
  txn_intention :: "intention option"
  committed :: bool

definition new_txn ::
  "(string, string) heap \<Rightarrow> node_ptr \<Rightarrow> u64 \<Rightarrow> int \<Rightarrow> u64 \<Rightarrow> txn option" where
  "new_txn H rt snapshot r tok =
     (if \<not> r < 0 then None
      else Some \<lparr>token = tok, tree = Some (new_ptree H rt r None),
                 txn_intention = Some (new_intention snapshot tok), committed = False\<rparr>)"

definition txn_Get :: "string \<Rightarrow> txn \<Rightarrow> ((errno + string) \<times> txn) option" where
  "txn_Get key x = do {
     T \<leftarrow> tree x;
     i \<leftarrow> txn_intention x;
     if committed x then None
     else do {
       i \<leftarrow> int_Get key i;
       r \<leftarrow> Get (prefix_string PREFIX_USER key) T;
       Some (r, x\<lparr>txn_intention := Some i\<rparr>) } }"

definition txn_Put_prefix :: "string \<Rightarrow> string \<Rightarrow> string \<Rightarrow> txn \<Rightarrow> txn option" where
  "txn_Put_prefix prefix key val x = do {
     T \<leftarrow> tree x;
     i \<leftarrow> txn_intention x;
     if committed x then None
     else do {
       let prefixed_key = prefix_string prefix key;
       i \<leftarrow> int_Put prefixed_key val i;
       T \<leftarrow> Put prefixed_key val T;
       Some (x\<lparr>txn_intention := Some i, tree := Some T\<rparr>) } }"

definition txn_Put :: "string \<Rightarrow> string \<Rightarrow> txn \<Rightarrow> txn option" where
  "txn_Put key val = txn_Put_prefix PREFIX_USER key val"

definition txn_Delete :: "string \<Rightarrow> txn \<Rightarrow> txn option" where
  "txn_Delete key x = do {
     T \<leftarrow> tree x;
     i \<leftarrow> txn_intention x;
     if committed x then None
     else do {
       i \<leftarrow> int_Delete key i;
       T \<leftarrow> Delete (prefix_string PREFIX_USER key) T;
       Some (x\<lparr>txn_intention := Some i, tree := Some T\<rparr>) } }"

definition GetIntention :: "txn \<Rightarrow> intention option \<times> txn" where
  "GetIntention x = (txn_intention x, x\<lparr>txn_intention := None\<rparr>)"

definition txn_Tree :: "txn \<Rightarrow> (string, string) ptree option \<times> txn" where
  "txn_Tree x = (tree x, x\<lparr>tree := None\<rparr>)"

text \<open>\<^verbatim>\<open>Commit\<close>: a read-only transaction is done; any other one is handed to the database, whose
  \<^verbatim>\<open>CompleteTransaction\<close> gives the result.\<close>

definition Commit :: "(txn \<Rightarrow> (bool \<times> txn) option) \<Rightarrow> txn \<Rightarrow> (bool \<times> txn) option" where
  "Commit complete x = do {
     T \<leftarrow> tree x;
     if committed x then None
     else do {
       let x = x\<lparr>committed := True\<rparr>;
       if ReadOnly T then Some (True, x) else complete x } }"

end
