(* ===== verification/IteratorImpl.thy ===== *)
theory IteratorImpl
  imports Intention
begin

text \<open>
  The iterators of \<^verbatim>\<open>src/db/iterator_impl.h\<close> and \<^verbatim>\<open>iterator_impl.cc\<close> over a snapshot. An iterator keeps a
  stack of nodes: the current node on top and below it the nodes still to be visited in the direction
  of travel. The heap and the root of the snapshot are arguments of the operations. The direction has
  no value until the first positioning call.
\<close>

section \<open>RawIteratorImpl\<close>

datatype direction = Forward | Reverse

record iter =
  it_stack :: "nat list"
  it_dir :: "direction option"

definition new_iter :: iter where
  "new_iter = \<lparr>it_stack = [], it_dir = None\<rparr>"

definition Valid :: "iter \<Rightarrow> bool" where
  "Valid it \<longleftrightarrow> it_stack it \<noteq> []"

text \<open>\<^verbatim>\<open>while (node != Node::Nil()) { stack_.push(node); node = node->left.ref(ta.trace); }\<close>, and the same to the
  right.\<close>

partial_function (option) push_spine ::
  "dir \<Rightarrow> nat \<Rightarrow> nat list \<Rightarrow> ('k, 'v, 'b) heap_scheme \<Rightarrow> nat list option" where
  "push_spine d n st H =
     (if n = Nil_id then Some st
      else do { c \<leftarrow> child_ref d n H; push_spine d c (n # st) H })"

definition SeekToFirst :: "nat \<Rightarrow> ('k, 'v, 'b) heap_scheme \<Rightarrow> iter \<Rightarrow> iter option" where
  "SeekToFirst rt H it = do {
     st \<leftarrow> push_spine DL rt [] H;
     Some (it\<lparr>it_stack := st, it_dir := Some Forward\<rparr>) }"

definition SeekToLast :: "nat \<Rightarrow> ('k, 'v, 'b) heap_scheme \<Rightarrow> iter \<Rightarrow> iter option" where
  "SeekToLast rt H it = do {
     st \<leftarrow> push_spine DR rt [] H;
     Some (it\<lparr>it_stack := st, it_dir := Some Reverse\<rparr>) }"

text \<open>The search loop: a node is pushed when the target lies on its side \<open>d\<close> or is its key.\<close>

partial_function (option) seek_loop ::
  "dir \<Rightarrow> 'k::linorder \<Rightarrow> nat \<Rightarrow> nat list \<Rightarrow> ('k, 'v, 'b) heap_scheme \<Rightarrow> nat list option" where
  "seek_loop d key n st H =
     (if n = Nil_id then Some st
      else do {
        nd \<leftarrow> nodes H n;
        if key = nd_key nd then Some (n # st)
        else do {
          let e = (if key < nd_key nd then DL else DR);
          c \<leftarrow> np_ref (child e nd);
          seek_loop d key c (if e = d then n # st else st) H } })"

definition top_key :: "nat list \<Rightarrow> ('k, 'v, 'b) heap_scheme \<Rightarrow> 'k option" where
  "top_key st H = do { n \<leftarrow> front st; nd \<leftarrow> nodes H n; Some (nd_key nd) }"

definition Seek :: "'k::linorder \<Rightarrow> nat \<Rightarrow> ('k, 'v, 'b) heap_scheme \<Rightarrow> iter \<Rightarrow> iter option" where
  "Seek key rt H it = do {
     st \<leftarrow> seek_loop DL key rt [] H;
     if st = [] then Some (it\<lparr>it_stack := st, it_dir := Some Forward\<rparr>)
     else do {
       k \<leftarrow> top_key st H;
       if \<not> key \<le> k then None else Some (it\<lparr>it_stack := st, it_dir := Some Forward\<rparr>) } }"

definition SeekForward :: "'k::linorder \<Rightarrow> nat \<Rightarrow> ('k, 'v, 'b) heap_scheme \<Rightarrow> iter \<Rightarrow> iter option" where
  "SeekForward key rt H it = do {
     st \<leftarrow> seek_loop DL key rt [] H;
     if st = [] then Some (it\<lparr>it_stack := st, it_dir := Some Forward\<rparr>)
     else do {
       k \<leftarrow> top_key st H;
       if k \<noteq> key then None else Some (it\<lparr>it_stack := st, it_dir := Some Forward\<rparr>) } }"

definition SeekPrevious :: "'k::linorder \<Rightarrow> nat \<Rightarrow> ('k, 'v, 'b) heap_scheme \<Rightarrow> iter \<Rightarrow> iter option" where
  "SeekPrevious key rt H it = do {
     st \<leftarrow> seek_loop DR key rt [] H;
     if st = [] then Some (it\<lparr>it_stack := st, it_dir := Some Reverse\<rparr>)
     else do {
       k \<leftarrow> top_key st H;
       if k \<noteq> key then None else Some (it\<lparr>it_stack := st, it_dir := Some Reverse\<rparr>) } }"

definition it_key :: "('k, 'v, 'b) heap_scheme \<Rightarrow> iter \<Rightarrow> 'k option" where
  "it_key H it = top_key (it_stack it) H"

definition it_value :: "('k, 'v, 'b) heap_scheme \<Rightarrow> iter \<Rightarrow> 'v option" where
  "it_value H it = do { n \<leftarrow> front (it_stack it); nd \<leftarrow> nodes H n; Some (nd_val nd) }"

definition Next :: "nat \<Rightarrow> ('k::linorder, 'v, 'b) heap_scheme \<Rightarrow> iter \<Rightarrow> iter option" where
  "Next rt H it =
     (if it_stack it = [] then None
      else do {
        it \<leftarrow> (if it_dir it = Some Reverse
               then do { k \<leftarrow> it_key H it; SeekForward k rt H it } else Some it);
        (n, st) \<leftarrow> pop_front (it_stack it);
        c \<leftarrow> child_ref DR n H;
        st \<leftarrow> push_spine DL c st H;
        Some (it\<lparr>it_stack := st\<rparr>) })"

definition Prev :: "nat \<Rightarrow> ('k::linorder, 'v, 'b) heap_scheme \<Rightarrow> iter \<Rightarrow> iter option" where
  "Prev rt H it =
     (if it_stack it = [] then None
      else do {
        it \<leftarrow> (if it_dir it = Some Forward
               then do { k \<leftarrow> it_key H it; SeekPrevious k rt H it } else Some it);
        (n, st) \<leftarrow> pop_front (it_stack it);
        c \<leftarrow> child_ref DL n H;
        st \<leftarrow> push_spine DR c st H;
        Some (it\<lparr>it_stack := st\<rparr>) })"

section \<open>PrefixRawIteratorImpl and FilteredPrefixIteratorImpl\<close>

definition has_prefix :: "string \<Rightarrow> string \<Rightarrow> bool" where
  "has_prefix p k \<longleftrightarrow> length k > length p \<and> k ! length p = CHR 0x00 \<and> take (length p) k = p"

definition prefix_Valid :: "string \<Rightarrow> (string, 'v, 'b) heap_scheme \<Rightarrow> iter \<Rightarrow> bool option" where
  "prefix_Valid p H it =
     (if \<not> Valid it then Some False else do { k \<leftarrow> it_key H it; Some (has_prefix p k) })"

definition prefix_SeekToFirst ::
  "string \<Rightarrow> nat \<Rightarrow> (string, 'v, 'b) heap_scheme \<Rightarrow> iter \<Rightarrow> iter option" where
  "prefix_SeekToFirst p rt H it = Seek p rt H it"

definition prefix_SeekToLast ::
  "string \<Rightarrow> nat \<Rightarrow> (string, 'v, 'b) heap_scheme \<Rightarrow> iter \<Rightarrow> iter option" where
  "prefix_SeekToLast p rt H it = do {
     it \<leftarrow> Seek (p @ [CHR 0x01]) rt H it;
     v \<leftarrow> prefix_Valid p H it;
     if v then Prev rt H it else SeekToLast rt H it }"

definition prefix_Seek ::
  "string \<Rightarrow> string \<Rightarrow> nat \<Rightarrow> (string, 'v, 'b) heap_scheme \<Rightarrow> iter \<Rightarrow> iter option" where
  "prefix_Seek p target rt H it = Seek (prefix_string p target) rt H it"

definition filtered_key :: "string \<Rightarrow> (string, 'v, 'b) heap_scheme \<Rightarrow> iter \<Rightarrow> string option" where
  "filtered_key p H it = do { k \<leftarrow> it_key H it; Some (drop (length p + 1) k) }"

end
