(* ===== verification/IteratorProps.thy ===== *)
theory IteratorProps
  imports IteratorImpl
begin

text \<open>
  Iterators visit the entries of the snapshot in key order, in both directions and with changes of
  direction, and \<^verbatim>\<open>Seek\<close> finds the first key at or past its target.
\<close>

section \<open>What a stack stands for\<close>

text \<open>\<open>spine d H st es\<close>: popping the nodes of the stack one by one and visiting each with its subtree on the
  side opposite to \<open>d\<close> yields the entries \<open>es\<close>, in key order for \<open>d = DL\<close> and in reverse order for \<open>d = DR\<close>.\<close>

definition visit :: "dir \<Rightarrow> ('k, 'v) ntree \<Rightarrow> ('k \<times> 'v) list" where
  "visit d t = (case d of DL \<Rightarrow> inorder t | DR \<Rightarrow> rev (inorder t))"

lemma visit_mk: "visit d (mk d i nd a b) = visit d a @ (nd_key nd, nd_val nd) # visit d b"
  by (cases d) (simp_all add: visit_def)

lemma visit_Lf [simp]: "visit d Lf = []"
  by (simp add: visit_def split: dir.splits)

fun spine :: "dir \<Rightarrow> (nat \<Rightarrow> ('k, 'v) node option) \<Rightarrow> nat list \<Rightarrow> ('k \<times> 'v) list \<Rightarrow> bool" where
  "spine d N [] es \<longleftrightarrow> es = []"
| "spine d N (n # st) es \<longleftrightarrow>
     (\<exists>nd c rest. N n = Some nd \<and> np_ref (child (opp d) nd) = Some (tid c) \<and> tree_at N c \<and>
        es = (nd_key nd, nd_val nd) # visit d c @ rest \<and> spine d N st rest)"

lemma spine_Nil_iff: "spine d N st [] \<longleftrightarrow> st = []"
  by (cases st) auto

lemma push_spine_ok:
  assumes "tree_at (nodes H) t" and "spine d (nodes H) st es"
  shows "\<exists>st'. push_spine d (tid t) st H = Some st' \<and> spine d (nodes H) st' (visit d t @ es)"
  using assms
proof (induction "length (inorder t)" arbitrary: t st es rule: less_induct)
  case less
  show ?case
  proof (cases "t = Lf")
    case True
    then show ?thesis using less.prems by (subst push_spine.simps) simp
  next
    case False
    then obtain i nd a b where t: "t = mk d i nd a b" by (rule mk_cases)
    have N: "i \<noteq> 0" "nodes H i = Some nd" "np_ref (child d nd) = Some (tid a)"
      "np_ref (child (opp d) nd) = Some (tid b)" "tree_at (nodes H) a" "tree_at (nodes H) b"
      using less.prems(1) t by auto
    have "length (inorder a) < length (inorder t)" by (cases d) (simp_all add: t)
    moreover have "spine d (nodes H) (i # st) ((nd_key nd, nd_val nd) # visit d b @ es)"
      using N less.prems(2) by auto
    ultimately obtain st' where "push_spine d (tid a) (i # st) H = Some st'"
      "spine d (nodes H) st' (visit d a @ (nd_key nd, nd_val nd) # visit d b @ es)"
      using less.hyps N(5) by blast
    then show ?thesis
      using N t by (subst push_spine.simps) (simp add: visit_mk child_ref_eq [OF N(2)])
  qed
qed

text \<open>The entries at or past the key in the direction of travel.\<close>

definition past :: "dir \<Rightarrow> 'k::linorder \<Rightarrow> ('k \<times> 'v) list \<Rightarrow> ('k \<times> 'v) list" where
  "past d k es = filter (\<lambda>p. case d of DL \<Rightarrow> k \<le> fst p | DR \<Rightarrow> fst p \<le> k) es"

lemma past_append [simp]: "past d k (xs @ ys) = past d k xs @ past d k ys"
  by (simp add: past_def)

lemma past_all: "\<forall>p \<in> set es. (case d of DL \<Rightarrow> k \<le> fst p | DR \<Rightarrow> fst p \<le> k) \<Longrightarrow> past d k es = es"
  by (simp add: past_def)

lemma past_none: "\<forall>p \<in> set es. (case d of DL \<Rightarrow> fst p < k | DR \<Rightarrow> k < fst p) \<Longrightarrow> past d k es = []"
  by (cases d) (auto simp: past_def filter_empty_conv)

lemma set_visit [simp]: "set (visit d t) = set (inorder t)"
  by (simp add: visit_def split: dir.splits)

lemma skeys_mk:
  assumes "skeys (inorder (mk d i nd a b))"
  shows "skeys (inorder a)" "skeys (inorder b)"
    "\<forall>p \<in> set (inorder a). (case d of DL \<Rightarrow> fst p < nd_key nd | DR \<Rightarrow> nd_key nd < fst p)"
    "\<forall>p \<in> set (inorder b). (case d of DL \<Rightarrow> nd_key nd < fst p | DR \<Rightarrow> fst p < nd_key nd)"
  using assms by (cases d; force simp: sorted_wrt_append)+

lemma seek_loop_ok:
  assumes "tree_at (nodes H) t" and "spine d (nodes H) st es" and "skeys (inorder t)"
  shows "\<exists>st'. seek_loop d k (tid t) st H = Some st' \<and> spine d (nodes H) st' (past d k (visit d t) @ es)"
  using assms
proof (induction "length (inorder t)" arbitrary: t st es rule: less_induct)
  case less
  show ?case
  proof (cases "t = Lf")
    case True
    then show ?thesis using less.prems by (subst seek_loop.simps) (simp add: past_def)
  next
    case False
    then obtain i nd a b where t: "t = mk d i nd a b" by (rule mk_cases)
    have N: "i \<noteq> 0" "nodes H i = Some nd" "np_ref (child d nd) = Some (tid a)"
      "np_ref (child (opp d) nd) = Some (tid b)" "tree_at (nodes H) a" "tree_at (nodes H) b"
      using less.prems(1) t by auto
    note s = skeys_mk [OF less.prems(3) [unfolded t]]
    have vt: "visit d t = visit d a @ (nd_key nd, nd_val nd) # visit d b" by (simp only: t visit_mk)
    have lt: "length (inorder a) < length (inorder t)" "length (inorder b) < length (inorder t)"
      by (cases d; simp add: t)+
    consider (here) "k = nd_key nd" | (near) "case d of DL \<Rightarrow> k < nd_key nd | DR \<Rightarrow> nd_key nd < k"
      | (far) "case d of DL \<Rightarrow> nd_key nd < k | DR \<Rightarrow> k < nd_key nd"
      by (cases d) fastforce+
    then show ?thesis
    proof cases
      case here
      have "past d k (visit d a) = []" using s(3) here by (intro past_none) (cases d; auto)
      moreover have "past d k (visit d b) = visit d b"
        using s(4) here by (intro past_all) (cases d; auto)
      ultimately have "past d k (visit d t) = (nd_key nd, nd_val nd) # visit d b"
        using here unfolding vt by (cases d) (auto simp: past_def)
      then show ?thesis
        using N here t less.prems(2) by (subst seek_loop.simps) auto
    next
      case near
      have "past d k (visit d b) = visit d b" using s(4) near by (intro past_all) (cases d; auto)
      then have p: "past d k (visit d t) = past d k (visit d a) @ (nd_key nd, nd_val nd) # visit d b"
        using near unfolding vt by (cases d) (auto simp: past_def)
      have "spine d (nodes H) (i # st) ((nd_key nd, nd_val nd) # visit d b @ es)"
        using N less.prems(2) by auto
      then obtain st' where "seek_loop d k (tid a) (i # st) H = Some st'"
        "spine d (nodes H) st' (past d k (visit d a) @ (nd_key nd, nd_val nd) # visit d b @ es)"
        using less.hyps [OF lt(1) N(5)] s(1) by blast
      moreover have "k \<noteq> nd_key nd" "(if k < nd_key nd then DL else DR) = d" using near by (cases d; auto)+
      ultimately show ?thesis
        using N t p by (subst seek_loop.simps) (simp add: Let_def)
    next
      case far
      have "past d k (visit d a) = []" using s(3) far by (intro past_none) (cases d; auto)
      then have p: "past d k (visit d t) = past d k (visit d b)"
        using far unfolding vt by (cases d) (auto simp: past_def)
      obtain st' where "seek_loop d k (tid b) st H = Some st'"
        "spine d (nodes H) st' (past d k (visit d b) @ es)"
        using less.hyps [OF lt(2) N(6) less.prems(2)] s(2) by blast
      moreover have "k \<noteq> nd_key nd" "(if k < nd_key nd then DL else DR) = opp d" using far by (cases d; auto)+
      ultimately show ?thesis
        using N t p by (subst seek_loop.simps) (simp add: Let_def)
    qed
  qed
qed

section \<open>Positions\<close>

definition snap :: "('k::linorder, 'v, 'b) heap_scheme \<Rightarrow> nat \<Rightarrow> ('k, 'v) ntree \<Rightarrow> bool" where
  "snap H rt t \<longleftrightarrow> rt = tid t \<and> tree_at (nodes H) t \<and> skeys (inorder t)"

text \<open>\<open>at H t it i\<close>: the iterator is at the \<open>i\<close>th entry of the snapshot, or past the end when there is no such
  entry.\<close>

definition at :: "('k, 'v, 'b) heap_scheme \<Rightarrow> ('k, 'v) ntree \<Rightarrow> iter \<Rightarrow> nat \<Rightarrow> bool" where
  "at H t it i \<longleftrightarrow>
     (case it_dir it of
        Some Forward \<Rightarrow> spine DL (nodes H) (it_stack it) (drop i (inorder t))
      | Some Reverse \<Rightarrow>
          i < length (inorder t) \<and> spine DR (nodes H) (it_stack it) (rev (take (Suc i) (inorder t)))
      | None \<Rightarrow> False)"

lemma spine_top:
  "spine d (nodes H) st (p # es) \<Longrightarrow>
   top_key st H = Some (fst p) \<and> (do { n \<leftarrow> front st; nd \<leftarrow> nodes H n; Some (nd_val nd) }) = Some (snd p)"
  by (cases st) (auto simp: top_key_def)

lemma at_entry:
  assumes "at H t it i" and "i < length (inorder t)"
  shows "Valid it \<and> it_key H it = Some (fst (inorder t ! i)) \<and> it_value H it = Some (snd (inorder t ! i))"
proof -
  let ?ps = "inorder t"
  have f: "drop i ?ps = ?ps ! i # drop (Suc i) ?ps" using assms(2) by (simp add: Cons_nth_drop_Suc)
  have r: "rev (take (Suc i) ?ps) = ?ps ! i # rev (take i ?ps)" using assms(2) by (simp add: take_Suc_conv_app_nth)
  obtain d es where "spine d (nodes H) (it_stack it) (?ps ! i # es)"
    using assms f r by (auto simp: at_def split: option.splits direction.splits)
  from spine_top [OF this] this show ?thesis
    by (cases "it_stack it") (auto simp: Valid_def it_key_def it_value_def)
qed

lemma at_end: "at H t it i \<Longrightarrow> \<not> i < length (inorder t) \<Longrightarrow> \<not> Valid it"
  by (auto simp: at_def Valid_def spine_Nil_iff split: option.splits direction.splits)

lemma skeys_take_drop:
  assumes "skeys ps" and "i < length ps"
  shows "past DL (fst (ps ! i)) ps = drop i ps" and "past DR (fst (ps ! i)) (rev ps) = rev (take (Suc i) ps)"
proof -
  have s: "fst (ps ! j) < fst (ps ! k)" if "j < k" "k < length ps" for j k
    using sorted_wrt_nth_less [of "(<)" "map fst ps" j k] assms(1) that by simp
  have lt: "\<forall>p \<in> set (take i ps). fst p < fst (ps ! i)"
    unfolding all_set_conv_all_nth using s assms(2) by simp
  have gt: "\<forall>p \<in> set (drop (Suc i) ps). fst (ps ! i) < fst p"
    unfolding all_set_conv_all_nth using s by simp
  have ge: "\<forall>p \<in> set (drop i ps). fst (ps ! i) \<le> fst p"
    using gt assms(2) by (auto simp flip: Cons_nth_drop_Suc)
  have le: "\<forall>p \<in> set (take (Suc i) ps). fst p \<le> fst (ps ! i)"
    using lt assms(2) by (auto simp: take_Suc_conv_app_nth)
  have "past DL (fst (ps ! i)) (take i ps @ drop i ps) = drop i ps"
    unfolding past_append using lt ge past_none [where es = "take i ps" and d = DL] past_all [where es = "drop i ps" and d = DL] by simp
  then show "past DL (fst (ps ! i)) ps = drop i ps" by simp
  have "past DR (fst (ps ! i)) (rev (drop (Suc i) ps) @ rev (take (Suc i) ps)) = rev (take (Suc i) ps)"
    unfolding past_append
    using gt le past_none [where es = "rev (drop (Suc i) ps)" and d = DR] past_all [where es = "rev (take (Suc i) ps)" and d = DR] by simp
  then show "past DR (fst (ps ! i)) (rev ps) = rev (take (Suc i) ps)"
    by (simp only: rev_append [symmetric] append_take_drop_id)
qed

lemma SeekForward_at:
  assumes "snap H rt t" and "i < length (inorder t)"
  shows "\<exists>it'. SeekForward (fst (inorder t ! i)) rt H it = Some it' \<and> it_dir it' = Some Forward \<and>
    spine DL (nodes H) (it_stack it') (drop i (inorder t))"
proof -
  let ?k = "fst (inorder t ! i)"
  obtain st where st: "seek_loop DL ?k rt [] H = Some st" "spine DL (nodes H) st (drop i (inorder t))"
    using seek_loop_ok [of H t DL "[]" "[]" ?k] assms skeys_take_drop(1) [of "inorder t" i]
    by (auto simp: snap_def visit_def)
  have "drop i (inorder t) = inorder t ! i # drop (Suc i) (inorder t)"
    using assms(2) by (simp add: Cons_nth_drop_Suc)
  then have "st \<noteq> []" "top_key st H = Some ?k" using st(2) spine_top [of DL H st] by auto
  then show ?thesis using st by (simp add: SeekForward_def)
qed

lemma SeekPrevious_at:
  assumes "snap H rt t" and "i < length (inorder t)"
  shows "\<exists>it'. SeekPrevious (fst (inorder t ! i)) rt H it = Some it' \<and> it_dir it' = Some Reverse \<and>
    spine DR (nodes H) (it_stack it') (rev (take (Suc i) (inorder t)))"
proof -
  let ?k = "fst (inorder t ! i)"
  obtain st where st: "seek_loop DR ?k rt [] H = Some st"
    "spine DR (nodes H) st (rev (take (Suc i) (inorder t)))"
    using seek_loop_ok [of H t DR "[]" "[]" ?k] assms skeys_take_drop(2) [of "inorder t" i]
    by (auto simp: snap_def visit_def)
  have "rev (take (Suc i) (inorder t)) = inorder t ! i # rev (take i (inorder t))"
    using assms(2) by (simp add: take_Suc_conv_app_nth)
  then have "st \<noteq> []" "top_key st H = Some ?k" using st(2) spine_top [of DR H st] by auto
  then show ?thesis using st by (simp add: SeekPrevious_def)
qed

text \<open>Popping the top and pushing the spine of its far subtree moves on by one entry.\<close>

lemma spine_step:
  assumes "spine d (nodes H) st (p # es)"
  shows "\<exists>n st0 c st'. pop_front st = Some (n, st0) \<and> child_ref (opp d) n H = Some c \<and>
    push_spine d c st0 H = Some st' \<and> spine d (nodes H) st' es"
proof -
  obtain n st0 nd t rest where S: "st = n # st0" "nodes H n = Some nd"
    "np_ref (child (opp d) nd) = Some (tid t)" "tree_at (nodes H) t" "es = visit d t @ rest"
    "spine d (nodes H) st0 rest"
    using assms by (cases st) auto
  then show ?thesis using push_spine_ok [OF S(4,6)] by (auto simp: child_ref_eq)
qed

lemma Next_at:
  assumes "snap H rt t" and "at H t it i" and "i < length (inorder t)"
  shows "\<exists>it'. Next rt H it = Some it' \<and> at H t it' (Suc i)"
proof -
  have ne: "it_stack it \<noteq> []" and k: "it_key H it = Some (fst (inorder t ! i))"
    using at_entry [OF assms(2,3)] by (auto simp: Valid_def)
  obtain it1 where it1: "(if it_dir it = Some Reverse
      then do { k \<leftarrow> it_key H it; SeekForward k rt H it } else Some it) = Some it1"
    "it_dir it1 = Some Forward" "spine DL (nodes H) (it_stack it1) (drop i (inorder t))"
  proof (cases "it_dir it = Some Reverse")
    case True
    then show thesis using that SeekForward_at [OF assms(1,3), of it] k by auto
  next
    case False
    then have "it_dir it = Some Forward"
      using assms(2) by (auto simp: at_def split: option.splits direction.splits)
    then show thesis using that [of it] assms(2) by (simp add: at_def)
  qed
  have "drop i (inorder t) = inorder t ! i # drop (Suc i) (inorder t)"
    using assms(3) by (simp add: Cons_nth_drop_Suc)
  with it1(3) obtain n st0 c st' where "pop_front (it_stack it1) = Some (n, st0)" "child_ref DR n H = Some c"
    "push_spine DL c st0 H = Some st'" "spine DL (nodes H) st' (drop (Suc i) (inorder t))"
    using spine_step [of DL H "it_stack it1"] by fastforce
  then have "Next rt H it = Some (it1\<lparr>it_stack := st'\<rparr>) \<and> at H t (it1\<lparr>it_stack := st'\<rparr>) (Suc i)"
    using ne it1(1,2) unfolding Next_def by (simp add: at_def)
  then show ?thesis by blast
qed

text \<open>Moving back from the first entry leaves the iterator invalid.\<close>

lemma Prev_at:
  assumes "snap H rt t" and "at H t it i" and "i < length (inorder t)"
  shows "\<exists>it'. Prev rt H it = Some it' \<and> (if i = 0 then \<not> Valid it' else at H t it' (i - 1))"
proof -
  have ne: "it_stack it \<noteq> []" and k: "it_key H it = Some (fst (inorder t ! i))"
    using at_entry [OF assms(2,3)] by (auto simp: Valid_def)
  obtain it1 where it1: "(if it_dir it = Some Forward
      then do { k \<leftarrow> it_key H it; SeekPrevious k rt H it } else Some it) = Some it1"
    "it_dir it1 = Some Reverse" "spine DR (nodes H) (it_stack it1) (rev (take (Suc i) (inorder t)))"
  proof (cases "it_dir it = Some Forward")
    case True
    then show thesis using that SeekPrevious_at [OF assms(1,3), of it] k by auto
  next
    case False
    then have "it_dir it = Some Reverse"
      using assms(2) by (auto simp: at_def split: option.splits direction.splits)
    then show thesis using that [of it] assms(2) by (simp add: at_def)
  qed
  have "rev (take (Suc i) (inorder t)) = inorder t ! i # rev (take i (inorder t))"
    using assms(3) by (simp add: take_Suc_conv_app_nth)
  with it1(3) obtain n st0 c st' where S: "pop_front (it_stack it1) = Some (n, st0)"
    "child_ref DL n H = Some c" "push_spine DR c st0 H = Some st'"
    "spine DR (nodes H) st' (rev (take i (inorder t)))"
    using spine_step [of DR H "it_stack it1"] by fastforce
  have "Prev rt H it = Some (it1\<lparr>it_stack := st'\<rparr>)"
    using ne it1(1) S(1-3) unfolding Prev_def by simp
  moreover have "if i = 0 then \<not> Valid (it1\<lparr>it_stack := st'\<rparr>) else at H t (it1\<lparr>it_stack := st'\<rparr>) (i - 1)"
    using S(4) it1(2) assms(3) by (cases i) (auto simp: Valid_def at_def spine_Nil_iff)
  ultimately show ?thesis by blast
qed

lemma SeekToFirst_at:
  assumes "snap H rt t"
  shows "\<exists>it'. SeekToFirst rt H it = Some it' \<and> at H t it' 0"
  using push_spine_ok [of H t DL "[]" "[]"] assms
  by (auto simp: SeekToFirst_def at_def snap_def visit_def)

lemma SeekToLast_at:
  assumes "snap H rt t"
  shows "\<exists>it'. SeekToLast rt H it = Some it' \<and>
    (if inorder t = [] then \<not> Valid it' else at H t it' (length (inorder t) - 1))"
  using push_spine_ok [of H t DR "[]" "[]"] assms
  by (cases "inorder t = []") (auto simp: SeekToLast_def at_def snap_def visit_def Valid_def spine_Nil_iff)

text \<open>The position of the first key at or past a target.\<close>

definition lower_bound :: "'k::linorder \<Rightarrow> ('k \<times> 'v) list \<Rightarrow> nat" where
  "lower_bound k ps = length (filter (\<lambda>p. fst p < k) ps)"

lemma skeys_past: "skeys ps \<Longrightarrow> past DL k ps = drop (lower_bound k ps) ps"
proof (induction ps)
  case (Cons p ps)
  show ?case
  proof (cases "fst p < k")
    case True
    then show ?thesis using Cons by (simp add: past_def lower_bound_def not_le)
  next
    case False
    then have "\<forall>q \<in> set ps. \<not> fst q < k" using Cons.prems by force
    then show ?thesis using False by (force simp: past_def lower_bound_def filter_empty_conv filter_id_conv)
  qed
qed (simp add: past_def lower_bound_def)

lemma Seek_at:
  assumes "snap H rt t"
  shows "\<exists>it'. Seek k rt H it = Some it' \<and> at H t it' (lower_bound k (inorder t))"
proof -
  obtain st where st: "seek_loop DL k rt [] H = Some st" "spine DL (nodes H) st (past DL k (inorder t))"
    using seek_loop_ok [of H t DL "[]" "[]" k] assms by (auto simp: snap_def visit_def)
  have "k \<le> x" if tk: "top_key st H = Some x" and ne: "st \<noteq> []" for x
  proof -
    obtain p es where pe: "past DL k (inorder t) = p # es"
      using st(2) ne by (cases "past DL k (inorder t)") (auto simp: spine_Nil_iff)
    then have "p \<in> set (past DL k (inorder t))" by simp
    then show ?thesis using spine_top [OF st(2) [unfolded pe]] tk by (simp add: past_def)
  qed
  moreover have "\<exists>x. top_key st H = Some x" if "st \<noteq> []"
    using st(2) that by (cases st) (auto simp: top_key_def)
  ultimately have "Seek k rt H it = Some (it\<lparr>it_stack := st, it_dir := Some Forward\<rparr>)"
    using st(1) by (auto simp: Seek_def)
  then show ?thesis
    using st(2) skeys_past [of "inorder t" k] assms by (simp add: at_def snap_def)
qed


section \<open>Scans\<close>

text \<open>The loop a client writes: visit entries while the iterator is valid, at most \<open>n\<close> of them.\<close>

fun collect ::
  "(iter \<Rightarrow> bool option) \<Rightarrow> (iter \<Rightarrow> iter option) \<Rightarrow> ('k, 'v, 'b) heap_scheme \<Rightarrow> nat \<Rightarrow> iter \<Rightarrow>
   ('k \<times> 'v) list option" where
  "collect valid move H 0 it = Some []"
| "collect valid move H (Suc n) it = do {
     b \<leftarrow> valid it;
     if \<not> b then Some []
     else do {
       k \<leftarrow> it_key H it;
       v \<leftarrow> it_value H it;
       it \<leftarrow> move it;
       ps \<leftarrow> collect valid move H n it;
       Some ((k, v) # ps) } }"

lemma collect_up:
  assumes "snap H rt t" and "at H t it i" and "i \<le> length (inorder t)"
    and valid: "\<And>it i. at H t it i \<Longrightarrow> valid it = Some (i < length (inorder t) \<and> Q (fst (inorder t ! i)))"
  shows "collect valid (Next rt H) H n it = Some (take n (takeWhile (\<lambda>p. Q (fst p)) (drop i (inorder t))))"
  using assms(2,3)
proof (induction n arbitrary: it i)
  case (Suc n)
  show ?case
  proof (cases "i < length (inorder t) \<and> Q (fst (inorder t ! i))")
    case True
    obtain it' where it': "Next rt H it = Some it'" "at H t it' (Suc i)"
      using Next_at [OF assms(1) Suc.prems(1)] True by blast
    have "drop i (inorder t) = inorder t ! i # drop (Suc i) (inorder t)"
      using True by (simp add: Cons_nth_drop_Suc)
    then show ?thesis
      using Suc.IH [OF it'(2)] True it'(1) at_entry [OF Suc.prems(1)] valid [OF Suc.prems(1)] by simp
  next
    case False
    have "takeWhile (\<lambda>p. Q (fst p)) (drop i (inorder t)) = []"
    proof (cases "i < length (inorder t)")
      case True
      then have "drop i (inorder t) = inorder t ! i # drop (Suc i) (inorder t)"
        by (simp add: Cons_nth_drop_Suc)
      then show ?thesis using True False by simp
    qed simp
    then show ?thesis using False valid [OF Suc.prems(1)] by auto
  qed
qed simp

lemma at_Valid: "at H t it i \<Longrightarrow> Some (Valid it) = Some (i < length (inorder t) \<and> True)"
  using at_entry [of H t it i] at_end [of H t it i] by blast

lemma collect_raw:
  assumes "snap H rt t" and "at H t it i" and "i \<le> length (inorder t)"
  shows "collect (\<lambda>it. Some (Valid it)) (Next rt H) H n it = Some (take n (drop i (inorder t)))"
proof -
  have "takeWhile (\<lambda>p. True) (drop i (inorder t)) = drop i (inorder t)" by (simp add: takeWhile_eq_all_conv)
  with collect_up [OF assms at_Valid] show ?thesis by simp
qed

lemma collect_down:
  assumes "snap H rt t" and "at H t it i" and "i < length (inorder t)"
  shows "collect (\<lambda>it. Some (Valid it)) (Prev rt H) H n it = Some (take n (rev (take (Suc i) (inorder t))))"
  using assms(2,3)
proof (induction n arbitrary: it i)
  case (Suc n)
  obtain it' where it': "Prev rt H it = Some it'"
    "if i = 0 then \<not> Valid it' else at H t it' (i - 1)"
    using Prev_at [OF assms(1) Suc.prems] by blast
  have r: "rev (take (Suc i) (inorder t)) = inorder t ! i # rev (take i (inorder t))"
    using Suc.prems(2) by (simp add: take_Suc_conv_app_nth)
  have "collect (\<lambda>it. Some (Valid it)) (Prev rt H) H n it' = Some (take n (rev (take i (inorder t))))"
  proof (cases i)
    case 0
    then show ?thesis using it'(2) by (cases n) simp_all
  next
    case (Suc j)
    then show ?thesis using Suc.IH [of it' j] it'(2) Suc.prems(2) by simp
  qed
  then show ?case
    using at_entry [OF Suc.prems] it'(1) by (simp add: r)
qed simp

section \<open>Prefixes\<close>

lemma has_prefix_iff: "has_prefix p k \<longleftrightarrow> (\<exists>x. k = prefix_string p x)"
proof
  assume "has_prefix p k"
  then have "k = p @ k ! length p # drop (Suc (length p)) k" "k ! length p = CHR 0x00"
    using id_take_nth_drop [of "length p" k] by (simp_all add: has_prefix_def)
  then have "k = prefix_string p (drop (Suc (length p)) k)" by (simp add: prefix_string_def)
  then show "\<exists>x. k = prefix_string p x" ..
qed (auto simp: has_prefix_def prefix_string_def)

lemma char_0_le: "CHR 0x00 \<le> (c :: char)"
  by (simp add: less_eq_char_def)

lemma prefix_block:
  assumes "p < k" and "k \<le> prefix_string p x"
  shows "\<exists>y. k = prefix_string p y"
  using assms
proof (induction p arbitrary: k)
  case Nil
  then obtain c y where "k = c # y" by (cases k) auto
  then show ?case using Nil.prems(2) char_0_le [of c] by (auto simp: prefix_string_def)
next
  case (Cons a p)
  then obtain k' where "k = a # k'" "p < k'" "k' \<le> prefix_string p x"
    by (cases k) (auto simp: prefix_string_def)
  then show ?case using Cons.IH by (fastforce simp: prefix_string_def)
qed

lemma prefix_string_greater: "p < prefix_string p x"
  by (induction p) (auto simp: prefix_string_def)

lemma has_prefix_greater: "has_prefix p k \<Longrightarrow> p < k"
  by (auto simp: has_prefix_iff prefix_string_greater)

lemma prefix_run:
  assumes "skeys ps" and "\<forall>q \<in> set ps. p < fst q"
  shows "takeWhile (\<lambda>q. has_prefix p (fst q)) ps = filter (\<lambda>q. has_prefix p (fst q)) ps"
  using assms
proof (induction ps)
  case (Cons a ps)
  show ?case
  proof (cases "has_prefix p (fst a)")
    case True
    then show ?thesis using Cons by simp
  next
    case False
    have "\<not> has_prefix p (fst q)" if "q \<in> set ps" for q
    proof
      assume "has_prefix p (fst q)"
      then obtain x where "fst q = prefix_string p x" by (auto simp: has_prefix_iff)
      moreover have "fst a < fst q" using Cons.prems(1) that by simp
      ultimately show False
        using prefix_block [of p "fst a" x] Cons.prems(2) False by (auto simp: has_prefix_iff)
    qed
    then show ?thesis using False by simp
  qed
qed simp

text \<open>The keys with a prefix are a block, which begins at the first key past the prefix itself.\<close>

lemma prefix_entries:
  assumes "skeys ps" and "p \<notin> fst ` set ps"
  shows "takeWhile (\<lambda>q. has_prefix p (fst q)) (drop (lower_bound p ps) ps) =
    filter (\<lambda>q. has_prefix p (fst q)) ps"
proof -
  have e: "drop (lower_bound p ps) ps = filter (\<lambda>q. p < fst q) ps"
    unfolding skeys_past [OF assms(1), symmetric] past_def
    using assms(2) by (intro filter_cong refl) (auto simp: order_le_less)
  have r: "takeWhile (\<lambda>q. has_prefix p (fst q)) (filter (\<lambda>q. p < fst q) ps) =
      filter (\<lambda>q. has_prefix p (fst q)) (filter (\<lambda>q. p < fst q) ps)"
    by (rule prefix_run) (use assms(1) in \<open>simp_all add: sorted_wrt_map sorted_wrt_filter\<close>)
  have "filter (\<lambda>q. has_prefix p (fst q)) (filter (\<lambda>q. p < fst q) ps) =
      filter (\<lambda>q. has_prefix p (fst q)) ps"
    unfolding filter_filter using has_prefix_greater by (intro filter_cong refl) blast
  then show ?thesis unfolding e r .
qed

lemma prefix_Valid_at:
  "at H t it i \<Longrightarrow>
   prefix_Valid p H it = Some (i < length (inorder t) \<and> has_prefix p (fst (inorder t ! i)))"
  using at_entry [of H t it i] at_end [of H t it i]
  by (cases "i < length (inorder t)") (auto simp: prefix_Valid_def)


lemma prefix_less_one: "prefix_string p x < p @ [CHR 0x01]"
  by (induction p) (auto simp: prefix_string_def less_char_def)

lemma Prev_Next_key:
  assumes "snap H rt t" and "at H t it i" and "Suc i < length (inorder t)"
  shows "\<exists>it1 it2. Next rt H it = Some it1 \<and> Prev rt H it1 = Some it2 \<and> at H t it1 (Suc i) \<and> at H t it2 i"
proof -
  obtain it1 where it1: "Next rt H it = Some it1" "at H t it1 (Suc i)"
    using Next_at [OF assms(1,2)] assms(3) by auto
  obtain it2 where "Prev rt H it1 = Some it2" "at H t it2 i"
    using Prev_at [OF assms(1) it1(2) assms(3)] by auto
  with it1 show ?thesis by blast
qed

section \<open>Samples\<close>

lemma sample_snap: "snap ptree_sample 2 tree_sample"
  using sample_denotes by (auto simp: snap_def denotes_def tree_sample_def)

text \<open>A committed tree with one committed-intention key and two user keys.\<close>

definition pfx_node :: "nat \<Rightarrow> nat \<Rightarrow> string \<Rightarrow> string \<Rightarrow> bool \<Rightarrow> (string, string) node" where
  "pfx_node l r k v c =
     \<lparr>nd_left = sptr l, nd_right = sptr r, nd_key = k, nd_val = v, nd_red = c, nd_rid = 7,
      nd_read_only = True\<rparr>"

definition pfx_heap :: "(string, string) heap" where
  "pfx_heap =
     \<lparr>nodes = [0 \<mapsto> pfx_node 0 0 [] [] False,
               1 \<mapsto> pfx_node 0 0 (prefix_string ''C'' ''7'') [] True,
               2 \<mapsto> pfx_node 1 3 (prefix_string ''U'' ''a'') ''x'' False,
               3 \<mapsto> pfx_node 0 0 (prefix_string ''U'' ''b'') ''y'' True],
      next_node = 4\<rparr>"

definition pfx_tree :: "(string, string) ntree" where
  "pfx_tree =
     Nd 2 (pfx_node 1 3 (prefix_string ''U'' ''a'') ''x'' False)
       (Nd 1 (pfx_node 0 0 (prefix_string ''C'' ''7'') [] True) Lf Lf)
       (Nd 3 (pfx_node 0 0 (prefix_string ''U'' ''b'') ''y'' True) Lf Lf)"

lemma pfx_snap: "snap pfx_heap 2 pfx_tree"
  by (auto simp: snap_def pfx_tree_def pfx_heap_def pfx_node_def prefix_string_def less_char_def)

section \<open>Properties\<close>

text \<open>C13: from \<^verbatim>\<open>SeekToFirst\<close> with \<^verbatim>\<open>Next\<close>, a client reads the entries of the snapshot in key order, each once,
  and from \<^verbatim>\<open>SeekToLast\<close> with \<^verbatim>\<open>Prev\<close> in reverse order; every call completes and the scan ends after the last
  entry.\<close>

theorem scan_visits_every_entry:
  assumes "snap H rt t"
  shows "\<exists>it1 it2. SeekToFirst rt H it = Some it1 \<and> SeekToLast rt H it = Some it2 \<and>
    collect (\<lambda>it. Some (Valid it)) (Next rt H) H n it1 = Some (take n (inorder t)) \<and>
    collect (\<lambda>it. Some (Valid it)) (Prev rt H) H n it2 = Some (take n (rev (inorder t)))"
proof -
  obtain it1 where "SeekToFirst rt H it = Some it1" "at H t it1 0"
    using SeekToFirst_at [OF assms] by blast
  moreover from collect_raw [OF assms this(2)]
  have "collect (\<lambda>it. Some (Valid it)) (Next rt H) H n it1 = Some (take n (inorder t))" by simp
  moreover obtain it2 where it2: "SeekToLast rt H it = Some it2"
    "if inorder t = [] then \<not> Valid it2 else at H t it2 (length (inorder t) - 1)"
    using SeekToLast_at [OF assms] by blast
  moreover have "collect (\<lambda>it. Some (Valid it)) (Prev rt H) H n it2 = Some (take n (rev (inorder t)))"
    using collect_down [OF assms, of it2 "length (inorder t) - 1" n] it2(2)
    by (cases "inorder t = []"; cases n) auto
  ultimately show ?thesis by blast
qed

theorem scan_visits_every_entry_witness:
  "\<exists>it1 it2. SeekToFirst 2 ptree_sample new_iter = Some it1 \<and> SeekToLast 2 ptree_sample new_iter = Some it2 \<and>
    collect (\<lambda>it. Some (Valid it)) (Next 2 ptree_sample) ptree_sample 9 it1 =
      Some [(10, ''a''), (20, ''b''), (30, ''c'')] \<and>
    collect (\<lambda>it. Some (Valid it)) (Prev 2 ptree_sample) ptree_sample 9 it2 =
      Some [(30, ''c''), (20, ''b''), (10, ''a'')]"
  using scan_visits_every_entry [OF sample_snap, of new_iter 9] by (simp add: tree_sample_def node_sample_def)

text \<open>C14: \<^verbatim>\<open>Seek\<close> completes and leaves the iterator at the first entry whose key is not less than the target, or
  invalid when there is none; a scan from there reads exactly the entries at or past the target.\<close>

theorem Seek_lower_bound:
  assumes "snap H rt t"
  shows "\<exists>it1. Seek k rt H it = Some it1 \<and>
    (Valid it1 \<longleftrightarrow> (\<exists>p \<in> set (inorder t). k \<le> fst p)) \<and>
    collect (\<lambda>it. Some (Valid it)) (Next rt H) H n it1 = Some (take n (filter (\<lambda>p. k \<le> fst p) (inorder t)))"
proof -
  let ?i = "lower_bound k (inorder t)"
  obtain it1 where it1: "Seek k rt H it = Some it1" "at H t it1 ?i"
    using Seek_at [OF assms] by blast
  have d: "drop ?i (inorder t) = filter (\<lambda>p. k \<le> fst p) (inorder t)"
    using skeys_past [of "inorder t" k] assms by (simp add: snap_def past_def)
  have "?i \<le> length (inorder t)" by (simp add: lower_bound_def)
  then have "collect (\<lambda>it. Some (Valid it)) (Next rt H) H n it1 = Some (take n (drop ?i (inorder t)))"
    by (rule collect_raw [OF assms it1(2)])
  moreover have "Valid it1 \<longleftrightarrow> drop ?i (inorder t) \<noteq> []" using at_Valid [OF it1(2)] by auto
  ultimately show ?thesis using it1(1) unfolding d by (auto simp: filter_empty_conv)
qed

theorem Seek_lower_bound_witness:
  "\<exists>it1. Seek 15 2 ptree_sample new_iter = Some it1 \<and>
    (Valid it1 \<longleftrightarrow> (\<exists>p \<in> set (inorder tree_sample). 15 \<le> fst p)) \<and>
    collect (\<lambda>it. Some (Valid it)) (Next 2 ptree_sample) ptree_sample 9 it1 =
      Some [(20, ''b''), (30, ''c'')]"
  using Seek_lower_bound [OF sample_snap, of 15 new_iter 9] by (simp add: tree_sample_def node_sample_def)

text \<open>Changing direction keeps the place: from an entry that has a successor, \<^verbatim>\<open>Next\<close> followed by \<^verbatim>\<open>Prev\<close> comes
  back to the same key and value, whatever the direction before.\<close>

lemma Next_Prev_round_trip:
  assumes "snap H rt t" and "at H t it i" and "Suc i < length (inorder t)"
  shows "\<exists>it1 it2. Next rt H it = Some it1 \<and> Prev rt H it1 = Some it2 \<and>
    it_key H it1 = Some (fst (inorder t ! Suc i)) \<and>
    it_key H it2 = it_key H it \<and> it_value H it2 = it_value H it"
  using Prev_Next_key [OF assms] at_entry [of H t it i] at_entry [of H t _ i] at_entry [of H t _ "Suc i"]
    assms(2,3) by fastforce

text \<open>C15: an iterator with a prefix, from \<^verbatim>\<open>SeekToFirst\<close>, reads exactly the entries whose key is the prefix, a zero
  byte and a suffix, in order, when the bare prefix is not itself a key; the keys the filtered iterator
  returns are the suffixes.\<close>

theorem prefix_scan_exact:
  assumes "snap H rt t" and "p \<notin> fst ` set (inorder t)"
  shows "\<exists>it1. prefix_SeekToFirst p rt H it = Some it1 \<and>
    collect (prefix_Valid p H) (Next rt H) H n it1 =
      Some (take n (filter (\<lambda>q. has_prefix p (fst q)) (inorder t))) \<and>
    (\<forall>x. it_key H it1 = Some (prefix_string p x) \<longrightarrow> filtered_key p H it1 = Some x)"
proof -
  let ?i = "lower_bound p (inorder t)"
  obtain it1 where it1: "Seek p rt H it = Some it1" "at H t it1 ?i"
    using Seek_at [OF assms(1)] by blast
  have "?i \<le> length (inorder t)" by (simp add: lower_bound_def)
  then have "collect (prefix_Valid p H) (Next rt H) H n it1 =
      Some (take n (takeWhile (\<lambda>q. has_prefix p (fst q)) (drop ?i (inorder t))))"
    using collect_up [OF assms(1) it1(2), where Q = "has_prefix p"] prefix_Valid_at by blast
  moreover have "skeys (inorder t)" using assms(1) by (simp add: snap_def)
  ultimately show ?thesis
    using it1(1) prefix_entries [of "inorder t" p] assms(2)
    by (auto simp: prefix_SeekToFirst_def filtered_key_def prefix_string_def)
qed

theorem prefix_scan_exact_witness:
  "\<exists>it1. prefix_SeekToFirst ''U'' 2 pfx_heap new_iter = Some it1 \<and>
    collect (prefix_Valid ''U'' pfx_heap) (Next 2 pfx_heap) pfx_heap 9 it1 =
      Some [(prefix_string ''U'' ''a'', ''x''), (prefix_string ''U'' ''b'', ''y'')] \<and>
    (\<forall>x. it_key pfx_heap it1 = Some (prefix_string ''U'' x) \<longrightarrow> filtered_key ''U'' pfx_heap it1 = Some x)"
  using prefix_scan_exact [OF pfx_snap, of "''U''" new_iter 9]
  by (simp add: pfx_tree_def pfx_node_def prefix_string_def has_prefix_def)

text \<open>\<^verbatim>\<open>SeekToLast\<close> of an iterator with a prefix never takes its \<^verbatim>\<open>Prev\<close> branch: it always goes to the last
  entry of the whole tree, so it is invalid unless that entry has the prefix, even when the tree holds
  entries with the prefix.\<close>

theorem prefix_SeekToLast_whole_tree:
  assumes "snap H rt t" and "inorder t \<noteq> []"
  shows "\<exists>it1. prefix_SeekToLast p rt H it = Some it1 \<and>
    it_key H it1 = Some (fst (last (inorder t))) \<and>
    prefix_Valid p H it1 = Some (has_prefix p (fst (last (inorder t))))"
proof -
  let ?i = "lower_bound (p @ [CHR 0x01]) (inorder t)" and ?n = "length (inorder t) - 1"
  obtain it0 where it0: "Seek (p @ [CHR 0x01]) rt H it = Some it0" "at H t it0 ?i"
    using Seek_at [OF assms(1)] by blast
  have "\<not> has_prefix p (fst (inorder t ! ?i))" if "?i < length (inorder t)"
  proof -
    have "inorder t ! ?i \<in> set (drop ?i (inorder t))"
      using that by (simp flip: Cons_nth_drop_Suc)
    then have "inorder t ! ?i \<in> set (past DL (p @ [CHR 0x01]) (inorder t))"
      using skeys_past [of "inorder t" "p @ [CHR 0x01]"] assms(1) by (simp add: snap_def)
    then have "p @ [CHR 0x01] \<le> fst (inorder t ! ?i)" by (simp add: past_def)
    then show ?thesis using prefix_less_one [of p] by (auto simp: has_prefix_iff dest: leD)
  qed
  then have v: "prefix_Valid p H it0 = Some False" using prefix_Valid_at [OF it0(2)] by auto
  obtain it1 where it1: "SeekToLast rt H it0 = Some it1" "at H t it1 ?n"
    using SeekToLast_at [OF assms(1), of it0] assms(2) by auto
  have "?n < length (inorder t)" using assms(2) by simp
  then show ?thesis
    using it0(1) v it1 at_entry [OF it1(2)] prefix_Valid_at [OF it1(2)] assms(2)
    by (simp add: prefix_SeekToLast_def last_conv_nth)
qed

end
