(* ===== verification/CommittedIndex.thy ===== *)
theory CommittedIndex
  imports IteratorProps
begin

text \<open>
  Two indexes of the transaction processor (\<^verbatim>\<open>src/db/db_impl.cc\<close> and \<^verbatim>\<open>db_impl.h\<close>): the positions of the recently
  committed intentions (\<^verbatim>\<open>CommittedIntentionIndex\<close>) and the trees of finished transactions
  (\<^verbatim>\<open>FinishedTransactions\<close>).

  A \<^verbatim>\<open>std::set<uint64_t>\<close> is the ascending list of its elements.
\<close>

section \<open>CommittedIntentionIndex\<close>

definition index_limit :: nat where
  "index_limit = 1000"

definition index_push :: "u64 \<Rightarrow> u64 list \<Rightarrow> u64 list option" where
  "index_push pos index =
     (if pos \<in> set index then None
      else
        let index = insort pos index
        in if last index \<noteq> pos then None
           else Some (if length index > index_limit then tl index else index))"

text \<open>\<^verbatim>\<open>range\<close>: the iterator \<^verbatim>\<open>it\<close> is the suffix of the list it points into. \<^verbatim>\<open>std::next(it)\<close> is a value that the
  code drops, so the copy starts at \<^verbatim>\<open>it\<close> in both cases.\<close>

definition index_range :: "u64 \<Rightarrow> u64 \<Rightarrow> u64 list \<Rightarrow> (u64 list \<times> bool) option" where
  "index_range f l index =
     (if \<not> f < l then None
      else if index = [] then Some ([l], False)
      else case dropWhile (\<lambda>x. x < f) index of
        [] \<Rightarrow> None
      | x # xs \<Rightarrow>
          (if l \<notin> set index then None
           else Some (takeWhile (\<lambda>y. y \<noteq> l) (x # xs) @ [l], x = f)))"

section \<open>FinishedTransactions\<close>

text \<open>The unordered map is an association list; \<^verbatim>\<open>Find\<close> moves the tree out and leaves a null pointer behind.\<close>

type_synonym finished = "(u64 \<times> (string, string) ptree option) list"

definition fin_Find :: "u64 \<Rightarrow> finished \<Rightarrow> (string, string) ptree option \<times> finished" where
  "fin_Find ipos fs =
     (case map_of fs ipos of
        None \<Rightarrow> (None, fs)
      | Some t \<Rightarrow> (t, map (\<lambda>p. if fst p = ipos then (ipos, None) else p) fs))"

definition fin_Insert :: "u64 \<Rightarrow> (string, string) ptree \<Rightarrow> finished \<Rightarrow> finished option" where
  "fin_Insert ipos t fs = (if map_of fs ipos \<noteq> None then None else Some ((ipos, Some t) # fs))"

definition fin_Clean :: "u64 \<Rightarrow> finished \<Rightarrow> finished" where
  "fin_Clean last_ipos fs = filter (\<lambda>p. \<not> fst p \<le> last_ipos) fs"

section \<open>The index holds the most recent committed positions\<close>

text \<open>\<open>indexed hist index\<close>: \<open>hist\<close> lists all positions committed so far, in order, and the index is its tail.\<close>

definition indexed :: "u64 list \<Rightarrow> u64 list \<Rightarrow> bool" where
  "indexed hist index \<longleftrightarrow> sorted_wrt (<) hist \<and> index = drop (length hist - index_limit) hist"

lemma insort_greatest: "\<forall>x \<in> set xs. x < p \<Longrightarrow> insort p xs = xs @ [p]"
  by (induction xs) auto

lemma indexed_sorted: "indexed hist index \<Longrightarrow> sorted_wrt (<) index"
  by (auto simp: indexed_def sorted_wrt_drop)

lemma indexed_push:
  assumes "indexed hist index" and "\<forall>x \<in> set hist. x < pos"
  shows "\<exists>index'. index_push pos index = Some index' \<and> indexed (hist @ [pos]) index'"
proof -
  have lt: "\<forall>x \<in> set index. x < pos"
    using assms by (auto simp: indexed_def dest: in_set_dropD)
  have s: "sorted_wrt (<) (hist @ [pos])"
    using assms by (auto simp: indexed_def sorted_wrt_append)
  have len: "length index = min (length hist) index_limit"
    using assms(1) by (auto simp: indexed_def)
  show ?thesis
  proof (cases "length hist < index_limit")
    case True
    then show ?thesis
      using lt s len assms(1) by (auto simp: index_push_def insort_greatest indexed_def)
  next
    case False
    then have "index \<noteq> []" using len by (auto simp: index_limit_def)
    moreover have "tl index = drop (Suc (length hist) - index_limit) hist"
      using False assms(1) by (simp add: indexed_def tl_drop drop_Suc Suc_diff_le)
    moreover have "Suc (length hist) - index_limit \<le> length hist" by (simp add: index_limit_def)
    ultimately have "tl (index @ [pos]) = drop (Suc (length hist) - index_limit) (hist @ [pos])"
      by simp
    then show ?thesis
      using False lt s len by (auto simp: index_push_def insort_greatest indexed_def)
  qed
qed

lemma dropWhile_sorted:
  "sorted_wrt (<) xs \<Longrightarrow> dropWhile (\<lambda>x. x < f) xs = filter (\<lambda>x. \<not> x < (f :: 'a::linorder)) xs"
proof (induction xs)
  case (Cons a xs)
  then show ?case by (auto intro!: filter_True [symmetric])
qed simp

lemma takeWhile_last:
  "sorted_wrt (<) xs \<Longrightarrow> xs \<noteq> [] \<Longrightarrow> takeWhile (\<lambda>y. y \<noteq> last xs) xs @ [last xs] = (xs :: 'a::linorder list)"
proof (induction xs)
  case (Cons a xs)
  then show ?case by (cases "xs = []") auto
qed simp

text \<open>What \<^verbatim>\<open>range\<close> returns for a conflict zone that ends at the newest committed position.\<close>

lemma index_range_eq:
  assumes "indexed hist index" and "hist \<noteq> []" and "f < last hist"
  shows "index_range f (last hist) index = Some (filter (\<lambda>x. f \<le> x) index, f \<in> set index)"
proof -
  note s = indexed_sorted [OF assms(1)]
  have ne: "index \<noteq> []" and l: "last index = last hist"
    using assms(1,2) length_greater_0_conv [of hist]
    by (auto simp: indexed_def index_limit_def last_drop simp del: length_greater_0_conv)
  then have lin: "last hist \<in> set index" using last_in_set by fastforce
  let ?fs = "filter (\<lambda>x. f \<le> x) index"
  have d: "dropWhile (\<lambda>x. x < f) index = ?fs" using dropWhile_sorted [OF s, of f] by (simp add: not_less)
  have "last hist \<in> set ?fs" using lin assms(3) by simp
  then obtain x xs where fs: "?fs = x # xs" by (cases ?fs) auto
  have sf: "sorted_wrt (<) ?fs" using s by (rule sorted_wrt_filter)
  have "last ?fs = last hist"
  proof -
    have "index = butlast index @ [last hist]" using ne l by (metis append_butlast_last_id)
    then have "?fs = filter (\<lambda>x. f \<le> x) (butlast index) @ [last hist]"
      using assms(3) by (metis (no_types, lifting) filter.simps filter_append order_less_imp_le)
    then show ?thesis by simp
  qed
  then have t: "takeWhile (\<lambda>y. y \<noteq> last hist) ?fs @ [last hist] = ?fs"
    using takeWhile_last [OF sf] fs by simp
  have "x \<in> set ?fs" and le: "\<forall>y \<in> set ?fs. x \<le> y"
    using sf unfolding fs by auto
  then have "x = f \<longleftrightarrow> f \<in> set index" by (auto intro: order_antisym)
  then show ?thesis
    using assms(3) ne lin d fs t unfolding index_range_def by simp
qed


text \<open>The first position at or after \<open>f\<close> in an ascending list.\<close>

lemma filter_ge_head:
  assumes "sorted_wrt (<) xs" and "filter (\<lambda>x. f \<le> x) xs = y # ys"
  shows "y \<in> set xs" "(f :: 'a::linorder) \<le> y" "\<forall>z \<in> set (y # ys). y \<le> z"
proof -
  have "y \<in> set (filter (\<lambda>x. f \<le> x) xs)" using assms(2) by simp
  then show "y \<in> set xs" "f \<le> y" by simp_all
  have "sorted_wrt (<) (y # ys)"
    using sorted_wrt_filter [OF assms(1), of "\<lambda>x. f \<le> x"] unfolding assms(2) .
  then show "\<forall>z \<in> set (y # ys). y \<le> z" by auto
qed

lemma indexed_suffix:
  assumes "indexed hist index" and "y \<in> set index" and "x \<in> set hist" and "y \<le> x"
  shows "x \<in> set index"
proof (rule ccontr)
  let ?n = "length hist - index_limit"
  assume n: "x \<notin> set index"
  have s: "sorted_wrt (<) (take ?n hist @ drop ?n hist)" and i: "index = drop ?n hist"
    using assms(1) by (auto simp: indexed_def)
  have "x \<in> set (take ?n hist @ drop ?n hist)" using assms(3) by simp
  then have "x \<in> set (take ?n hist)" using n i by (simp del: append_take_drop_id)
  then have "x < y" using s assms(2) i by (auto simp: sorted_wrt_append simp del: append_take_drop_id)
  then show False using assms(4) by simp
qed

lemma fin_Find_Insert:
  assumes "map_of fs ipos = None"
  shows "\<exists>fs1. fin_Insert ipos t fs = Some fs1 \<and> fst (fin_Find ipos fs1) = Some t \<and>
    fst (fin_Find ipos (snd (fin_Find ipos fs1))) = None"
  using assms by (auto simp: fin_Insert_def fin_Find_def)

section \<open>Properties\<close>

text \<open>The conflict zone of a snapshot that is behind the newest committed intention. When \<^verbatim>\<open>range\<close> says that
  the result is complete, it holds every committed position after the snapshot, but it begins with the
  snapshot's own position, which the interface excludes: the incremented iterator is dropped. Otherwise the
  missing ones are exactly those between the snapshot and the first position returned.\<close>

lemma range_covers_conflict_zone:
  assumes "indexed hist index" and "hist \<noteq> []" and "f < last hist"
  shows "\<exists>ps complete. index_range f (last hist) index = Some (ps, complete) \<and> ps \<noteq> [] \<and>
    (complete \<longrightarrow> hd ps = f \<and> {x \<in> set hist. f < x} \<subseteq> set ps) \<and>
    (\<not> complete \<longrightarrow> f < hd ps \<and> {x \<in> set hist. f < x} = {x \<in> set hist. f < x \<and> x < hd ps} \<union> set ps)"
proof -
  note s = indexed_sorted [OF assms(1)]
  let ?ps = "filter (\<lambda>x. f \<le> x) index"
  have sub: "set index \<subseteq> set hist" using assms(1) by (auto simp: indexed_def dest: in_set_dropD)
  have ne: "index \<noteq> []" and l: "last index = last hist"
    using assms(1,2) length_greater_0_conv [of hist]
    by (auto simp: indexed_def index_limit_def last_drop simp del: length_greater_0_conv)
  then have "last hist \<in> set ?ps" using assms(3) last_in_set by fastforce
  then obtain y ys where ps: "?ps = y # ys" by (cases ?ps) auto
  have y: "y \<in> set index" "f \<le> y" "\<forall>z \<in> set ?ps. y \<le> z"
    using filter_ge_head [OF s ps] unfolding ps by blast+
  have suf: "x \<in> set ?ps" if "x \<in> set hist" "y \<le> x" for x
    using indexed_suffix [OF assms(1) y(1) that] y(2) that(2) by simp
  have "f < y" if "f \<notin> set index" using that y(1,2) by (metis order_le_less)
  moreover have "{x \<in> set hist. f < x} = {x \<in> set hist. f < x \<and> x < y} \<union> set ?ps" if "f < y"
  proof (rule set_eqI)
    fix x
    have "x \<in> set hist \<and> f < x" if "x \<in> set ?ps"
      using that sub y(3) \<open>f < y\<close> by (meson filter_is_subset order_less_le_trans subsetD)
    moreover have "x \<in> set ?ps" if "x \<in> set hist" "\<not> x < y"
      using suf that by (meson not_less)
    ultimately show "x \<in> {x \<in> set hist. f < x} \<longleftrightarrow> x \<in> {x \<in> set hist. f < x \<and> x < y} \<union> set ?ps"
      by blast
  qed
  moreover have "{x \<in> set hist. f < x} \<subseteq> set ?ps" if "f \<in> set index"
    using indexed_suffix [OF assms(1) that] by auto
  moreover have "y = f" if "f \<in> set index"
  proof (rule order_antisym)
    have "f \<in> set ?ps" using that by simp
    then show "y \<le> f" using y(3) by blast
  qed (rule y(2))
  ultimately show ?thesis
    using index_range_eq [OF assms] ps by auto
qed

end
