(* ===== verification/TxnFinder.thy ===== *)
theory TxnFinder
  imports Prelude
begin

text \<open>
  The rendezvous between a committing transaction and the transaction processor: \<^verbatim>\<open>TransactionFinder\<close> of
  \<^verbatim>\<open>src/db/db_impl.h\<close> and \<^verbatim>\<open>db_impl.cc\<close>. A committing thread registers a waiter under the token of its
  transaction before it appends the intention, and afterwards waits for the decision on the position of
  the intention; the transaction processor notifies decisions in log order. All members are read and
  written under one lock, so each operation is atomic; \<^verbatim>\<open>WaitOnTransaction\<close> releases the lock only at
  \<^verbatim>\<open>cond.wait\<close>, so it is an initial part and one step per turn of its loop.

  Waiters live on the stacks of their threads and are named by their address. The iterators kept in a
  \<^verbatim>\<open>WaiterHandle\<close> are the token and the address they were obtained for; using one whose target is gone
  is a failing run. Tokens come from a random generator and are arguments.
\<close>

section \<open>State and operations\<close>

record waiter =
  w_complete :: bool
  w_committed :: "bool option"
  w_pos :: "u64 option"

record rendezvous =
  rv_waiters :: "nat list"
  rv_results :: "(u64 \<times> bool) list"

record finder =
  waiter_mem :: "nat \<Rightarrow> waiter option"
  token_waiters :: "u64 \<Rightarrow> rendezvous option"

definition new_waiter :: waiter where
  "new_waiter = \<lparr>w_complete = False, w_committed = None, w_pos = None\<rparr>"

definition new_rendezvous :: "nat \<Rightarrow> rendezvous" where
  "new_rendezvous w = \<lparr>rv_waiters = [w], rv_results = []\<rparr>"

definition new_finder :: finder where
  "new_finder = \<lparr>waiter_mem = (\<lambda>_. None), token_waiters = (\<lambda>_. None)\<rparr>"

definition put_rendezvous :: "u64 \<Rightarrow> rendezvous \<Rightarrow> finder \<Rightarrow> finder" where
  "put_rendezvous tok r F = F\<lparr>token_waiters := (token_waiters F)(tok \<mapsto> r)\<rparr>"

definition put_waiter :: "nat \<Rightarrow> waiter \<Rightarrow> finder \<Rightarrow> finder" where
  "put_waiter w wt F = F\<lparr>waiter_mem := (waiter_mem F)(w \<mapsto> wt)\<rparr>"

definition AddTokenWaiter :: "nat \<Rightarrow> u64 \<Rightarrow> finder \<Rightarrow> finder option" where
  "AddTokenWaiter w tok F =
     (if waiter_mem F w \<noteq> None then None
      else
        let F = put_waiter w new_waiter F
        in Some (case token_waiters F tok of
             None \<Rightarrow> put_rendezvous tok (new_rendezvous w) F
           | Some r \<Rightarrow> put_rendezvous tok (r\<lparr>rv_waiters := rv_waiters r @ [w]\<rparr>) F))"

text \<open>The part of \<^verbatim>\<open>WaitOnTransaction\<close> before its loop.\<close>

definition wait_begin :: "nat \<Rightarrow> u64 \<Rightarrow> finder \<Rightarrow> finder option" where
  "wait_begin w intention_pos F = do {
     wt \<leftarrow> waiter_mem F w;
     if w_pos wt \<noteq> None then None else Some (put_waiter w (wt\<lparr>w_pos := Some intention_pos\<rparr>) F) }"

text \<open>The part after the loop; the waiter goes out of scope with the handle.\<close>

definition wait_end :: "nat \<Rightarrow> u64 \<Rightarrow> finder \<Rightarrow> finder option" where
  "wait_end w tok F = do {
     r \<leftarrow> token_waiters F tok;
     let F = F\<lparr>waiter_mem := (waiter_mem F)(w := None)\<rparr>;
     Some (if rv_waiters r = [] \<and> rv_results r = []
           then F\<lparr>token_waiters := (token_waiters F)(tok := None)\<rparr> else F) }"

text \<open>One turn of the loop: a decision, or \<open>None\<close> for another wait on the condition variable.\<close>

definition wait_check :: "nat \<Rightarrow> u64 \<Rightarrow> u64 \<Rightarrow> finder \<Rightarrow> (bool option \<times> finder) option" where
  "wait_check w tok intention_pos F = do {
     wt \<leftarrow> waiter_mem F w;
     if w_complete wt then do {
       c \<leftarrow> w_committed wt;
       F \<leftarrow> wait_end w tok F;
       Some (Some c, F) }
     else do {
       r \<leftarrow> token_waiters F tok;
       case map_of (rv_results r) intention_pos of
         None \<Rightarrow> Some (None, F)
       | Some c \<Rightarrow>
           (if w \<notin> set (rv_waiters r) then None
            else do {
              let r = r\<lparr>rv_waiters := remove1 w (rv_waiters r),
                        rv_results := filter (\<lambda>p. fst p \<noteq> intention_pos) (rv_results r)\<rparr>;
              F \<leftarrow> wait_end w tok (put_rendezvous tok r F);
              Some (Some c, F) }) } }"

definition Notify :: "u64 \<Rightarrow> u64 \<Rightarrow> bool \<Rightarrow> finder \<Rightarrow> finder option" where
  "Notify tok intention_pos c F =
     (case token_waiters F tok of
        None \<Rightarrow> Some F
      | Some r \<Rightarrow>
          (case rv_waiters r of
             [] \<Rightarrow> None
           | fw # ws \<Rightarrow> do {
               wt \<leftarrow> waiter_mem F fw;
               if w_pos wt = Some intention_pos
               then Some (put_rendezvous tok (r\<lparr>rv_waiters := ws\<rparr>)
                            (put_waiter fw (wt\<lparr>w_complete := True, w_committed := Some c\<rparr>) F))
               else if map_of (rv_results r) intention_pos \<noteq> None then None
               else Some (put_rendezvous tok
                            (r\<lparr>rv_results := (intention_pos, c) # rv_results r\<rparr>) F) }))"

section \<open>Interleavings\<close>

datatype fevent =
  Add nat u64 | Begin nat u64 | Notified u64 u64 bool | Check nat u64 u64

fun fexec :: "fevent \<Rightarrow> finder \<Rightarrow> finder option" where
  "fexec (Add w tok) F = AddTokenWaiter w tok F"
| "fexec (Begin w pos) F = wait_begin w pos F"
| "fexec (Notified tok pos c) F = Notify tok pos c F"
| "fexec (Check w tok pos) F = map_option snd (wait_check w tok pos F)"

fun frun :: "fevent list \<Rightarrow> finder \<Rightarrow> finder option" where
  "frun [] F = Some F"
| "frun (e # es) F = do { F \<leftarrow> fexec e F; frun es F }"

lemma frun_append: "frun (es @ es') F = do { F \<leftarrow> frun es F; frun es' F }"
proof (induction es arbitrary: F)
  case (Cons e es)
  then show ?case by (cases "fexec e F") simp_all
qed simp

text \<open>Events of other transactions: neither the waiter nor the token.\<close>

fun other :: "nat \<Rightarrow> u64 \<Rightarrow> fevent \<Rightarrow> bool" where
  "other w tok (Add w' tok') \<longleftrightarrow> w' \<noteq> w \<and> tok' \<noteq> tok"
| "other w tok (Begin w' pos) \<longleftrightarrow> w' \<noteq> w"
| "other w tok (Notified tok' pos c) \<longleftrightarrow> tok' \<noteq> tok"
| "other w tok (Check w' tok' pos) \<longleftrightarrow> w' \<noteq> w \<and> tok' \<noteq> tok"

definition unlisted :: "nat \<Rightarrow> u64 \<Rightarrow> finder \<Rightarrow> bool" where
  "unlisted w tok F \<longleftrightarrow>
     (\<forall>t r. t \<noteq> tok \<longrightarrow> token_waiters F t = Some r \<longrightarrow> w \<notin> set (rv_waiters r))"

definition holds :: "nat \<Rightarrow> u64 \<Rightarrow> waiter \<Rightarrow> rendezvous \<Rightarrow> finder \<Rightarrow> bool" where
  "holds w tok wt r F \<longleftrightarrow>
     waiter_mem F w = Some wt \<and> token_waiters F tok = Some r \<and> unlisted w tok F"

lemmas finder_defs = put_rendezvous_def put_waiter_def new_rendezvous_def new_waiter_def

lemma put_rendezvous_other:
  "holds w tok wt r F \<Longrightarrow> tok' \<noteq> tok \<Longrightarrow> w \<notin> set (rv_waiters r') \<Longrightarrow>
   holds w tok wt r (put_rendezvous tok' r' F)"
  by (simp add: holds_def unlisted_def put_rendezvous_def)

lemma wait_end_other:
  "wait_end w' tok' F = Some F' \<Longrightarrow> holds w tok wt r F \<Longrightarrow> w' \<noteq> w \<Longrightarrow> tok' \<noteq> tok \<Longrightarrow> holds w tok wt r F'"
  by (auto simp: holds_def unlisted_def wait_end_def Let_def split: if_splits)

lemma other_step:
  assumes "holds w tok wt r F" and "other w tok e" and "fexec e F = Some F'"
  shows "holds w tok wt r F'"
proof (cases e)
  case (Add w' tok')
  then show ?thesis
    using assms
    by (auto simp: holds_def unlisted_def AddTokenWaiter_def finder_defs Let_def split: if_splits option.splits)
next
  case (Begin w' pos)
  then show ?thesis
    using assms by (auto simp: holds_def unlisted_def wait_begin_def finder_defs split: if_splits)
next
  case (Notified tok' pos c)
  then have n: "w \<notin> set (rv_waiters r')" if "token_waiters F tok' = Some r'" for r'
    using assms that by (auto simp: holds_def unlisted_def)
  show ?thesis
  proof (cases "token_waiters F tok'")
    case None
    then show ?thesis using assms Notified by (simp add: Notify_def)
  next
    case (Some r')
    then obtain fw ws where "rv_waiters r' = fw # ws" "fw \<noteq> w" "w \<notin> set ws"
      using assms(3) Notified n [OF Some] by (cases "rv_waiters r'") (auto simp: Notify_def)
    then show ?thesis
      using assms Notified Some
      by (auto simp: holds_def unlisted_def Notify_def finder_defs split: if_split_asm)
  qed
next
  case (Check w' tok' pos)
  then have ne: "w' \<noteq> w" "tok' \<noteq> tok" using assms(2) by simp_all
  obtain wt' o' where c: "waiter_mem F w' = Some wt'" "wait_check w' tok' pos F = Some (o', F')"
    using assms(3) Check by (auto simp: wait_check_def)
  show ?thesis
  proof (cases "w_complete wt'")
    case True
    then show ?thesis using c assms(1) ne by (auto simp: wait_check_def intro: wait_end_other)
  next
    case False
    then obtain r' where r': "token_waiters F tok' = Some r'"
      using c by (auto simp: wait_check_def)
    then have n: "w \<notin> set (rv_waiters r')" using assms(1) ne by (auto simp: holds_def unlisted_def)
    show ?thesis
    proof (cases "map_of (rv_results r') pos")
      case None
      then show ?thesis using c False r' assms(1) by (simp add: wait_check_def)
    next
      case (Some d)
      let ?r = "r'\<lparr>rv_waiters := remove1 w' (rv_waiters r'),
                  rv_results := filter (\<lambda>p. fst p \<noteq> pos) (rv_results r')\<rparr>"
      have "wait_end w' tok' (put_rendezvous tok' ?r F) = Some F'"
        using c False r' Some by (auto simp: wait_check_def Let_def split: if_splits)
      moreover have "holds w tok wt r (put_rendezvous tok' ?r F)"
        using put_rendezvous_other [OF assms(1) ne(2)] n by (simp add: notin_set_remove1)
      ultimately show ?thesis using wait_end_other ne by blast
    qed
  qed
qed

lemma other_run:
  assumes "frun es F = Some F'" and "holds w tok wt r F" and "\<forall>e \<in> set es. other w tok e"
  shows "holds w tok wt r F'"
  using assms by (induction es arbitrary: F) (auto dest: other_step)


section \<open>The steps of one transaction\<close>

lemma add_holds:
  assumes "waiter_mem F w = None" and "token_waiters F tok = None" and "unlisted w tok F"
  shows "\<exists>F'. AddTokenWaiter w tok F = Some F' \<and> holds w tok new_waiter (new_rendezvous w) F'"
  using assms by (auto simp: AddTokenWaiter_def holds_def unlisted_def put_rendezvous_def put_waiter_def Let_def)

lemma begin_holds:
  assumes "holds w tok wt r F" and "w_pos wt = None"
  shows "\<exists>F'. wait_begin w pos F = Some F' \<and> holds w tok (wt\<lparr>w_pos := Some pos\<rparr>) r F'"
  using assms by (auto simp: wait_begin_def holds_def unlisted_def put_waiter_def)

lemma notify_early:
  assumes "holds w tok wt (new_rendezvous w) F" and "w_pos wt = None"
  shows "\<exists>F'. Notify tok pos c F = Some F' \<and> holds w tok wt \<lparr>rv_waiters = [w], rv_results = [(pos, c)]\<rparr> F'"
  using assms by (auto simp: Notify_def holds_def unlisted_def put_rendezvous_def new_rendezvous_def)

lemma notify_late:
  assumes "holds w tok wt (new_rendezvous w) F" and "w_pos wt = Some pos"
  shows "\<exists>F'. Notify tok pos c F = Some F' \<and>
    holds w tok (wt\<lparr>w_complete := True, w_committed := Some c\<rparr>) \<lparr>rv_waiters = [], rv_results = []\<rparr> F'"
  using assms
  by (auto simp: Notify_def holds_def unlisted_def put_rendezvous_def put_waiter_def new_rendezvous_def)

lemma check_result:
  assumes "holds w tok wt \<lparr>rv_waiters = [w], rv_results = [(pos, c)]\<rparr> F" and "\<not> w_complete wt"
  shows "\<exists>F'. wait_check w tok pos F = Some (Some c, F') \<and> token_waiters F' tok = None \<and> waiter_mem F' w = None"
  using assms by (auto simp: wait_check_def wait_end_def holds_def put_rendezvous_def Let_def)

lemma check_complete:
  assumes "holds w tok wt \<lparr>rv_waiters = [], rv_results = []\<rparr> F" and "w_complete wt" and "w_committed wt = Some c"
  shows "\<exists>F'. wait_check w tok pos F = Some (Some c, F') \<and> token_waiters F' tok = None \<and> waiter_mem F' w = None"
  using assms by (auto simp: wait_check_def wait_end_def holds_def Let_def)

lemma check_waits:
  assumes "holds w tok wt (new_rendezvous w) F" and "\<not> w_complete wt"
  shows "wait_check w tok pos F = Some (None, F)"
  using assms by (auto simp: wait_check_def holds_def new_rendezvous_def)

section \<open>Properties\<close>



text \<open>Two waiters under one token. When both decisions arrive by the fast path and the second waiter runs
  first, it erases the entry of the token, and the first waiter then uses an iterator to the erased
  entry.\<close>

theorem shared_token_dangling_iterator:
  assumes "p \<noteq> q"
  shows "\<exists>F' F''. frun [Add 0 tok, Add 1 tok, Begin 0 p, Begin 1 q, Notified tok p c, Notified tok q d]
      new_finder = Some F' \<and>
    wait_check 1 tok q F' = Some (Some d, F'') \<and> wait_check 0 tok p F'' = None"
  using assms
  by (simp add: AddTokenWaiter_def wait_begin_def Notify_def wait_check_def wait_end_def finder_defs
      new_finder_def Let_def)

end
