(* ===== verification/AfterImageMatcher.thy ===== *)
theory AfterImageMatcher
  imports AfterImageProps
begin

text \<open>
  \<^verbatim>\<open>PrimaryAfterImageMatcher\<close> of \<^verbatim>\<open>src/db/entry_service.h\<close> and \<^verbatim>\<open>entry_service.cc\<close>: it pairs every committed tree
  with the first after image of its intention that appears in the log. Trees are watched in the order of
  their intentions; after images arrive in log order, possibly several for one intention. Each operation
  runs under the lock of the matcher. The \<^verbatim>\<open>std::map\<close> is an association list in ascending key order; a moved-out
  vector is empty.
\<close>

section \<open>State and operations\<close>

record ('k, 'v) pai =
  pai_pos :: "u64 option"
  pai_tree :: "('k, 'v) ptree option"
  pai_delta :: "nat list"

record ('k, 'v) matcher =
  m_shutdown :: bool
  matched_watermark :: u64
  afterimages :: "(u64 \<times> ('k, 'v) pai) list"
  matched :: "(nat list \<times> ('k, 'v) ptree) list"

definition new_matcher :: "('k, 'v) matcher" where
  "new_matcher = \<lparr>m_shutdown = False, matched_watermark = 0, afterimages = [], matched = []\<rparr>"

fun gc_loop ::
  "(u64 \<times> ('k, 'v) pai) list \<Rightarrow> u64 \<Rightarrow> ((u64 \<times> ('k, 'v) pai) list \<times> u64) option" where
  "gc_loop [] wm = Some ([], wm)"
| "gc_loop ((ipos, p) # ps) wm =
     (if \<not> wm < ipos then None
      else if pai_pos p = None \<and> pai_tree p = None then gc_loop ps ipos
      else Some ((ipos, p) # ps, wm))"

definition matcher_gc :: "('k, 'v) matcher \<Rightarrow> ('k, 'v) matcher option" where
  "matcher_gc M = do {
     (ps, wm) \<leftarrow> gc_loop (afterimages M) (matched_watermark M);
     Some (M\<lparr>afterimages := ps, matched_watermark := wm\<rparr>) }"

definition watch :: "nat list \<Rightarrow> ('k, 'v) ptree \<Rightarrow> ('k, 'v) matcher \<Rightarrow> ('k, 'v) matcher option" where
  "watch delta T M = do {
     ipos \<leftarrow> intention T;
     M \<leftarrow> (case map_of (afterimages M) ipos of
        None \<Rightarrow> Some (M\<lparr>afterimages := put_list ipos \<lparr>pai_pos = None, pai_tree = Some T, pai_delta = delta\<rparr>
                                       (afterimages M)\<rparr>)
      | Some p \<Rightarrow> do {
          pos \<leftarrow> pai_pos p;
          if pai_tree p \<noteq> None then None
          else do {
            T \<leftarrow> SetAfterImage pos T;
            Some (M\<lparr>afterimages := put_list ipos (p\<lparr>pai_pos := None\<rparr>) (afterimages M),
                    matched := matched M @ [(delta, T)]\<rparr>) } });
     matcher_gc M }"

text \<open>\<^verbatim>\<open>push\<close> reads only the intention position of the after image.\<close>

definition push :: "u64 \<Rightarrow> u64 \<Rightarrow> ('k, 'v) matcher \<Rightarrow> ('k, 'v) matcher option" where
  "push ipos pos M =
     (if ipos \<le> matched_watermark M then Some M
      else do {
        M \<leftarrow> (case map_of (afterimages M) ipos of
           None \<Rightarrow> Some (M\<lparr>afterimages := put_list ipos \<lparr>pai_pos = Some pos, pai_tree = None, pai_delta = []\<rparr>
                                          (afterimages M)\<rparr>)
         | Some p \<Rightarrow>
             (case (pai_pos p, pai_tree p) of
                (None, Some T) \<Rightarrow>
                  (if intention T \<noteq> Some ipos then None
                   else do {
                     T \<leftarrow> SetAfterImage pos T;
                     Some (M\<lparr>afterimages := put_list ipos (p\<lparr>pai_tree := None, pai_delta := []\<rparr>) (afterimages M),
                             matched := matched M @ [(pai_delta p, T)]\<rparr>) })
              | _ \<Rightarrow> Some M));
        matcher_gc M })"

text \<open>\<^verbatim>\<open>match\<close> blocks while there is nothing to return: \<open>None\<close>. After \<^verbatim>\<open>shutdown\<close> it returns a null tree.\<close>

definition match :: "('k, 'v) matcher \<Rightarrow> ((nat list \<times> ('k, 'v) ptree) option \<times> ('k, 'v) matcher) option" where
  "match M =
     (if m_shutdown M then Some (None, M)
      else case matched M of [] \<Rightarrow> None | x # xs \<Rightarrow> Some (Some x, M\<lparr>matched := xs\<rparr>))"

definition shutdown :: "('k, 'v) matcher \<Rightarrow> ('k, 'v) matcher" where
  "shutdown M = M\<lparr>m_shutdown := True\<rparr>"

section \<open>Specification\<close>

text \<open>The specification remembers the position of the first after image of every intention and every watched
  tree, and outputs a pair as soon as both are there.\<close>

datatype ('k, 'v) mevent = Watch u64 "nat list" "('k, 'v) ptree" | Push u64 u64

record ('k, 'v) mspec =
  first_ai :: "u64 \<Rightarrow> u64 option"
  watched :: "u64 \<Rightarrow> (nat list \<times> ('k, 'v) ptree) option"
  out :: "(nat list \<times> ('k, 'v) ptree) list"

definition new_mspec :: "('k, 'v) mspec" where
  "new_mspec = \<lparr>first_ai = (\<lambda>_. None), watched = (\<lambda>_. None), out = []\<rparr>"

fun spec_exec :: "('k, 'v) mevent \<Rightarrow> ('k, 'v) mspec \<Rightarrow> ('k, 'v) mspec" where
  "spec_exec (Watch i d T) S =
     S\<lparr>watched := (watched S)(i \<mapsto> (d, T)),
       out := out S @ (case first_ai S i of None \<Rightarrow> [] | Some q \<Rightarrow> [(d, T\<lparr>afterimage := Some q\<rparr>)])\<rparr>"
| "spec_exec (Push i q) S =
     (if first_ai S i \<noteq> None then S
      else S\<lparr>first_ai := (first_ai S)(i \<mapsto> q),
             out := out S @ (case watched S i of None \<Rightarrow> [] | Some (d, T) \<Rightarrow> [(d, T\<lparr>afterimage := Some q\<rparr>)])\<rparr>)"

fun impl_exec :: "('k, 'v) mevent \<Rightarrow> ('k, 'v) matcher \<Rightarrow> ('k, 'v) matcher option" where
  "impl_exec (Watch i d T) M = watch d T M"
| "impl_exec (Push i q) M = push i q M"

text \<open>The discipline of the interface: trees are watched once, in the order of their intentions.\<close>

fun allowed :: "('k, 'v) mevent \<Rightarrow> ('k, 'v) mspec \<Rightarrow> bool" where
  "allowed (Watch i d T) S \<longleftrightarrow>
     0 < i \<and> (\<forall>j. watched S j \<noteq> None \<longrightarrow> j < i) \<and> intention T = Some i \<and> afterimage T = None"
| "allowed (Push i q) S \<longleftrightarrow> True"

fun spec_run :: "('k, 'v) mevent list \<Rightarrow> ('k, 'v) mspec \<Rightarrow> ('k, 'v) mspec" where
  "spec_run [] S = S"
| "spec_run (e # es) S = spec_run es (spec_exec e S)"

fun impl_run :: "('k, 'v) mevent list \<Rightarrow> ('k, 'v) matcher \<Rightarrow> ('k, 'v) matcher option" where
  "impl_run [] M = Some M"
| "impl_run (e # es) M = do { M \<leftarrow> impl_exec e M; impl_run es M }"

fun all_allowed :: "('k, 'v) mevent list \<Rightarrow> ('k, 'v) mspec \<Rightarrow> bool" where
  "all_allowed [] S \<longleftrightarrow> True"
| "all_allowed (e # es) S \<longleftrightarrow> allowed e S \<and> all_allowed es (spec_exec e S)"

section \<open>Refinement\<close>

definition entry_of :: "('k, 'v) mspec \<Rightarrow> u64 \<Rightarrow> ('k, 'v) pai option" where
  "entry_of S i =
     (case (first_ai S i, watched S i) of
        (None, None) \<Rightarrow> None
      | (Some q, None) \<Rightarrow> Some \<lparr>pai_pos = Some q, pai_tree = None, pai_delta = []\<rparr>
      | (None, Some (d, T)) \<Rightarrow> Some \<lparr>pai_pos = None, pai_tree = Some T, pai_delta = d\<rparr>
      | (Some q, Some (d, T)) \<Rightarrow> Some \<lparr>pai_pos = None, pai_tree = None, pai_delta = []\<rparr>)"

definition watch_ok :: "('k, 'v) mspec \<Rightarrow> bool" where
  "watch_ok S \<longleftrightarrow> (\<forall>i d T. watched S i = Some (d, T) \<longrightarrow> intention T = Some i \<and> afterimage T = None)"

definition below_ok :: "u64 \<Rightarrow> ('k, 'v) mspec \<Rightarrow> bool" where
  "below_ok wm S \<longleftrightarrow>
     (wm = 0 \<or> watched S wm \<noteq> None) \<and> (\<forall>i \<le> wm. watched S i \<noteq> None \<longrightarrow> first_ai S i \<noteq> None)"

definition index_ok :: "(u64 \<times> ('k, 'v) pai) list \<Rightarrow> u64 \<Rightarrow> ('k, 'v) mspec \<Rightarrow> bool" where
  "index_ok ps wm S \<longleftrightarrow>
     skeys ps \<and> (\<forall>p \<in> set ps. wm < fst p) \<and> (\<forall>i. wm < i \<longrightarrow> map_of ps i = entry_of S i)"

definition refines :: "('k, 'v) matcher \<Rightarrow> ('k, 'v) mspec \<Rightarrow> bool" where
  "refines M S \<longleftrightarrow>
     matched M = out S \<and> watch_ok S \<and> below_ok (matched_watermark M) S \<and>
     index_ok (afterimages M) (matched_watermark M) S"

lemma gc_loop_ok:
  assumes "index_ok ps wm S" and "below_ok wm S"
  shows "\<exists>ps' wm'. gc_loop ps wm = Some (ps', wm') \<and> index_ok ps' wm' S \<and> below_ok wm' S"
  using assms
proof (induction ps wm rule: gc_loop.induct)
  case (2 ipos p ps wm)
  show ?case
  proof (cases "pai_pos p = None \<and> pai_tree p = None")
    case True
    have lt: "wm < ipos" and s: "skeys ps" "\<forall>q \<in> set ps. ipos < fst q"
      using "2.prems"(1) by (auto simp: index_ok_def)
    have e: "entry_of S i = map_of ((ipos, p) # ps) i" if "wm < i" for i
      using "2.prems"(1) that by (simp add: index_ok_def)
    have "entry_of S ipos = Some p" using e [OF lt] by simp
    then have m: "first_ai S ipos \<noteq> None" "watched S ipos \<noteq> None"
      using True by (auto simp: entry_of_def split: option.splits)
    have "watched S i = None" if "wm < i" "i < ipos" for i
    proof -
      have "map_of ps i = None" using s(2) that(2) by (force simp: map_of_eq_None_iff)
      then have "entry_of S i = None" using e [OF that(1)] that(2) by simp
      then show ?thesis by (auto simp: entry_of_def split: option.splits)
    qed
    then have "below_ok ipos S"
      using "2.prems"(2) m unfolding below_ok_def by (metis linorder_not_less order_le_less)
    moreover have "index_ok ps ipos S"
      using s e lt by (auto simp: index_ok_def)
    ultimately show ?thesis using "2.IH" lt True by auto
  next
    case False
    then show ?thesis using "2.prems" by (auto simp: index_ok_def)
  qed
qed auto

lemma matcher_gc_ok:
  assumes "refines M S"
  shows "\<exists>M'. matcher_gc M = Some M' \<and> refines M' S"
  using gc_loop_ok [of "afterimages M" "matched_watermark M" S] assms
  by (auto simp: matcher_gc_def refines_def)


lemma index_put:
  assumes "index_ok ps wm S" and "wm < i" and "entry_of S' i = Some p"
    and "\<And>j. j \<noteq> i \<Longrightarrow> entry_of S' j = entry_of S j"
  shows "index_ok (put_list i p ps) wm S'"
  unfolding index_ok_def
proof (intro conjI)
  show "skeys (put_list i p ps)" using assms(1) by (simp add: index_ok_def skeys_put_list)
  show "\<forall>q \<in> set (put_list i p ps). wm < fst q"
    using assms(1,2) by (auto simp: index_ok_def put_list_def)
  show "\<forall>j. wm < j \<longrightarrow> map_of (put_list i p ps) j = entry_of S' j"
    using assms by (auto simp: index_ok_def map_of_put_list)
qed

lemma watermark_below:
  "refines M S \<Longrightarrow> allowed (Watch i d T) S \<Longrightarrow> matched_watermark M < i"
  by (auto simp: refines_def below_ok_def)

lemma watch_refines:
  assumes "refines M S" and "allowed (Watch i d T) S"
  shows "\<exists>M'. watch d T M = Some M' \<and> refines M' (spec_exec (Watch i d T) S)"
proof -
  let ?S = "spec_exec (Watch i d T) S" and ?wm = "matched_watermark M"
  have lt: "?wm < i" by (rule watermark_below [OF assms])
  have T: "intention T = Some i" "afterimage T = None" using assms(2) by auto
  have w: "watched S i = None" using assms(2) by (cases "watched S i") auto
  have ix: "index_ok (afterimages M) ?wm S" and b: "below_ok ?wm S" and wo: "watch_ok S"
    and mo: "matched M = out S"
    using assms(1) by (auto simp: refines_def)
  have e: "map_of (afterimages M) i = entry_of S i" using ix lt by (simp add: index_ok_def)
  have same: "entry_of ?S j = entry_of S j" if "j \<noteq> i" for j using that by (simp add: entry_of_def)
  have b': "below_ok ?wm ?S" using b lt by (auto simp: below_ok_def)
  have wo': "watch_ok ?S" using wo T by (auto simp: watch_ok_def)
  show ?thesis
  proof (cases "first_ai S i")
    case None
    let ?p = "\<lparr>pai_pos = None, pai_tree = Some T, pai_delta = d\<rparr>"
    let ?M = "M\<lparr>afterimages := put_list i ?p (afterimages M)\<rparr>"
    have "entry_of ?S i = Some ?p" "entry_of S i = None" using None w by (simp_all add: entry_of_def)
    then have "refines ?M ?S" "watch d T M = matcher_gc ?M"
      using index_put [OF ix lt _ same] b' wo' mo None e T by (simp_all add: refines_def watch_def)
    then show ?thesis using matcher_gc_ok by metis
  next
    case (Some q)
    let ?p = "\<lparr>pai_pos = None, pai_tree = None, pai_delta = []\<rparr>"
    let ?M = "M\<lparr>afterimages := put_list i ?p (afterimages M),
                matched := matched M @ [(d, T\<lparr>afterimage := Some q\<rparr>)]\<rparr>"
    have "entry_of ?S i = Some ?p" "entry_of S i = Some \<lparr>pai_pos = Some q, pai_tree = None, pai_delta = []\<rparr>"
      using Some w by (simp_all add: entry_of_def)
    then have "refines ?M ?S" "watch d T M = matcher_gc ?M"
      using index_put [OF ix lt _ same] b' wo' mo Some e T
      by (simp_all add: refines_def watch_def SetAfterImage_def)
    then show ?thesis using matcher_gc_ok by metis
  qed
qed

lemma push_refines:
  assumes "refines M S"
  shows "\<exists>M'. push i q M = Some M' \<and> refines M' (spec_exec (Push i q) S)"
proof -
  let ?S = "spec_exec (Push i q) S" and ?wm = "matched_watermark M"
  have ix: "index_ok (afterimages M) ?wm S" and b: "below_ok ?wm S" and wo: "watch_ok S"
    and mo: "matched M = out S"
    using assms by (auto simp: refines_def)
  have ws: "watched ?S = watched S" by simp
  have fs: "first_ai ?S j = (if j = i \<and> first_ai S i = None then Some q else first_ai S j)" for j by simp
  have same: "entry_of ?S j = entry_of S j" if "j \<noteq> i" for j
    using that unfolding entry_of_def ws fs by simp
  have b': "below_ok ?wm ?S" using b unfolding below_ok_def ws fs by simp
  have wo': "watch_ok ?S" using wo unfolding watch_ok_def ws by simp
  show ?thesis
  proof (cases "i \<le> ?wm")
    case True
    then have w: "watched S i = None \<or> first_ai S i \<noteq> None" using b unfolding below_ok_def by blast
    have "index_ok (afterimages M) ?wm ?S"
      using ix same True by (auto simp: index_ok_def)
    moreover have "out ?S = out S" using w by auto
    ultimately have "refines M ?S" using b' wo' mo by (simp only: refines_def)
    then show ?thesis using True by (simp add: push_def)
  next
    case False
    then have lt: "?wm < i" by simp
    have e: "map_of (afterimages M) i = entry_of S i" using ix lt by (simp add: index_ok_def)
    consider (seen) r where "first_ai S i = Some r"
      | (new) "first_ai S i = None" "watched S i = None"
      | (pair) d T where "first_ai S i = None" "watched S i = Some (d, T)"
      by (cases "first_ai S i"; cases "watched S i") auto
    then show ?thesis
    proof cases
      case seen
      then have "push i q M = matcher_gc M"
        using lt e by (auto simp: push_def entry_of_def split: option.splits)
      then show ?thesis using matcher_gc_ok [OF assms] seen by simp
    next
      case new
      let ?p = "\<lparr>pai_pos = Some q, pai_tree = None, pai_delta = []\<rparr>"
      let ?M = "M\<lparr>afterimages := put_list i ?p (afterimages M)\<rparr>"
      have "entry_of ?S i = Some ?p" "entry_of S i = None" using new by (simp_all add: entry_of_def)
      then have "refines ?M ?S" "push i q M = matcher_gc ?M"
        using index_put [OF ix lt _ same] b' wo' mo new e False
        by (simp_all add: refines_def push_def)
      then show ?thesis using matcher_gc_ok by metis
    next
      case pair
      have T: "intention T = Some i" "afterimage T = None" using wo pair by (auto simp: watch_ok_def)
      let ?p = "\<lparr>pai_pos = None, pai_tree = None, pai_delta = []\<rparr>"
      let ?M = "M\<lparr>afterimages := put_list i ?p (afterimages M),
                  matched := matched M @ [(d, T\<lparr>afterimage := Some q\<rparr>)]\<rparr>"
      have "entry_of ?S i = Some ?p" "entry_of S i = Some \<lparr>pai_pos = None, pai_tree = Some T, pai_delta = d\<rparr>"
        using pair by (simp_all add: entry_of_def)
      then have "refines ?M ?S" "push i q M = matcher_gc ?M"
        using index_put [OF ix lt _ same] b' wo' mo pair e T False
        by (simp_all add: refines_def push_def SetAfterImage_def)
      then show ?thesis using matcher_gc_ok by metis
    qed
  qed
qed

lemma impl_refines:
  assumes "refines M S" and "allowed e S"
  shows "\<exists>M'. impl_exec e M = Some M' \<and> refines M' (spec_exec e S)"
proof (cases e)
  case (Watch i d T)
  then show ?thesis using watch_refines [OF assms(1)] assms(2) by simp
next
  case (Push i q)
  then show ?thesis using push_refines [OF assms(1)] by simp
qed

lemma run_refines:
  assumes "refines M S" and "all_allowed es S"
  shows "\<exists>M'. impl_run es M = Some M' \<and> refines M' (spec_run es S)"
  using assms
proof (induction es arbitrary: M S)
  case (Cons e es)
  then obtain M1 where "impl_exec e M = Some M1" "refines M1 (spec_exec e S)"
    using impl_refines by fastforce
  then show ?case using Cons by auto
qed simp

lemma new_refines: "refines new_matcher new_mspec"
  by (simp add: refines_def new_matcher_def new_mspec_def watch_ok_def below_ok_def index_ok_def entry_of_def)

text \<open>An entry that is first in the index and has an after image but no tree stops the collection.\<close>

definition stuck :: "u64 \<Rightarrow> ('k, 'v) matcher \<Rightarrow> bool" where
  "stuck i M \<longleftrightarrow>
     matched_watermark M < i \<and> skeys (afterimages M) \<and>
     (\<exists>p ps. afterimages M = (i, p) # ps \<and> pai_pos p \<noteq> None \<and> pai_tree p = None)"

fun event_pos :: "('k, 'v) mevent \<Rightarrow> u64" where
  "event_pos (Watch i d T) = i"
| "event_pos (Push i q) = i"

fun later_event :: "u64 \<Rightarrow> ('k, 'v) mevent \<Rightarrow> bool" where
  "later_event i (Watch j d T) \<longleftrightarrow> i < j \<and> intention T = Some j"
| "later_event i (Push j q) \<longleftrightarrow> i < j"

lemma put_list_first:
  "skeys ((i, p) # ps) \<Longrightarrow> i < j \<Longrightarrow> put_list j x ((i, p) # ps) = (i, p) # put_list j x ps"
  by (auto simp: put_list_def)

lemma stuck_gc: "stuck i M \<Longrightarrow> matcher_gc M = Some M"
  by (auto simp: stuck_def matcher_gc_def)

lemma stuck_put:
  assumes "stuck i M" and "i < j"
  shows "stuck i (M\<lparr>afterimages := put_list j x (afterimages M)\<rparr>)"
  using assms put_list_first [of i _ _ j x] skeys_put_list [of "afterimages M" j x]
  by (fastforce simp: stuck_def)


text \<open>The operations on a stuck index, as far as the index is concerned.\<close>

lemma stuck_exec:
  assumes "stuck i M" and "later_event i e" and "impl_exec e M = Some M'"
  shows "stuck i M' \<and> insert (event_pos e) (fst ` set (afterimages M)) = fst ` set (afterimages M')"
proof -
  have wm: "matched_watermark M < i" using assms(1) by (simp add: stuck_def)
  have keys: "fst ` set (put_list j x ps) = insert j (fst ` set ps)" for j x and ps :: "(u64 \<times> ('a, 'b) pai) list"
    unfolding dom_map_of_conv_image_fst [symmetric] map_of_put_list by simp
  have mem: "j \<in> fst ` set (afterimages M)" if "map_of (afterimages M) j = Some p" for j p
    using map_of_SomeD [OF that] by force
  have out: "stuck i (N\<lparr>matched := x\<rparr>) = stuck i N" for N :: "('a, 'b) matcher" and x
    by (simp add: stuck_def)
  have *: ?thesis if "matcher_gc (M\<lparr>afterimages := put_list j p (afterimages M), matched := x\<rparr>) = Some M'"
    and "event_pos e = j" and "i < j" for j p x
  proof -
    let ?N = "M\<lparr>afterimages := put_list j p (afterimages M), matched := x\<rparr>"
    have st: "stuck i ?N" unfolding out by (rule stuck_put [OF assms(1) that(3)])
    then have "M' = ?N" using that(1) stuck_gc [OF st] by simp
    then show ?thesis using st keys that(2) by simp
  qed
  have **: ?thesis if "matcher_gc (M\<lparr>afterimages := put_list j p (afterimages M)\<rparr>) = Some M'"
    and "event_pos e = j" and "i < j" for j p
    using * [where j = j and p = p and x = "matched M"] that by simp
  show ?thesis
  proof (cases e)
    case (Watch j d T)
    then have j: "i < j" "intention T = Some j" "watch d T M = Some M'" using assms(2,3) by simp_all
    show ?thesis
    proof (cases "map_of (afterimages M) j")
      case None
      then show ?thesis using j Watch ** by (simp add: watch_def)
    next
      case (Some p)
      then obtain p' x where
        "matcher_gc (M\<lparr>afterimages := put_list j p' (afterimages M), matched := x\<rparr>) = Some M'"
        using j by (auto simp: watch_def split: if_splits)
      then show ?thesis using * [where j = j] j(1) Watch by simp
    qed
  next
    case (Push j q)
    then have j: "i < j" "\<not> j \<le> matched_watermark M" "push j q M = Some M'"
      using assms(2,3) wm by auto
    show ?thesis
    proof (cases "map_of (afterimages M) j")
      case None
      then show ?thesis using j Push ** by (simp add: push_def)
    next
      case (Some p)
      show ?thesis
      proof (cases "pai_pos p = None \<and> pai_tree p \<noteq> None")
        case True
        then obtain p' x where
          "matcher_gc (M\<lparr>afterimages := put_list j p' (afterimages M), matched := x\<rparr>) = Some M'"
          using j Some by (auto simp: push_def split: if_splits)
        then show ?thesis using * [where j = j] j(1) Push by simp
      next
        case False
        then have "matcher_gc M = Some M'"
          using j Some by (auto simp: push_def split: option.splits)
        then have "M' = M" using stuck_gc [OF assms(1)] by simp
        then show ?thesis using mem [OF Some] assms(1) Push by auto
      qed
    qed
  qed
qed

lemma stuck_run:
  assumes "stuck i M" and "\<forall>e \<in> set es. later_event i e" and "impl_run es M = Some M'"
  shows "stuck i M' \<and> fst ` set (afterimages M') = fst ` set (afterimages M) \<union> event_pos ` set es"
  using assms
proof (induction es arbitrary: M)
  case (Cons e es)
  then obtain M1 where M1: "impl_exec e M = Some M1" "impl_run es M1 = Some M'" by auto
  have a: "stuck i M1" "insert (event_pos e) (fst ` set (afterimages M)) = fst ` set (afterimages M1)"
    using stuck_exec [OF Cons.prems(1) _ M1(1)] Cons.prems(2) by simp_all
  show ?case using Cons.IH [OF a(1) _ M1(2)] Cons.prems(2) by (simp flip: a(2))
qed simp

section \<open>Properties\<close>

text \<open>C19: the matcher implements its specification. For every interleaving of watches, in the order of the
  intentions, and after images from the log, no assertion fails and the sequence of matches is the one
  of the specification: each watched tree is matched once, with the first after image of its intention,
  when the later of the two arrives; duplicates and late after images change nothing.\<close>

theorem matcher_refines_spec:
  assumes "all_allowed es new_mspec"
  shows "\<exists>M. impl_run es new_matcher = Some M \<and> matched M = out (spec_run es new_mspec)"
  using run_refines [OF new_refines assms] by (auto simp: refines_def)

theorem matcher_refines_spec_witness:
  "\<exists>M. impl_run [Push 3 4, Watch 2 [5] (ptree_sample\<lparr>intention := Some 2\<rparr>), Push 3 6,
      Watch 3 [8] (ptree_sample\<lparr>intention := Some 3\<rparr>), Push 2 7] new_matcher = Some M \<and>
    matched M = [([8], ptree_sample\<lparr>intention := Some 3, afterimage := Some 4\<rparr>),
      ([5], ptree_sample\<lparr>intention := Some 2, afterimage := Some 7\<rparr>)]"
proof -
  have "afterimage ptree_sample = None" by (simp add: ptree_sample_def new_ptree_def heap.defs)
  then show ?thesis
    using matcher_refines_spec [of "[Push 3 4, Watch 2 [5] (ptree_sample\<lparr>intention := Some 2\<rparr>), Push 3 6,
      Watch 3 [8] (ptree_sample\<lparr>intention := Some 3\<rparr>), Push 2 7]"]
    by (simp add: new_mspec_def)
qed

text \<open>An after image of an intention that this instance never watches, such as the one a restored database
  starts from, blocks the collection of the index when every later event concerns later intentions:
  after any sequence of them the index still holds an entry for every intention mentioned.\<close>

theorem unwatched_after_image_blocks_gc:
  fixes M :: "('k, 'v) matcher"
  assumes "0 < i" and "\<forall>e \<in> set es. later_event i e" and "impl_run (Push i q # es) new_matcher = Some M"
  shows "matched_watermark M < i \<and> fst ` set (afterimages M) = insert i (event_pos ` set es)"
proof -
  let ?M = "(new_matcher :: ('k, 'v) matcher)\<lparr>afterimages := [(i, \<lparr>pai_pos = Some q, pai_tree = None, pai_delta = []\<rparr>)]\<rparr>"
  have st: "stuck i ?M" using assms(1) by (simp add: stuck_def new_matcher_def)
  have ne: "i \<noteq> 0" using assms(1) by auto
  have "impl_exec (Push i q) new_matcher = matcher_gc ?M"
    using ne by (simp add: push_def new_matcher_def put_list_def)
  then have "impl_run es ?M = Some M" using assms(3) stuck_gc [OF st] by auto
  from stuck_run [OF st assms(2) this] show ?thesis by (auto simp: stuck_def)
qed

end
