(* ===== verification/EntryService.thy ===== *)
theory EntryService
  imports AfterImageMatcher CommittedIndex
begin

text \<open>
  The entry service (\<^verbatim>\<open>src/db/entry_service.h\<close> and \<^verbatim>\<open>entry_service.cc\<close>): the only user of the log. It appends
  intentions and after images, reads entries through a cache, and runs a thread that follows the tail of
  the log and hands after images to the matcher.

  The log (\<^verbatim>\<open>zlog::Log\<close>) and the byte encoding of messages (protobuf) are not part of the program: they are
  parameters. A log is a record of operations on an abstract log state \<open>'l\<close>, which also stands for what other
  clients do between the calls; a codec is a pair of functions. The loops that retry a failing log
  operation may not end, and \<open>None\<close> stands for that as for a failed assertion. Statistics and the
  condition variables that wake up readers are left out; a reader that has to wait is a result of its own.
\<close>

section \<open>Parameters\<close>

record 'l zlog =
  z_read :: "u64 \<Rightarrow> 'l \<Rightarrow> (errno + string) \<times> 'l"
  z_append :: "string \<Rightarrow> 'l \<Rightarrow> (errno + u64) \<times> 'l"
  z_tail :: "'l \<Rightarrow> (errno + u64) \<times> 'l"
  z_fill :: "u64 \<Rightarrow> 'l \<Rightarrow> errno option \<times> 'l"

record codec =
  enc :: "log_entry \<Rightarrow> string"
  dec :: "string \<Rightarrow> log_entry option"

section \<open>State\<close>

datatype cache_entry =
  CIntention intention | CAfterImage "(string, string) after_image" | CFilled

record entry_service =
  entry_cache :: "(u64 \<times> cache_entry) list"
  es_pos :: u64
  es_stop :: bool
  max_pos :: u64
  cache_size :: nat
  ai_matcher :: "(string, string) matcher"

definition new_entry_service :: "nat \<Rightarrow> entry_service" where
  "new_entry_service n =
     \<lparr>entry_cache = [], es_pos = 0, es_stop = False, max_pos = 0, cache_size = n, ai_matcher = new_matcher\<rparr>"

definition Start :: "u64 \<Rightarrow> entry_service \<Rightarrow> entry_service" where
  "Start pos S = S\<lparr>es_pos := pos\<rparr>"

definition Stop :: "entry_service \<Rightarrow> entry_service" where
  "Stop S = S\<lparr>es_stop := True, ai_matcher := shutdown (ai_matcher S)\<rparr>"

function cache_gc_loop :: "nat \<Rightarrow> (u64 \<times> cache_entry) list \<Rightarrow> (u64 \<times> cache_entry) list" where
  "cache_gc_loop n ps = (if length ps > n then cache_gc_loop n (tl ps) else ps)"
  by auto
termination by (relation "measure (\<lambda>(n, ps). length ps)") auto

declare cache_gc_loop.simps [simp del]

definition entry_cache_gc :: "entry_service \<Rightarrow> entry_service" where
  "entry_cache_gc S = S\<lparr>entry_cache := cache_gc_loop (cache_size S) (entry_cache S)\<rparr>"

text \<open>\<^verbatim>\<open>entry_cache_.emplace\<close> keeps an entry that is already there.\<close>

definition cache_emplace :: "u64 \<Rightarrow> cache_entry \<Rightarrow> entry_service \<Rightarrow> entry_service" where
  "cache_emplace pos e S =
     (if map_of (entry_cache S) pos \<noteq> None then S
      else S\<lparr>entry_cache := put_list pos e (entry_cache S)\<rparr>)"

definition raise_max_pos :: "u64 \<Rightarrow> entry_service \<Rightarrow> entry_service" where
  "raise_max_pos pos S = S\<lparr>max_pos := max (max_pos S) pos\<rparr>"

definition ClearCaches :: "entry_service \<Rightarrow> entry_service" where
  "ClearCaches S = S\<lparr>entry_cache := []\<rparr>"

text \<open>The cache entry made from a decoded log entry.\<close>

fun as_entry :: "u64 \<Rightarrow> log_entry \<Rightarrow> cache_entry" where
  "as_entry pos (INTENTION m) = CIntention (intention_at m pos)"
| "as_entry pos (AFTER_IMAGE ai) = CAfterImage ai"

section \<open>Tail, fill and append\<close>

definition CheckTail ::
  "'l zlog \<Rightarrow> bool \<Rightarrow> entry_service \<Rightarrow> 'l \<Rightarrow> (u64 \<times> entry_service \<times> 'l) option" where
  "CheckTail z update S l =
     (case z_tail z l of
        (Inl _, _) \<Rightarrow> None
      | (Inr pos, l) \<Rightarrow> Some (pos, (if update then raise_max_pos pos S else S), l))"

partial_function (option) Fill :: "'l zlog \<Rightarrow> u64 \<Rightarrow> 'l \<Rightarrow> 'l option" where
  "Fill z pos l =
     (case z_fill z pos l of
        (None, l) \<Rightarrow> Some l
      | (Some err, l) \<Rightarrow> if err = EROFS then None else Fill z pos l)"

partial_function (option) Append_data :: "'l zlog \<Rightarrow> string \<Rightarrow> 'l \<Rightarrow> (u64 \<times> 'l) option" where
  "Append_data z data l =
     (case z_append z data l of
        (Inr pos, l) \<Rightarrow> Some (pos, l)
      | (Inl _, l) \<Rightarrow> Append_data z data l)"

definition Append_msg :: "'l zlog \<Rightarrow> codec \<Rightarrow> pb_intention \<Rightarrow> 'l \<Rightarrow> (u64 \<times> 'l) option" where
  "Append_msg z c m l = Append_data z (enc c (INTENTION m)) l"

definition Append_after_image ::
  "'l zlog \<Rightarrow> codec \<Rightarrow> (string, string) after_image \<Rightarrow> 'l \<Rightarrow> (u64 \<times> 'l) option" where
  "Append_after_image z c ai l = Append_data z (enc c (AFTER_IMAGE ai)) l"

definition Append_intention ::
  "'l zlog \<Rightarrow> codec \<Rightarrow> intention \<Rightarrow> entry_service \<Rightarrow> 'l \<Rightarrow> (u64 \<times> entry_service \<times> 'l) option" where
  "Append_intention z c i S l = do {
     (e, i) \<leftarrow> Serialize i;
     (pos, l) \<leftarrow> Append_data z (enc c e) l;
     i \<leftarrow> SetPosition pos i;
     Some (pos, raise_max_pos pos (entry_cache_gc (cache_emplace pos (CIntention i) S)), l) }"

section \<open>Reading through the cache\<close>

text \<open>The end of every read that missed the cache: \<^verbatim>\<open>emplace\<close>, then \<^verbatim>\<open>entry_cache_gc\<close>, then a read through the
  iterator that \<^verbatim>\<open>emplace\<close> returned, which is gone when the collection erased the entry.\<close>

definition cache_insert :: "u64 \<Rightarrow> cache_entry \<Rightarrow> entry_service \<Rightarrow> (cache_entry \<times> entry_service) option" where
  "cache_insert pos e S = do {
     let S = entry_cache_gc (cache_emplace pos e S);
     e \<leftarrow> map_of (entry_cache S) pos;
     Some (e, S) }"

datatype read_start = Hit cache_entry | Wait | Go

definition Read_start :: "u64 \<Rightarrow> entry_service \<Rightarrow> read_start" where
  "Read_start pos S =
     (case map_of (entry_cache S) pos of
        Some e \<Rightarrow> Hit e
      | None \<Rightarrow> if max_pos S < pos then Wait else Go)"

text \<open>The condition under which a waiting reader goes on.\<close>

definition Read_wake :: "u64 \<Rightarrow> entry_service \<Rightarrow> bool" where
  "Read_wake pos S \<longleftrightarrow> pos \<le> max_pos S \<or> es_stop S"

partial_function (option) read_loop ::
  "'l zlog \<Rightarrow> u64 \<Rightarrow> bool \<Rightarrow> 'l \<Rightarrow> (string option \<times> 'l) option" where
  "read_loop z pos fill l =
     (case z_read z pos l of
        (Inr data, l) \<Rightarrow> Some (Some data, l)
      | (Inl err, l) \<Rightarrow>
          (if err = ENODATA then Some (None, l)
           else if err = ENOENT then
             (if fill then
                (case z_fill z pos l of
                   (None, l) \<Rightarrow> read_loop z pos fill l
                 | (Some err, l) \<Rightarrow> if err = EROFS then read_loop z pos fill l else None)
              else read_loop z pos fill l)
           else None))"

definition Read_fetch ::
  "'l zlog \<Rightarrow> codec \<Rightarrow> u64 \<Rightarrow> bool \<Rightarrow> entry_service \<Rightarrow> 'l \<Rightarrow> (cache_entry \<times> entry_service \<times> 'l) option" where
  "Read_fetch z c pos fill S l = do {
     (data, l) \<leftarrow> read_loop z pos fill l;
     case data of
       None \<Rightarrow> do { (e, S) \<leftarrow> cache_insert pos CFilled S; Some (e, S, l) }
     | Some data \<Rightarrow> do {
         entry \<leftarrow> dec c data;
         (e, S) \<leftarrow> cache_insert pos (as_entry pos entry) S;
         Some (e, S, l) } }"

text \<open>\<^verbatim>\<open>Read\<close> when no other thread runs meanwhile: a reader that has to wait does not return unless the service
  is stopped, in which case it returns nothing.\<close>

definition Read ::
  "'l zlog \<Rightarrow> codec \<Rightarrow> u64 \<Rightarrow> bool \<Rightarrow> entry_service \<Rightarrow> 'l \<Rightarrow> (cache_entry option \<times> entry_service \<times> 'l) option" where
  "Read z c pos fill S l =
     (case Read_start pos S of
        Hit e \<Rightarrow> Some (Some e, S, l)
      | Wait \<Rightarrow> if es_stop S then Some (None, S, l) else None
      | Go \<Rightarrow> do { (e, S, l) \<leftarrow> Read_fetch z c pos fill S l; Some (Some e, S, l) })"

partial_function (option) read_retry :: "'l zlog \<Rightarrow> u64 \<Rightarrow> 'l \<Rightarrow> (string \<times> 'l) option" where
  "read_retry z pos l =
     (case z_read z pos l of
        (Inr data, l) \<Rightarrow> Some (data, l)
      | (Inl err, l) \<Rightarrow> if err = ENODATA then None else read_retry z pos l)"

definition ReadAfterImage ::
  "'l zlog \<Rightarrow> codec \<Rightarrow> u64 \<Rightarrow> entry_service \<Rightarrow> 'l \<Rightarrow>
   ((string, string) after_image \<times> entry_service \<times> 'l) option" where
  "ReadAfterImage z c pos S l =
     (case map_of (entry_cache S) pos of
        Some e \<Rightarrow> (case e of CAfterImage ai \<Rightarrow> Some (ai, S, l) | _ \<Rightarrow> None)
      | None \<Rightarrow> do {
          (data, l) \<leftarrow> read_retry z pos l;
          entry \<leftarrow> dec c data;
          case entry of
            INTENTION _ \<Rightarrow> None
          | AFTER_IMAGE ai \<Rightarrow> do {
              (e, S) \<leftarrow> cache_insert pos (CAfterImage ai) S;
              case e of CAfterImage ai \<Rightarrow> Some (ai, S, l) | _ \<Rightarrow> None } })"

text \<open>\<^verbatim>\<open>ReadIntentions\<close>: the loop over the cache, the asynchronous reads of the missing positions (completed in
  order), and the loop that decodes them.\<close>

fun lookup_loop :: "u64 list \<Rightarrow> entry_service \<Rightarrow> (intention list \<times> u64 list) option" where
  "lookup_loop [] S = Some ([], [])"
| "lookup_loop (pos # ps) S = do {
     (is, missing) \<leftarrow> lookup_loop ps S;
     case map_of (entry_cache S) pos of
       Some e \<Rightarrow> (case e of CIntention i \<Rightarrow> Some (i # is, missing) | _ \<Rightarrow> None)
     | None \<Rightarrow> Some (is, pos # missing) }"

fun aio_loop :: "'l zlog \<Rightarrow> u64 list \<Rightarrow> 'l \<Rightarrow> (string list \<times> 'l) option" where
  "aio_loop z [] l = Some ([], l)"
| "aio_loop z (pos # ps) l = do {
     (data, l) \<leftarrow> read_retry z pos l;
     (blobs, l) \<leftarrow> aio_loop z ps l;
     Some (data # blobs, l) }"

fun decode_loop ::
  "codec \<Rightarrow> (u64 \<times> string) list \<Rightarrow> entry_service \<Rightarrow> (intention list \<times> entry_service) option" where
  "decode_loop c [] S = Some ([], S)"
| "decode_loop c ((pos, data) # bs) S = do {
     entry \<leftarrow> dec c data;
     case entry of
       AFTER_IMAGE _ \<Rightarrow> None
     | INTENTION m \<Rightarrow> do {
         (e, S) \<leftarrow> cache_insert pos (CIntention (intention_at m pos)) S;
         case e of
           CIntention i \<Rightarrow> do { (is, S) \<leftarrow> decode_loop c bs S; Some (i # is, S) }
         | _ \<Rightarrow> None } }"

definition ReadIntentions ::
  "'l zlog \<Rightarrow> codec \<Rightarrow> u64 list \<Rightarrow> entry_service \<Rightarrow> 'l \<Rightarrow> (intention list \<times> entry_service \<times> 'l) option" where
  "ReadIntentions z c positions S l = do {
     (cached, missing) \<leftarrow> lookup_loop positions S;
     (blobs, l) \<leftarrow> aio_loop z missing l;
     (fetched, S) \<leftarrow> decode_loop c (zip missing blobs) S;
     Some (cached @ fetched, S, l) }"

section \<open>Iterators over the log\<close>

text \<open>An iterator is the position of its next read. The reverse iterator wraps around below position 0.\<close>

definition advance_reverse :: "u64 \<Rightarrow> u64 \<times> u64" where
  "advance_reverse pos = (pos, pos - 1)"

definition advance_forward :: "u64 \<Rightarrow> u64 \<times> u64" where
  "advance_forward pos = (pos, pos + 1)"

definition NextEntry ::
  "(u64 \<Rightarrow> u64 \<times> u64) \<Rightarrow> 'l zlog \<Rightarrow> codec \<Rightarrow> bool \<Rightarrow> u64 \<Rightarrow> entry_service \<Rightarrow> 'l \<Rightarrow>
   ((u64 \<times> cache_entry) option \<times> u64 \<times> entry_service \<times> 'l) option" where
  "NextEntry advance z c fill it S l = do {
     let (pos, it) = advance it;
     (e, S, l) \<leftarrow> Read z c pos fill S l;
     Some (map_option (\<lambda>e. (pos, e)) e, it, S, l) }"

partial_function (option) IntentionIterator_Next ::
  "'l zlog \<Rightarrow> codec \<Rightarrow> u64 \<Rightarrow> entry_service \<Rightarrow> 'l \<Rightarrow> (intention option \<times> u64 \<times> entry_service \<times> 'l) option" where
  "IntentionIterator_Next z c it S l = do {
     (entry, it, S, l) \<leftarrow> NextEntry advance_forward z c False it S l;
     case entry of
       None \<Rightarrow> Some (None, it, S, l)
     | Some (pos, e) \<Rightarrow>
         (case e of CIntention i \<Rightarrow> Some (Some i, it, S, l) | _ \<Rightarrow> IntentionIterator_Next z c it S l) }"

partial_function (option) AfterImageIterator_Next ::
  "'l zlog \<Rightarrow> codec \<Rightarrow> u64 \<Rightarrow> entry_service \<Rightarrow> 'l \<Rightarrow>
   ((u64 \<times> (string, string) after_image) option \<times> u64 \<times> entry_service \<times> 'l) option" where
  "AfterImageIterator_Next z c it S l = do {
     (entry, it, S, l) \<leftarrow> NextEntry advance_forward z c False it S l;
     case entry of
       None \<Rightarrow> Some (None, it, S, l)
     | Some (pos, e) \<Rightarrow>
         (case e of CAfterImage ai \<Rightarrow> Some (Some (pos, ai), it, S, l) | _ \<Rightarrow> AfterImageIterator_Next z c it S l) }"

section \<open>The thread that follows the log\<close>

text \<open>One pass through the body of the inner loop of \<^verbatim>\<open>IOEntry\<close>; the flag says that the body left the loop.\<close>

definition IO_body ::
  "'l zlog \<Rightarrow> codec \<Rightarrow> u64 \<Rightarrow> entry_service \<Rightarrow> 'l \<Rightarrow> (bool \<times> u64 \<times> entry_service \<times> 'l) option" where
  "IO_body z c next S l =
     (case map_of (entry_cache S) next of
        Some _ \<Rightarrow> Some (False, next + 1, S, l)
      | None \<Rightarrow>
          (case z_read z next l of
             (Inl err, l) \<Rightarrow>
               (if err = ENOENT then Some (False, next, S, l)
                else if err = ENODATA then Some (True, next, S, l)
                else None)
           | (Inr data, l) \<Rightarrow> do {
               entry \<leftarrow> dec c data;
               m \<leftarrow> (case entry of
                       AFTER_IMAGE ai \<Rightarrow> push (ai_intention ai) next (ai_matcher S)
                     | INTENTION _ \<Rightarrow> Some (ai_matcher S));
               let S = S\<lparr>ai_matcher := m\<rparr>;
               let S = raise_max_pos next (entry_cache_gc (cache_emplace next (as_entry next entry) S));
               Some (False, next + 1, S, l) }))"

partial_function (option) IO_inner ::
  "'l zlog \<Rightarrow> codec \<Rightarrow> u64 \<Rightarrow> u64 \<Rightarrow> entry_service \<Rightarrow> 'l \<Rightarrow> (u64 \<times> entry_service \<times> 'l) option" where
  "IO_inner z c tail next S l =
     (if next < tail then do {
        (broke, next, S, l) \<leftarrow> IO_body z c next S l;
        if broke then Some (next, S, l) else IO_inner z c tail next S l }
      else Some (next, S, l))"

text \<open>One turn of the outer loop, when the service is not stopped.\<close>

definition IO_turn ::
  "'l zlog \<Rightarrow> codec \<Rightarrow> u64 \<Rightarrow> entry_service \<Rightarrow> 'l \<Rightarrow> (u64 \<times> entry_service \<times> 'l) option" where
  "IO_turn z c next S l = do {
     (tail, S, l) \<leftarrow> CheckTail z False S l;
     if \<not> next \<le> tail then None
     else if next = tail then Some (next, S, l)
     else IO_inner z c tail next S l }"

end
