(* ===== verification/EntryServiceProps.thy ===== *)
theory EntryServiceProps
  imports EntryService "HOL-Library.Multiset"
begin

text \<open>
  What the entry service guarantees over a log whose written positions never change: the cache agrees with
  the log, reads return what the log holds, and appended intentions can be read back. The last
  properties are about the corners: an entry evicted while it is being returned, a filled position that
  stops the thread that follows the log, and an after image that this thread never hands on.
\<close>

section \<open>What is assumed of the log\<close>

text \<open>\<open>slots l p\<close> is the content of position \<open>p\<close>. Positions are written once: no operation changes one that is
  written or filled. A successful read returns the content, \<^verbatim>\<open>-ENODATA\<close> says that the position is filled,
  and a successful append writes a position that was unwritten.\<close>

datatype slot = Unwritten | Filled | Written string

definition grows :: "('l \<Rightarrow> u64 \<Rightarrow> slot) \<Rightarrow> 'l \<Rightarrow> 'l \<Rightarrow> bool" where
  "grows slots l l' \<longleftrightarrow> (\<forall>p. slots l p \<noteq> Unwritten \<longrightarrow> slots l' p = slots l p)"

definition log_spec :: "'l zlog \<Rightarrow> ('l \<Rightarrow> u64 \<Rightarrow> slot) \<Rightarrow> bool" where
  "log_spec z slots \<longleftrightarrow>
     (\<forall>p l r l'. z_read z p l = (r, l') \<longrightarrow>
        grows slots l l' \<and> (\<forall>d. r = Inr d \<longrightarrow> slots l' p = Written d) \<and> (r = Inl ENODATA \<longrightarrow> slots l' p = Filled)) \<and>
     (\<forall>d l r l'. z_append z d l = (r, l') \<longrightarrow>
        grows slots l l' \<and> (\<forall>p. r = Inr p \<longrightarrow> slots l p = Unwritten \<and> slots l' p = Written d)) \<and>
     (\<forall>p l r l'. z_fill z p l = (r, l') \<longrightarrow> grows slots l l' \<and> (r = None \<longrightarrow> slots l' p = Filled)) \<and>
     (\<forall>l r l'. z_tail z l = (r, l') \<longrightarrow> grows slots l l')"

text \<open>The codec decodes what it encoded.\<close>

definition codec_spec :: "codec \<Rightarrow> bool" where
  "codec_spec c \<longleftrightarrow> (\<forall>e. dec c (enc c e) = Some e)"

text \<open>The entry that the log holds at a position.\<close>

definition log_entry_at :: "codec \<Rightarrow> ('l \<Rightarrow> u64 \<Rightarrow> slot) \<Rightarrow> 'l \<Rightarrow> u64 \<Rightarrow> cache_entry option" where
  "log_entry_at c slots l pos =
     (case slots l pos of
        Unwritten \<Rightarrow> None
      | Filled \<Rightarrow> Some CFilled
      | Written d \<Rightarrow> map_option (as_entry pos) (dec c d))"

definition coherent :: "codec \<Rightarrow> ('l \<Rightarrow> u64 \<Rightarrow> slot) \<Rightarrow> entry_service \<Rightarrow> 'l \<Rightarrow> bool" where
  "coherent c slots S l \<longleftrightarrow>
     skeys (entry_cache S) \<and>
     (\<forall>pos e. map_of (entry_cache S) pos = Some e \<longrightarrow> log_entry_at c slots l pos = Some e)"

lemma grows_refl [simp]: "grows slots l l"
  by (simp add: grows_def)

lemma grows_trans: "grows slots l l' \<Longrightarrow> grows slots l' l'' \<Longrightarrow> grows slots l l''"
  by (auto simp: grows_def)

lemma grows_entry: "grows slots l l' \<Longrightarrow> log_entry_at c slots l pos = Some e \<Longrightarrow> log_entry_at c slots l' pos = Some e"
  by (auto simp: grows_def log_entry_at_def split: slot.splits)

lemma coherent_grows: "coherent c slots S l \<Longrightarrow> grows slots l l' \<Longrightarrow> coherent c slots S l'"
  by (auto simp: coherent_def intro: grows_entry)

lemma coherent_fields [simp]:
  "coherent c slots (S\<lparr>max_pos := x\<rparr>) l = coherent c slots S l"
  "coherent c slots (S\<lparr>ai_matcher := m\<rparr>) l = coherent c slots S l"
  by (simp_all add: coherent_def)

section \<open>The cache\<close>

lemma cache_gc_loop_eq: "cache_gc_loop n ps = drop (length ps - n) ps"
proof (induction n ps rule: cache_gc_loop.induct)
  case (1 n ps)
  show ?case
  proof (cases "length ps > n")
    case True
    then show ?thesis
      using 1 by (subst cache_gc_loop.simps) (simp add: tl_drop drop_Suc flip: drop_Suc, simp add: drop_Suc [symmetric] Suc_diff_Suc)
  next
    case False
    then show ?thesis by (subst cache_gc_loop.simps) simp
  qed
qed

lemma skeys_drop: "skeys ps \<Longrightarrow> skeys (drop k ps)"
  by (simp add: drop_map [symmetric] sorted_wrt_drop)

lemma map_of_drop:
  assumes "skeys ps" and "map_of (drop k ps) x = Some e"
  shows "map_of ps x = Some e"
proof -
  have "(x, e) \<in> set (drop k ps)" using assms(2) by (rule map_of_SomeD)
  then have "(x, e) \<in> set ps" by (rule in_set_dropD)
  moreover have "distinct (map fst ps)" using assms(1) by (simp add: strict_sorted_iff)
  ultimately show ?thesis by simp
qed

lemma emplace_coherent:
  assumes "coherent c slots S l" and "log_entry_at c slots l pos = Some e"
  shows "coherent c slots (entry_cache_gc (cache_emplace pos e S)) l"
proof -
  have "coherent c slots (cache_emplace pos e S) l"
    using assms by (auto simp: coherent_def cache_emplace_def skeys_put_list map_of_put_list)
  then show ?thesis
    by (auto simp: coherent_def entry_cache_gc_def cache_gc_loop_eq skeys_drop dest: map_of_drop)
qed

lemma cache_insert_coherent:
  assumes "cache_insert pos e S = Some (e', S')" and "coherent c slots S l" and "log_entry_at c slots l pos = Some e"
  shows "coherent c slots S' l \<and> e' = e"
  using emplace_coherent [OF assms(2,3)] assms by (auto simp: cache_insert_def coherent_def Let_def)

lemma cache_insert_room:
  assumes "map_of (entry_cache S) pos = None" and "length (entry_cache S) < cache_size S" and "skeys (entry_cache S)"
  shows "cache_insert pos e S = Some (e, S\<lparr>entry_cache := put_list pos e (entry_cache S)\<rparr>) \<and>
    length (put_list pos e (entry_cache S)) = Suc (length (entry_cache S))"
proof -
  have n: "\<forall>p \<in> set (entry_cache S). fst p \<noteq> pos" using assms(1) by (auto simp: map_of_eq_None_iff)
  have "filter (\<lambda>p. pos < fst p) (entry_cache S) = filter (\<lambda>p. \<not> fst p < pos) (entry_cache S)"
    using n by (intro filter_cong refl) (auto simp: not_less order_le_less)
  then have "length (put_list pos e (entry_cache S)) = Suc (length (entry_cache S))"
    using sum_length_filter_compl [of "\<lambda>p. fst p < pos" "entry_cache S"] by (simp add: put_list_def)
  then show ?thesis
    using assms by (simp add: cache_insert_def cache_emplace_def entry_cache_gc_def cache_gc_loop_eq map_of_put_list Let_def)
qed


section \<open>Reads return what the log holds\<close>

lemma log_spec_read:
  "log_spec z slots \<Longrightarrow> z_read z p l = (r, l') \<Longrightarrow> grows slots l l'"
  "log_spec z slots \<Longrightarrow> z_read z p l = (Inr d, l') \<Longrightarrow> slots l' p = Written d"
  "log_spec z slots \<Longrightarrow> z_read z p l = (Inl ENODATA, l') \<Longrightarrow> slots l' p = Filled"
  unfolding log_spec_def by blast+

lemma log_spec_append:
  "log_spec z slots \<Longrightarrow> z_append z d l = (r, l') \<Longrightarrow> grows slots l l'"
  "log_spec z slots \<Longrightarrow> z_append z d l = (Inr p, l') \<Longrightarrow> slots l' p = Written d"
  unfolding log_spec_def by blast+

lemma log_spec_fill: "log_spec z slots \<Longrightarrow> z_fill z p l = (r, l') \<Longrightarrow> grows slots l l'"
  unfolding log_spec_def by blast

lemma read_retry_spec:
  assumes "read_retry z pos l = Some (d, l')" and "log_spec z slots"
  shows "grows slots l l' \<and> slots l' pos = Written d"
proof -
  let ?P = "\<lambda>z pos l r. log_spec z slots \<longrightarrow> grows slots l (snd r) \<and> slots (snd r) pos = Written (fst r)"
  have "?P z pos l r" if "read_retry z pos l = Some r" for r
  proof (rule read_retry.raw_induct [where P = ?P, OF _ that])
    fix f z pos l r
    assume 1: "\<And>z pos l r. f z pos l = Some r \<Longrightarrow> ?P z pos l r"
      "(case z_read z pos l of (Inl err, l) \<Rightarrow> if err = ENODATA then None else f z pos l
       | (Inr data, l) \<Rightarrow> Some (data, l)) = Some r"
    obtain x l1 where x: "z_read z pos l = (x, l1)" by fastforce
    show "?P z pos l r"
    proof (cases x)
      case (Inl err)
      then have "f z pos l1 = Some r" using 1(2) x by (auto split: if_splits)
      from 1(1) [OF this] show ?thesis using log_spec_read(1) [OF _ x, of slots] by (auto intro: grows_trans)
    next
      case (Inr d)
      then show ?thesis using 1(2) x log_spec_read(1,2) by (auto split: prod.splits)
    qed
  qed
  from this [OF assms(1)] assms(2) show ?thesis by simp
qed

lemma read_loop_spec:
  assumes "read_loop z pos fill l = Some (d, l')" and "log_spec z slots"
  shows "grows slots l l' \<and> slots l' pos = (case d of None \<Rightarrow> Filled | Some d \<Rightarrow> Written d)"
proof -
  let ?P = "\<lambda>z pos fill l r. log_spec z slots \<longrightarrow>
      grows slots l (snd r) \<and> slots (snd r) pos = (case fst r of None \<Rightarrow> Filled | Some d \<Rightarrow> Written d)"
  have "?P z pos fill l r" if "read_loop z pos fill l = Some r" for r
  proof (rule read_loop.raw_induct [where P = ?P, OF _ that])
    fix f z pos fill l r
    assume 1: "\<And>z pos fill l r. f z pos fill l = Some r \<Longrightarrow> ?P z pos fill l r"
      "(case z_read z pos l of
        (Inl err, l) \<Rightarrow>
          if err = ENODATA then Some (None, l)
          else if err = ENOENT
               then if fill
                    then case z_fill z pos l of
                         (None, l) \<Rightarrow> f z pos fill l
                         | (Some err, l) \<Rightarrow> if err = EROFS then f z pos fill l else None
                    else f z pos fill l
               else None
        | (Inr data, l) \<Rightarrow> Some (Some data, l)) = Some r"
    obtain x l1 where x: "z_read z pos l = (x, l1)" by fastforce
    obtain y l2 where y: "z_fill z pos l1 = (y, l2)" by fastforce
    show "?P z pos fill l r"
    proof (cases x)
      case (Inl err)
      show ?thesis
      proof (cases "err = ENODATA")
        case True
        then show ?thesis using 1(2) x Inl log_spec_read(1,3) by (auto split: prod.splits)
      next
        case False
        then obtain l3 where "f z pos fill l3 = Some r" "l3 = l1 \<or> l3 = l2"
          using 1(2) x y Inl by (auto split: if_splits option.splits)
        then show ?thesis
          using 1(1) [of z pos fill l3] log_spec_read(1) [OF _ x, of slots] log_spec_fill [OF _ y, of slots]
          by (auto intro: grows_trans)
      qed
    next
      case (Inr d)
      then show ?thesis using 1(2) x log_spec_read(1,2) by (auto split: prod.splits)
    qed
  qed
  from this [OF assms(1)] assms(2) show ?thesis by simp
qed

lemma Append_data_spec:
  assumes "Append_data z d l = Some (pos, l')" and "log_spec z slots"
  shows "grows slots l l' \<and> slots l' pos = Written d"
proof -
  let ?P = "\<lambda>z d l r. log_spec z slots \<longrightarrow> grows slots l (snd r) \<and> slots (snd r) (fst r) = Written d"
  have "?P z d l r" if "Append_data z d l = Some r" for r
  proof (rule Append_data.raw_induct [where P = ?P, OF _ that])
    fix f z d l r
    assume 1: "\<And>z d l r. f z d l = Some r \<Longrightarrow> ?P z d l r"
      "(case z_append z d l of (Inl _, l) \<Rightarrow> f z d l | (Inr pos, l) \<Rightarrow> Some (pos, l)) = Some r"
    obtain x l1 where x: "z_append z d l = (x, l1)" by fastforce
    show "?P z d l r"
    proof (cases x)
      case (Inl err)
      then have "f z d l1 = Some r" using 1(2) x by simp
      from 1(1) [OF this] show ?thesis using log_spec_append(1) [OF _ x, of slots] by (auto intro: grows_trans)
    next
      case (Inr p)
      then show ?thesis using 1(2) x log_spec_append by (auto split: prod.splits)
    qed
  qed
  from this [OF assms(1)] assms(2) show ?thesis by simp
qed

lemma Read_fetch_spec:
  assumes "Read_fetch z c pos fill S l = Some (e, S', l')" and "log_spec z slots" and "coherent c slots S l"
  shows "log_entry_at c slots l' pos = Some e \<and> coherent c slots S' l' \<and> grows slots l l'"
proof -
  obtain d l1 where r: "read_loop z pos fill l = Some (d, l1)"
    using assms(1) by (auto simp: Read_fetch_def)
  note g = read_loop_spec [OF r assms(2)]
  have co: "coherent c slots S l1" by (rule coherent_grows [OF assms(3) conjunct1 [OF g]])
  show ?thesis
  proof (cases d)
    case None
    then have "cache_insert pos CFilled S = Some (e, S')" "l' = l1"
      using assms(1) r by (auto simp: Read_fetch_def)
    moreover have "log_entry_at c slots l1 pos = Some CFilled" using g None by (simp add: log_entry_at_def)
    ultimately show ?thesis using cache_insert_coherent [OF _ co] g by auto
  next
    case (Some d)
    then obtain en where "dec c d = Some en" "cache_insert pos (as_entry pos en) S = Some (e, S')" "l' = l1"
      using assms(1) r by (auto simp: Read_fetch_def)
    moreover from this(1) have "log_entry_at c slots l1 pos = Some (as_entry pos en)"
      using g Some by (simp add: log_entry_at_def)
    ultimately show ?thesis using cache_insert_coherent [OF _ co] g by auto
  qed
qed

lemma Read_spec:
  assumes "Read z c pos fill S l = Some (Some e, S', l')" and "log_spec z slots" and "coherent c slots S l"
  shows "log_entry_at c slots l' pos = Some e \<and> coherent c slots S' l' \<and> grows slots l l'"
proof (cases "Read_start pos S")
  case (Hit e0)
  then have "map_of (entry_cache S) pos = Some e0" by (auto simp: Read_start_def split: option.splits if_splits)
  then show ?thesis using assms(1,3) Hit by (auto simp: Read_def coherent_def)
next
  case Wait
  then show ?thesis using assms(1) by (auto simp: Read_def split: if_splits)
next
  case Go
  then show ?thesis using assms(1) Read_fetch_spec [OF _ assms(2,3)] by (auto simp: Read_def)
qed

lemma ReadAfterImage_spec:
  assumes "ReadAfterImage z c pos S l = Some (ai, S', l')" and "log_spec z slots" and "coherent c slots S l"
  shows "log_entry_at c slots l' pos = Some (CAfterImage ai) \<and> coherent c slots S' l' \<and> grows slots l l'"
proof (cases "map_of (entry_cache S) pos")
  case None
  then obtain d l1 en where r1: "read_retry z pos l = Some (d, l1)" "dec c d = Some en"
    "(case en of INTENTION _ \<Rightarrow> None
      | AFTER_IMAGE ai \<Rightarrow> do { (e, S) \<leftarrow> cache_insert pos (CAfterImage ai) S;
          case e of CAfterImage ai \<Rightarrow> Some (ai, S, l1) | _ \<Rightarrow> None }) = Some (ai, S', l')"
    using assms(1) by (auto simp: ReadAfterImage_def)
  then obtain a where a: "en = AFTER_IMAGE a" by (cases en) auto
  then obtain e S1 where e: "cache_insert pos (CAfterImage a) S = Some (e, S1)"
    "(case e of CAfterImage ai \<Rightarrow> Some (ai, S1, l1) | _ \<Rightarrow> None) = Some (ai, S', l')"
    using r1(3) by auto
  then have r: "read_retry z pos l = Some (d, l1)" "dec c d = Some (AFTER_IMAGE a)"
    "cache_insert pos (CAfterImage a) S = Some (e, S')" "e = CAfterImage ai" "l' = l1"
    using r1 a by (cases e; auto)+
  note g = read_retry_spec [OF r(1) assms(2)]
  have "log_entry_at c slots l1 pos = Some (CAfterImage a)" using g r(2) by (simp add: log_entry_at_def)
  moreover have "coherent c slots S l1" by (rule coherent_grows [OF assms(3) conjunct1 [OF g]])
  ultimately show ?thesis using cache_insert_coherent [OF r(3), of c slots l1] r(4,5) g by auto
next
  case (Some e)
  then show ?thesis
    using assms(1,3) by (auto simp: ReadAfterImage_def coherent_def split: cache_entry.splits)
qed


section \<open>Reading a batch of intentions\<close>

text \<open>A log on which the read of a written position succeeds at once.\<close>

definition reliable :: "'l zlog \<Rightarrow> ('l \<Rightarrow> u64 \<Rightarrow> slot) \<Rightarrow> bool" where
  "reliable z slots \<longleftrightarrow> (\<forall>p l d. slots l p = Written d \<longrightarrow> (\<exists>l'. z_read z p l = (Inr d, l')))"

definition holds_intention ::
  "codec \<Rightarrow> ('l \<Rightarrow> u64 \<Rightarrow> slot) \<Rightarrow> 'l \<Rightarrow> u64 \<Rightarrow> pb_intention \<Rightarrow> bool" where
  "holds_intention c slots l p m \<longleftrightarrow> (\<exists>d. slots l p = Written d \<and> dec c d = Some (INTENTION m))"

lemma holds_intention_entry:
  "holds_intention c slots l p m \<Longrightarrow> log_entry_at c slots l p = Some (CIntention (intention_at m p))"
  by (auto simp: holds_intention_def log_entry_at_def)

lemma holds_intention_grows: "holds_intention c slots l p m \<Longrightarrow> grows slots l l' \<Longrightarrow> holds_intention c slots l' p m"
  by (auto simp: holds_intention_def grows_def)

abbreviation cached :: "entry_service \<Rightarrow> u64 \<Rightarrow> bool" where
  "cached S p \<equiv> map_of (entry_cache S) p \<noteq> None"

lemma mset_map_partition: "mset (map g (filter P ps) @ map g (filter (\<lambda>p. \<not> P p) ps)) = mset (map g ps)"
  by (induction ps) auto

lemma lookup_loop_ok:
  assumes "coherent c slots S l" and "\<forall>p \<in> set ps. holds_intention c slots l p (f p)"
  shows "lookup_loop ps S =
    Some (map (\<lambda>p. intention_at (f p) p) (filter (cached S) ps), filter (\<lambda>p. \<not> cached S p) ps)"
  using assms(2)
proof (induction ps)
  case (Cons p ps)
  have "e = CIntention (intention_at (f p) p)" if "map_of (entry_cache S) p = Some e" for e
    using that assms(1) holds_intention_entry Cons.prems by (fastforce simp: coherent_def)
  then show ?case using Cons by (cases "map_of (entry_cache S) p") auto
qed simp

lemma aio_loop_ok:
  assumes "log_spec z slots" and "reliable z slots" and "\<forall>p \<in> set ps. holds_intention c slots l p (f p)"
  shows "\<exists>blobs l'. aio_loop z ps l = Some (blobs, l') \<and> length blobs = length ps \<and> grows slots l l' \<and>
    (\<forall>(p, d) \<in> set (zip ps blobs). dec c d = Some (INTENTION (f p)))"
  using assms(3)
proof (induction ps arbitrary: l)
  case (Cons p ps)
  obtain d where d: "slots l p = Written d" "dec c d = Some (INTENTION (f p))"
    using Cons.prems by (auto simp: holds_intention_def)
  obtain l1 where l1: "z_read z p l = (Inr d, l1)" using assms(2) d(1) unfolding reliable_def by blast
  have g: "grows slots l l1" by (rule log_spec_read(1) [OF assms(1) l1])
  have "\<forall>p \<in> set ps. holds_intention c slots l1 p (f p)"
    using Cons.prems holds_intention_grows [OF _ g] by simp
  from Cons.IH [OF this] obtain blobs l' where "aio_loop z ps l1 = Some (blobs, l')"
    "length blobs = length ps" "grows slots l1 l'" "\<forall>(p, d) \<in> set (zip ps blobs). dec c d = Some (INTENTION (f p))"
    by blast
  moreover have "read_retry z p l = Some (d, l1)" using l1 by (subst read_retry.simps) simp
  ultimately show ?case using d(2) grows_trans [OF g] by (intro exI [of _ "d # blobs"] exI [of _ l']) auto
qed simp

lemma decode_loop_ok:
  assumes "length ps = length blobs" and "\<forall>(p, d) \<in> set (zip ps blobs). dec c d = Some (INTENTION (f p))"
    and "skeys (entry_cache S)" and "distinct ps" and "\<forall>p \<in> set ps. \<not> cached S p"
    and "length (entry_cache S) + length ps \<le> cache_size S"
  shows "\<exists>S'. decode_loop c (zip ps blobs) S = Some (map (\<lambda>p. intention_at (f p) p) ps, S') \<and>
    cache_size S' = cache_size S \<and> skeys (entry_cache S') \<and>
    (\<forall>x. map_of (entry_cache S') x =
       (if x \<in> set ps then Some (CIntention (intention_at (f x) x)) else map_of (entry_cache S) x))"
  using assms
proof (induction ps blobs arbitrary: S rule: list_induct2)
  case (Cons p ps d blobs)
  let ?e = "CIntention (intention_at (f p) p)"
  let ?S = "S\<lparr>entry_cache := put_list p ?e (entry_cache S)\<rparr>"
  have ins: "cache_insert p ?e S = Some (?e, ?S)" "length (entry_cache ?S) = Suc (length (entry_cache S))"
    using cache_insert_room [of S p ?e] Cons.prems by simp_all
  have "\<exists>S'. decode_loop c (zip ps blobs) ?S = Some (map (\<lambda>p. intention_at (f p) p) ps, S') \<and>
    cache_size S' = cache_size ?S \<and> skeys (entry_cache S') \<and>
    (\<forall>x. map_of (entry_cache S') x =
       (if x \<in> set ps then Some (CIntention (intention_at (f x) x)) else map_of (entry_cache ?S) x))"
  proof (rule Cons.IH)
    show "\<forall>q \<in> set ps. \<not> cached ?S q" using Cons.prems(3,4) by (auto simp: map_of_put_list)
    show "skeys (entry_cache ?S)" using Cons.prems(2) by (simp add: skeys_put_list)
    show "length (entry_cache ?S) + length ps \<le> cache_size ?S" using ins(2) Cons.prems(5) by simp
  qed (use Cons.prems in auto)
  then show ?case
    using ins(1) Cons.prems(1) by (auto simp: map_of_put_list)
qed auto


section \<open>A sample log\<close>

text \<open>A log that is a list of slots, and a codec that knows two messages.\<close>

definition slots_sample :: "slot list \<Rightarrow> u64 \<Rightarrow> slot" where
  "slots_sample l p = (if unat p < length l then l ! unat p else Unwritten)"

definition zlog_sample :: "slot list zlog" where
  "zlog_sample =
     \<lparr>z_read = (\<lambda>p l. (case slots_sample l p of
          Unwritten \<Rightarrow> Inl ENOENT | Filled \<Rightarrow> Inl ENODATA | Written d \<Rightarrow> Inr d, l)),
      z_append = (\<lambda>d l. if length l < 1000 then (Inr (of_nat (length l)), l @ [Written d]) else (Inl EIO, l)),
      z_tail = (\<lambda>l. (Inr (of_nat (length l)), l)),
      z_fill = (\<lambda>p l. case slots_sample l p of
          Unwritten \<Rightarrow> if unat p < length l then (None, l[unat p := Filled])
            else if unat p = length l then (None, l @ [Filled]) else (Some EIO, l)
        | Filled \<Rightarrow> (None, l) | Written d \<Rightarrow> (Some EROFS, l))\<rparr>"

definition msg_sample :: pb_intention where
  "msg_sample = \<lparr>i_snapshot = 1, i_token = 7, i_flush = False,
     i_ops = [\<lparr>op_type = PUT, op_key = ''k'', op_val = Some ''v''\<rparr>]\<rparr>"

definition ai_msg :: "(string, string) after_image" where
  "ai_msg = \<lparr>ai_intention = 1, ai_tree = []\<rparr>"

definition codec_sample :: codec where
  "codec_sample =
     \<lparr>enc = (\<lambda>e. case e of INTENTION _ \<Rightarrow> ''i'' | AFTER_IMAGE _ \<Rightarrow> ''a''),
      dec = (\<lambda>s. if s = ''i'' then Some (INTENTION msg_sample)
                 else if s = ''a'' then Some (AFTER_IMAGE ai_msg) else None)\<rparr>"

definition log3 :: "slot list" where
  "log3 = [Filled, Written ''i'', Written ''a'']"

lemma slots_sample_append:
  "length l < 1000 \<Longrightarrow> slots_sample (l @ [Written d]) p =
    (if p = of_nat (length l) then Written d else slots_sample l p)"
proof -
  assume l: "length l < 1000"
  have "unat (of_nat (length l) :: u64) = length l" using l by (simp add: unat_of_nat)
  then show ?thesis
    by (auto simp: slots_sample_def nth_append less_Suc_eq word_unat_eq_iff)
qed

lemma log_spec_sample: "log_spec zlog_sample slots_sample"
  unfolding log_spec_def
proof (intro conjI allI impI)
  fix p l r l' assume r: "z_read zlog_sample p l = (r, l')"
  show "grows slots_sample l l'" using r by (simp add: zlog_sample_def)
  show "\<And>d. r = Inr d \<Longrightarrow> slots_sample l' p = Written d" "r = Inl ENODATA \<Longrightarrow> slots_sample l' p = Filled"
    using r by (auto simp: zlog_sample_def split: slot.splits)
next
  fix d l r l' p assume r: "z_append zlog_sample d l = (r, l')"
  show "grows slots_sample l l'"
    using r by (auto simp: zlog_sample_def grows_def slots_sample_def nth_append split: if_splits)
  assume "r = Inr p"
  then show "slots_sample l p = Unwritten" "slots_sample l' p = Written d"
    using r by (auto simp: zlog_sample_def slots_sample_append slots_sample_def unat_of_nat split: if_splits)
next
  fix p l r l' assume r: "z_fill zlog_sample p l = (r, l')"
  show "grows slots_sample l l'"
    using r by (auto simp: zlog_sample_def grows_def slots_sample_def nth_list_update nth_append split: slot.splits if_splits)
  show "r = None \<Longrightarrow> slots_sample l' p = Filled"
    using r by (auto simp: zlog_sample_def slots_sample_def split: slot.splits if_splits)
next
  fix l r l' assume "z_tail zlog_sample l = (r, l')"
  then show "grows slots_sample l l'" by (simp add: zlog_sample_def)
qed

lemma reliable_sample: "reliable zlog_sample slots_sample"
  by (simp add: reliable_def zlog_sample_def)

lemma coherent_new: "coherent c slots (new_entry_service n) l"
  by (simp add: coherent_def new_entry_service_def)

lemma slots_log3:
  "slots_sample log3 0 = Filled" "slots_sample log3 1 = Written ''i''" "slots_sample log3 2 = Written ''a''"
  by (simp_all add: slots_sample_def log3_def)


lemma IO_body_spec:
  assumes "IO_body z c n S l = Some (b, n', S', l')" and "log_spec z slots" and "coherent c slots S l"
  shows "coherent c slots S' l' \<and> grows slots l l'"
proof (cases "map_of (entry_cache S) n")
  case (Some e)
  then show ?thesis using assms(1,3) by (simp add: IO_body_def)
next
  case None
  obtain x l1 where x: "z_read z n l = (x, l1)" by fastforce
  note g = log_spec_read(1) [OF assms(2) x]
  have co: "coherent c slots S l1" by (rule coherent_grows [OF assms(3) g])
  show ?thesis
  proof (cases x)
    case (Inl err)
    then show ?thesis using assms(1) None x g co by (auto simp: IO_body_def split: if_splits)
  next
    case (Inr d)
    then obtain en m where en: "dec c d = Some en" "l' = l1"
      "S' = raise_max_pos n (entry_cache_gc (cache_emplace n (as_entry n en) (S\<lparr>ai_matcher := m\<rparr>)))"
      using assms(1) None x by (auto simp: IO_body_def Let_def)
    have "log_entry_at c slots l1 n = Some (as_entry n en)"
      using log_spec_read(2) [OF assms(2)] x Inr en(1) by (simp add: log_entry_at_def)
    then have "coherent c slots (entry_cache_gc (cache_emplace n (as_entry n en) (S\<lparr>ai_matcher := m\<rparr>))) l1"
      using co by (intro emplace_coherent) simp_all
    then show ?thesis using en(2,3) g by (simp add: raise_max_pos_def)
  qed
qed

text \<open>There is room in the cache for its entries and those at the positions \<open>P\<close>.\<close>

definition room :: "entry_service \<Rightarrow> u64 set \<Rightarrow> bool" where
  "room S P \<longleftrightarrow> card (dom (map_of (entry_cache S)) \<union> P) \<le> cache_size S"

lemma room_missing:
  assumes "skeys (entry_cache S)" and "distinct ps" and "set ps \<subseteq> P" and "room S P"
  shows "length (entry_cache S) + length (filter (\<lambda>p. \<not> cached S p) ps) \<le> cache_size S"
proof -
  let ?d = "dom (map_of (entry_cache S))" and ?m = "filter (\<lambda>p. \<not> cached S p) ps"
  have "distinct (map fst (entry_cache S))" using assms(1) by (simp add: strict_sorted_iff)
  then have "length (entry_cache S) = card ?d" using distinct_card [of "map fst (entry_cache S)"] by (simp add: dom_map_of_conv_image_fst)
  moreover have "length ?m = card (set ?m)" using distinct_card [of ?m] assms(2) by simp
  moreover have "card ?d + card (set ?m) = card (?d \<union> set ?m)"
    by (rule card_Un_disjoint [symmetric]) (auto simp: finite_dom_map_of)
  moreover have "card (?d \<union> set ?m) \<le> card (?d \<union> P)"
    by (rule card_mono) (use assms(3) in \<open>auto simp: finite_dom_map_of\<close>)
  ultimately show ?thesis using assms(4) by (simp add: room_def)
qed

lemma ReadIntentions_ok:
  assumes "log_spec z slots" and "reliable z slots" and "coherent c slots S l" and "distinct ps"
    and "\<forall>p \<in> set ps. holds_intention c slots l p (f p)"
    and "length (entry_cache S) + length (filter (\<lambda>p. \<not> cached S p) ps) \<le> cache_size S"
  shows "\<exists>is S' l'. ReadIntentions z c ps S l = Some (is, S', l') \<and>
    mset is = mset (map (\<lambda>p. intention_at (f p) p) ps) \<and> coherent c slots S' l' \<and> grows slots l l' \<and>
    cache_size S' = cache_size S \<and> dom (map_of (entry_cache S')) = dom (map_of (entry_cache S)) \<union> set ps"
proof -
  let ?g = "\<lambda>p. intention_at (f p) p"
  let ?miss = "filter (\<lambda>p. \<not> cached S p) ps"
  obtain blobs l' where b: "aio_loop z ?miss l = Some (blobs, l')" "length blobs = length ?miss"
    "grows slots l l'" "\<forall>(p, d) \<in> set (zip ?miss blobs). dec c d = Some (INTENTION (f p))"
    using aio_loop_ok [OF assms(1,2), of ?miss c l f] assms(5) by auto
  have "skeys (entry_cache S)" using assms(3) by (simp add: coherent_def)
  then obtain S' where S': "decode_loop c (zip ?miss blobs) S = Some (map ?g ?miss, S')"
    "skeys (entry_cache S')"
    "\<forall>x. map_of (entry_cache S') x = (if x \<in> set ?miss then Some (CIntention (?g x)) else map_of (entry_cache S) x)"
    "cache_size S' = cache_size S"
    using decode_loop_ok [OF b(2) [symmetric] b(4)] assms(4,6) by force
  have "coherent c slots S' l'"
    unfolding coherent_def
  proof (intro conjI allI impI)
    fix x e assume x: "map_of (entry_cache S') x = Some e"
    show "log_entry_at c slots l' x = Some e"
    proof (cases "x \<in> set ?miss")
      case True
      then show ?thesis
        using x S'(3) assms(5) holds_intention_entry [OF holds_intention_grows [OF _ b(3)]] by auto
    next
      case False
      then have "map_of (entry_cache S) x = Some e" using x S'(3) by (simp only: if_False)
      then show ?thesis using assms(3) grows_entry [OF b(3)] by (simp add: coherent_def)
    qed
  qed (rule S'(2))
  moreover have "mset (map ?g (filter (cached S) ps) @ map ?g ?miss) = mset (map ?g ps)"
    by (rule mset_map_partition)
  moreover have "dom (map_of (entry_cache S')) = dom (map_of (entry_cache S)) \<union> set ps"
  proof (rule set_eqI)
    fix x
    have "map_of (entry_cache S') x = (if x \<in> set ?miss then Some (CIntention (?g x)) else map_of (entry_cache S) x)"
      using S'(3) by blast
    then show "x \<in> dom (map_of (entry_cache S')) \<longleftrightarrow> x \<in> dom (map_of (entry_cache S)) \<union> set ps"
      by (cases "x \<in> set ps"; cases "map_of (entry_cache S) x") (simp_all add: domIff)
  qed
  ultimately show ?thesis
    using lookup_loop_ok [OF assms(3,5)] b(1,3) S'(1,4) by (auto simp: ReadIntentions_def)
qed

section \<open>Properties\<close>

text \<open>C20: the cache is coherent. Over a log whose positions are written once, every operation that fills the
  cache keeps it equal to the log, and what \<^verbatim>\<open>Read\<close> and \<^verbatim>\<open>ReadAfterImage\<close> return is what the log holds at that
  position, whether it came from the cache or not.\<close>

theorem cache_agrees_with_log:
  assumes "log_spec z slots" and "coherent c slots S l"
  shows "(\<forall>e S' l'. Read z c pos fill S l = Some (Some e, S', l') \<longrightarrow>
      log_entry_at c slots l' pos = Some e \<and> coherent c slots S' l')
    \<and> (\<forall>ai S' l'. ReadAfterImage z c pos S l = Some (ai, S', l') \<longrightarrow>
      log_entry_at c slots l' pos = Some (CAfterImage ai) \<and> coherent c slots S' l')
    \<and> (\<forall>b n S' l'. IO_body z c pos S l = Some (b, n, S', l') \<longrightarrow> coherent c slots S' l')"
  using Read_spec [OF _ assms] ReadAfterImage_spec [OF _ assms] IO_body_spec [OF _ assms] by blast

theorem cache_agrees_with_log_witness:
  "\<exists>S l S' l'. Read zlog_sample codec_sample 0 True (new_entry_service 9) log3 = Some (Some CFilled, S, l) \<and>
    log_entry_at codec_sample slots_sample l 0 = Some CFilled \<and> coherent codec_sample slots_sample S l \<and>
    ReadAfterImage zlog_sample codec_sample 2 S l = Some (ai_msg, S', l') \<and>
    log_entry_at codec_sample slots_sample l' 2 = Some (CAfterImage ai_msg) \<and> coherent codec_sample slots_sample S' l'"
proof -
  let ?S = "(new_entry_service 9)\<lparr>entry_cache := [(0, CFilled)]\<rparr>"
  let ?S' = "?S\<lparr>entry_cache := [(0, CFilled), (2, CAfterImage ai_msg)]\<rparr>"
  have r: "Read zlog_sample codec_sample 0 True (new_entry_service 9) log3 = Some (Some CFilled, ?S, log3)"
    by (simp add: Read_def Read_start_def Read_fetch_def read_loop.simps [of _ 0] zlog_sample_def slots_log3
        new_entry_service_def cache_insert_def cache_emplace_def entry_cache_gc_def cache_gc_loop_eq put_list_def)
  have a: "ReadAfterImage zlog_sample codec_sample 2 ?S log3 = Some (ai_msg, ?S', log3)"
    by (simp add: ReadAfterImage_def read_retry.simps [of _ 2] zlog_sample_def slots_log3 codec_sample_def
        new_entry_service_def cache_insert_def cache_emplace_def entry_cache_gc_def cache_gc_loop_eq put_list_def)
  have s: "log_entry_at codec_sample slots_sample log3 0 = Some CFilled" "coherent codec_sample slots_sample ?S log3"
    using cache_agrees_with_log [OF log_spec_sample coherent_new, of codec_sample 0 True] r by blast+
  moreover have "log_entry_at codec_sample slots_sample log3 2 = Some (CAfterImage ai_msg)"
    "coherent codec_sample slots_sample ?S' log3"
    using cache_agrees_with_log [OF log_spec_sample s(2), of 2 True] a by blast+
  ultimately show ?thesis using r a by blast
qed



text \<open>A read of an old position through a full cache. If all cached positions are newer and the cache is at
  its limit, the collection erases the entry that was just inserted, and \<^verbatim>\<open>ReadAfterImage\<close> and \<^verbatim>\<open>Read\<close> then return
  it through an invalid iterator.\<close>

theorem old_read_dangles:
  assumes "skeys (entry_cache S)" and "length (entry_cache S) = cache_size S"
    and "\<forall>p \<in> set (entry_cache S). pos < fst p"
    and "z_read z pos l = (Inr d, l')" and "dec c d = Some (AFTER_IMAGE ai)"
  shows "ReadAfterImage z c pos S l = None \<and> Read_fetch z c pos fill S l = None"
proof -
  have nc: "map_of (entry_cache S) pos = None" using assms(3) by (force simp: map_of_eq_None_iff)
  have "put_list pos e (entry_cache S) = (pos, e) # entry_cache S" for e
    using put_list_mid [of "[]" pos "entry_cache S" e] assms(3) by simp
  then have "cache_insert pos e S = None" for e
    using nc assms(2)
    by (simp add: cache_insert_def cache_emplace_def entry_cache_gc_def cache_gc_loop_eq Let_def)
  moreover have "read_retry z pos l = Some (d, l')" using assms(4) by (subst read_retry.simps) simp
  moreover have "read_loop z pos fill l = Some (Some d, l')" using assms(4) by (subst read_loop.simps) simp
  ultimately show ?thesis using nc assms(5) by (simp add: ReadAfterImage_def Read_fetch_def)
qed

fun IO_turns ::
  "'l zlog \<Rightarrow> codec \<Rightarrow> nat \<Rightarrow> u64 \<Rightarrow> entry_service \<Rightarrow> 'l \<Rightarrow> (u64 \<times> entry_service \<times> 'l) option" where
  "IO_turns z c 0 next S l = Some (next, S, l)"
| "IO_turns z c (Suc n) next S l = do { (next, S, l) \<leftarrow> IO_turn z c next S l; IO_turns z c n next S l }"

text \<open>The thread that follows the log never gets past a filled position that is not in the cache: whatever
  is appended behind it, after any number of turns it is at the same position with the same state, so
  that readers of later positions are not woken by it.\<close>

lemma filled_position_stops_scanner:
  assumes "map_of (entry_cache S) p = None"
    and "\<And>l. \<exists>l'. z_read z p l = (Inl ENODATA, l')" and "\<And>l. \<exists>t l'. z_tail z l = (Inr t, l') \<and> p < t"
  shows "\<exists>l'. IO_turns z c n p S l = Some (p, S, l')"
proof (induction n arbitrary: l)
  case (Suc n)
  obtain t l1 l2 where "z_tail z l = (Inr t, l1)" "p < t" "z_read z p l1 = (Inl ENODATA, l2)"
    using assms(2,3) by metis
  then have "IO_turn z c p S l = Some (p, S, l2)"
    using assms(1) by (auto simp: IO_turn_def CheckTail_def IO_body_def IO_inner.simps [of z c t p S l1])
  then show ?case using Suc by simp
qed simp

text \<open>The order of a reader and the thread that follows the log matters. If that thread gets to an after
  image first, the matcher receives it; if a reader has put it into the cache before, the thread steps
  over it and the matcher never receives it.\<close>

theorem cached_after_image_not_matched:
  assumes "map_of (entry_cache S) pos = None" and "pos \<le> max_pos S" and "skeys (entry_cache S)"
    and "length (entry_cache S) < cache_size S" and "z_read z pos l = (Inr d, l)"
    and "dec c d = Some (AFTER_IMAGE ai)" and "push (ai_intention ai) pos (ai_matcher S) = Some m"
  shows "\<exists>S1 S2. IO_body z c pos S l = Some (False, pos + 1, S1, l) \<and> ai_matcher S1 = m \<and>
    Read z c pos fill S l = Some (Some (CAfterImage ai), S2, l) \<and>
    IO_body z c pos S2 l = Some (False, pos + 1, S2, l) \<and> ai_matcher S2 = ai_matcher S"
proof -
  let ?S = "S\<lparr>entry_cache := put_list pos (CAfterImage ai) (entry_cache S)\<rparr>"
  have "read_loop z pos fill l = Some (Some d, l)" using assms(5) by (subst read_loop.simps) simp
  then have "Read z c pos fill S l = Some (Some (CAfterImage ai), ?S, l)"
    using cache_insert_room [OF assms(1,4,3), of "CAfterImage ai"] assms
    by (simp add: Read_def Read_start_def Read_fetch_def not_less)
  moreover have "IO_body z c pos ?S l = Some (False, pos + 1, ?S, l)"
    by (simp add: IO_body_def map_of_put_list)
  ultimately show ?thesis
    using assms
    by (simp add: IO_body_def raise_max_pos_def entry_cache_gc_def cache_emplace_def Let_def)
qed

end
