(* ===== verification/NodeCache.thy ===== *)
theory NodeCache
  imports EntryServiceProps
begin

text \<open>
  The node cache of \<^verbatim>\<open>src/db/node_cache.h\<close> and \<^verbatim>\<open>node_cache.cc\<close>: nodes read from after images are kept under
  the position of the after image and the index of the node in it, in eight shards, each with a list of
  its keys, most recently used first. The list iterator that an entry keeps is the position of its key in
  that list. A second index, an LRU cache, maps intentions to their after images.

  Nodes are nodes of the heap; the cache holds their numbers. \<^verbatim>\<open>std::hash\<close>, whose values the standard leaves
  open, is the argument \<open>hs\<close>, a function of the integer value; \<open>sz\<close> is \<^verbatim>\<open>sizeof(Node)\<close>. An expired weak reference of a
  node pointer is \<open>None\<close>.
\<close>

unbundle bit_operations_syntax

section \<open>State\<close>

type_synonym nkey = "u64 \<times> int"

record shard =
  sh_nodes :: "(nkey \<times> nat) list"
  sh_lru :: "nkey list"

record node_cache =
  shards :: "shard list"
  used_bytes :: u64
  traces :: "node_address list list"
  imap :: "(u64, u64) lru_cache"
  nc_cache_size :: u64
  nc_stop :: bool

definition num_slots :: nat where
  "num_slots = 8"

definition new_node_cache :: "u64 \<Rightarrow> nat \<Rightarrow> node_cache" where
  "new_node_cache node_cache_size imap_cache_size =
     \<lparr>shards = replicate num_slots \<lparr>sh_nodes = [], sh_lru = []\<rparr>, used_bytes = 0, traces = [],
      imap = new_lru imap_cache_size, nc_cache_size = node_cache_size, nc_stop = False\<rparr>"

definition hash_combine :: "(int \<Rightarrow> u64) \<Rightarrow> u64 \<Rightarrow> u64 \<Rightarrow> u64" where
  "hash_combine hs seed v = seed XOR (hs (uint v) + 0x9e3779b9 + push_bit 6 seed + drop_bit 2 seed)"

definition pair_hash :: "(int \<Rightarrow> u64) \<Rightarrow> nkey \<Rightarrow> u64" where
  "pair_hash hs p =
     (let h1 = hs (uint (fst p)); h2 = hs (snd p)
      in hash_combine hs (hash_combine hs 0 h1) h2)"

definition key_slot :: "(int \<Rightarrow> u64) \<Rightarrow> nkey \<Rightarrow> nat" where
  "key_slot hs key = unat (pair_hash hs key) mod num_slots"

definition ByteSize :: "nat \<Rightarrow> (string, string) node \<Rightarrow> nat" where
  "ByteSize sz nd = sz + length (nd_key nd) + length (nd_val nd)"

section \<open>Entries\<close>

text \<open>\<^verbatim>\<open>nodes_.find\<close> in the shard of the key.\<close>

definition nc_find :: "(int \<Rightarrow> u64) \<Rightarrow> nkey \<Rightarrow> node_cache \<Rightarrow> nat option" where
  "nc_find hs key C = map_of (sh_nodes (shards C ! key_slot hs key)) key"

text \<open>The recurring block that moves a key to the front of the list.\<close>

definition move_front :: "(int \<Rightarrow> u64) \<Rightarrow> nkey \<Rightarrow> node_cache \<Rightarrow> node_cache" where
  "move_front hs key C =
     (let s = key_slot hs key; sh = shards C ! s
      in C\<lparr>shards := (shards C)[s := sh\<lparr>sh_lru := key # remove1 key (sh_lru sh)\<rparr>]\<rparr>)"

text \<open>The block that inserts a node; \<^verbatim>\<open>assert(res.second)\<close> fails on a duplicate.\<close>

definition insert_entry ::
  "(int \<Rightarrow> u64) \<Rightarrow> nat \<Rightarrow> nkey \<Rightarrow> nat \<Rightarrow> (string, string) heap \<Rightarrow> node_cache \<Rightarrow> node_cache option" where
  "insert_entry hs sz key n H C = do {
     nd \<leftarrow> nodes H n;
     let s = key_slot hs key;
     let sh = shards C ! s;
     if nc_find hs key C \<noteq> None then None
     else Some (C\<lparr>shards := (shards C)[s := sh\<lparr>sh_nodes := (key, n) # sh_nodes sh, sh_lru := key # sh_lru sh\<rparr>],
                  used_bytes := used_bytes C + of_nat (ByteSize sz nd)\<rparr>) }"

section \<open>After images\<close>

text \<open>The loop of \<^verbatim>\<open>CacheAfterImage\<close>: a node that is in the cache already is kept, and the new one is dropped. The
  result is the node of the last index.\<close>

fun cache_loop ::
  "(int \<Rightarrow> u64) \<Rightarrow> nat \<Rightarrow> (string, string) after_image \<Rightarrow> u64 \<Rightarrow> nat list \<Rightarrow> nat option \<Rightarrow>
   (string, string) heap \<Rightarrow> node_cache \<Rightarrow> (nat option \<times> (string, string) heap \<times> node_cache) option" where
  "cache_loop hs sz i pos [] nn H C = Some (nn, H, C)"
| "cache_loop hs sz i pos (idx # idxs) nn H C = do {
     nd \<leftarrow> deserialize_node i pos idx;
     let key = (pos, int idx);
     case nc_find hs key C of
       Some n \<Rightarrow> cache_loop hs sz i pos idxs (Some n) H C
     | None \<Rightarrow> do {
         let (n, H) = alloc_node nd H;
         C \<leftarrow> insert_entry hs sz key n H C;
         cache_loop hs sz i pos idxs (Some n) H C } }"

definition CacheAfterImage ::
  "(int \<Rightarrow> u64) \<Rightarrow> nat \<Rightarrow> (string, string) after_image \<Rightarrow> u64 \<Rightarrow> (string, string) heap \<Rightarrow> node_cache \<Rightarrow>
   (node_ptr \<times> (string, string) heap \<times> node_cache) option" where
  "CacheAfterImage hs sz i pos H C =
     (if ai_tree i = [] then Some (\<lparr>np_ref = Some Nil_id, np_addr = None\<rparr>, H, C)
      else do {
        (nn, H, C) \<leftarrow> cache_loop hs sz i pos [0..<length (ai_tree i)] None H C;
        n \<leftarrow> nn;
        ret \<leftarrow> SetAfterImageAddress pos (of_nat (length (ai_tree i) - 1)) \<lparr>np_ref = Some n, np_addr = None\<rparr>;
        Some (ret, H, C) })"

fun delta_loop ::
  "(int \<Rightarrow> u64) \<Rightarrow> nat \<Rightarrow> u64 \<Rightarrow> nat \<Rightarrow> nat list \<Rightarrow> (string, string) heap \<Rightarrow> node_cache \<Rightarrow>
   ((string, string) heap \<times> node_cache) option" where
  "delta_loop hs sz pos off [] H C = Some (H, C)"
| "delta_loop hs sz pos off (n # ns) H C = do {
     H \<leftarrow> set_read_only n H;
     C \<leftarrow> insert_entry hs sz (pos, int off) n H C;
     delta_loop hs sz pos (Suc off) ns H C }"

definition ApplyAfterImageDelta ::
  "(int \<Rightarrow> u64) \<Rightarrow> nat \<Rightarrow> nat list \<Rightarrow> u64 \<Rightarrow> (string, string) heap \<Rightarrow> node_cache \<Rightarrow>
   (node_ptr \<times> (string, string) heap \<times> node_cache) option" where
  "ApplyAfterImageDelta hs sz delta pos H C =
     (if delta = [] then Some (\<lparr>np_ref = Some Nil_id, np_addr = None\<rparr>, H, C)
      else do {
        (H, C) \<leftarrow> delta_loop hs sz pos 0 delta H C;
        ret \<leftarrow> SetAfterImageAddress pos (of_nat (length delta - 1)) \<lparr>np_ref = Some (last delta), np_addr = None\<rparr>;
        Some (ret, H, C) })"

section \<open>Intentions and their after images\<close>

definition IntentionToAfterImage :: "u64 \<Rightarrow> node_cache \<Rightarrow> u64 option \<times> node_cache" where
  "IntentionToAfterImage ipos C = (let (r, m) = lru_get ipos (imap C) in (r, C\<lparr>imap := m\<rparr>))"

definition SetIntentionMapping :: "u64 \<Rightarrow> u64 \<Rightarrow> node_cache \<Rightarrow> node_cache option" where
  "SetIntentionMapping ipos aipos C = do {
     m \<leftarrow> lru_insert ipos aipos (imap C);
     Some (C\<lparr>imap := m\<rparr>) }"

text \<open>The loop of \<^verbatim>\<open>findAfterImagePosition\<close> over the after images that follow the intention.\<close>

partial_function (option) find_ai_loop ::
  "'l zlog \<Rightarrow> codec \<Rightarrow> u64 \<Rightarrow> u64 \<Rightarrow> entry_service \<Rightarrow> 'l \<Rightarrow> (u64 \<times> entry_service \<times> 'l) option" where
  "find_ai_loop z c ipos it S l = do {
     (ai, it, S, l) \<leftarrow> AfterImageIterator_Next z c it S l;
     (pos, ai) \<leftarrow> ai;
     if ai_intention ai = ipos then Some (pos, S, l) else find_ai_loop z c ipos it S l }"

definition findAfterImagePosition ::
  "'l zlog \<Rightarrow> codec \<Rightarrow> node_address \<Rightarrow> node_cache \<Rightarrow> entry_service \<Rightarrow> 'l \<Rightarrow>
   (u64 \<times> node_cache \<times> entry_service \<times> 'l) option" where
  "findAfterImagePosition z c a C S l =
     (if is_afterimage a then Some (position a, C, S, l)
      else
        let (tmp, C) = IntentionToAfterImage (position a) C
        in case tmp of
             Some p \<Rightarrow> Some (p, C, S, l)
           | None \<Rightarrow> do {
               (p, S, l) \<leftarrow> find_ai_loop z c (position a) (position a + 1) S l;
               Some (p, C, S, l) })"

section \<open>Fetching a node\<close>

definition UpdateLRU :: "node_address list \<Rightarrow> node_cache \<Rightarrow> node_cache" where
  "UpdateLRU trace C = (if trace \<noteq> [] then C\<lparr>traces := trace # traces C\<rparr> else C)"

text \<open>The end of \<^verbatim>\<open>fetch\<close>, after the nodes of the after image have been cached: the node is found, or it is
  deserialized again and inserted.\<close>

definition fetch_again ::
  "(int \<Rightarrow> u64) \<Rightarrow> nat \<Rightarrow> (string, string) after_image \<Rightarrow> u64 \<Rightarrow> u16 \<Rightarrow> (string, string) heap \<Rightarrow> node_cache \<Rightarrow>
   (nat \<times> (string, string) heap \<times> node_cache) option" where
  "fetch_again hs sz ai pos off H C =
     (let key = (pos, uint off)
      in case nc_find hs key C of
           Some n \<Rightarrow> Some (n, H, move_front hs key C)
         | None \<Rightarrow> do {
             nd \<leftarrow> deserialize_node ai pos (unat off);
             let (n, H) = alloc_node nd H;
             C \<leftarrow> insert_entry hs sz key n H C;
             Some (n, H, C) })"

definition fetch ::
  "(int \<Rightarrow> u64) \<Rightarrow> nat \<Rightarrow> 'l zlog \<Rightarrow> codec \<Rightarrow> node_address list \<Rightarrow> node_address \<Rightarrow>
   (string, string) heap \<Rightarrow> node_cache \<Rightarrow> entry_service \<Rightarrow> 'l \<Rightarrow>
   (nat \<times> node_address list \<times> (string, string) heap \<times> node_cache \<times> entry_service \<times> 'l) option" where
  "fetch hs sz z c trace a H C S l = do {
     (pos, C, S, l) \<leftarrow> findAfterImagePosition z c a C S l;
     let key = (pos, uint (offset a));
     case nc_find hs key C of
       Some n \<Rightarrow> Some (n, trace, H, move_front hs key C, S, l)
     | None \<Rightarrow> do {
         let C = UpdateLRU trace C;
         (ai, S, l) \<leftarrow> ReadAfterImage z c pos S l;
         (_, H, C) \<leftarrow> CacheAfterImage hs sz ai pos H C;
         (n, H, C) \<leftarrow> fetch_again hs sz ai pos (offset a) H C;
         Some (n, [], H, C, S, l) } }"

text \<open>\<^verbatim>\<open>NodePtr::ref\<close>: the resident node, or the fetched one, whose reference is then kept in the pointer.\<close>

definition ptr_ref ::
  "(int \<Rightarrow> u64) \<Rightarrow> nat \<Rightarrow> 'l zlog \<Rightarrow> codec \<Rightarrow> node_address list \<Rightarrow> node_ptr \<Rightarrow>
   (string, string) heap \<Rightarrow> node_cache \<Rightarrow> entry_service \<Rightarrow> 'l \<Rightarrow>
   (nat \<times> node_ptr \<times> node_address list \<times> (string, string) heap \<times> node_cache \<times> entry_service \<times> 'l) option" where
  "ptr_ref hs sz z c trace p H C S l = do {
     let trace = (case np_addr p of Some a \<Rightarrow> trace @ [a] | None \<Rightarrow> trace);
     case np_ref p of
       Some n \<Rightarrow> Some (n, p, trace, H, C, S, l)
     | None \<Rightarrow> do {
         a \<leftarrow> np_addr p;
         (n, trace, H, C, S, l) \<leftarrow> fetch hs sz z c trace a H C S l;
         Some (n, p\<lparr>np_ref := Some n\<rparr>, trace, H, C, S, l) } }"

section \<open>Eviction\<close>

text \<open>The loop that applies one trace to the lists.\<close>

fun apply_trace :: "(int \<Rightarrow> u64) \<Rightarrow> node_address list \<Rightarrow> node_cache \<Rightarrow> node_cache" where
  "apply_trace hs [] C = C"
| "apply_trace hs (a # as) C =
     (let key = (position a, uint (offset a))
      in apply_trace hs as (if nc_find hs key C = None then C else move_front hs key C))"

text \<open>The loop that drops the least recently used nodes of a shard until \<open>left\<close> bytes are freed.\<close>

function evict_loop ::
  "nat \<Rightarrow> (string, string) heap \<Rightarrow> int \<Rightarrow> shard \<Rightarrow> u64 \<Rightarrow> (shard \<times> u64) option" where
  "evict_loop sz H left sh used =
     (if \<not> 0 < left \<or> sh_nodes sh = [] then Some (sh, used)
      else if sh_lru sh = [] then None
      else
        let key = last (sh_lru sh)
        in case map_of (sh_nodes sh) key of
             None \<Rightarrow> None
           | Some n \<Rightarrow>
               (case nodes H n of
                  None \<Rightarrow> None
                | Some nd \<Rightarrow>
                    evict_loop sz H (left - int (ByteSize sz nd))
                      (sh\<lparr>sh_nodes := filter (\<lambda>p. fst p \<noteq> key) (sh_nodes sh), sh_lru := butlast (sh_lru sh)\<rparr>)
                      (used - of_nat (ByteSize sz nd))))"
  by pat_completeness auto
termination by (relation "measure (\<lambda>(sz, H, left, sh, used). length (sh_lru sh))") auto

declare evict_loop.simps [simp del]

fun evict_shards ::
  "nat \<Rightarrow> (string, string) heap \<Rightarrow> int \<Rightarrow> shard list \<Rightarrow> u64 \<Rightarrow> (shard list \<times> u64) option" where
  "evict_shards sz H target [] used = Some ([], used)"
| "evict_shards sz H target (sh # shs) used = do {
     (sh, used) \<leftarrow> evict_loop sz H target sh used;
     (shs, used) \<leftarrow> evict_shards sz H target shs used;
     Some (sh # shs, used) }"

text \<open>One turn of \<^verbatim>\<open>do_vaccum_\<close> after it has been woken. \<^verbatim>\<open>traces_.swap(traces_)\<close> swaps the list with itself, so the local
  list of traces is empty and the published traces stay where they are.\<close>

definition do_vaccum :: "(int \<Rightarrow> u64) \<Rightarrow> nat \<Rightarrow> (string, string) heap \<Rightarrow> node_cache \<Rightarrow> node_cache option" where
  "do_vaccum hs sz H C = do {
     let ts = [];
     let C = fold (apply_trace hs) ts C;
     if used_bytes C > nc_cache_size C then do {
       let target = uint ((used_bytes C - nc_cache_size C) div of_nat num_slots);
       (shs, used) \<leftarrow> evict_shards sz H target (shards C) (used_bytes C);
       Some (C\<lparr>shards := shs, used_bytes := used\<rparr>) }
     else Some C }"

definition vaccum_wakes :: "node_cache \<Rightarrow> bool" where
  "vaccum_wakes C \<longleftrightarrow> traces C \<noteq> [] \<or> used_bytes C > nc_cache_size C \<or> nc_stop C"

text \<open>\<^verbatim>\<open>Clear\<close> drops all nodes of a shard by the same steps, without a target.\<close>

function clear_loop :: "nat \<Rightarrow> (string, string) heap \<Rightarrow> shard \<Rightarrow> u64 \<Rightarrow> (shard \<times> u64) option" where
  "clear_loop sz H sh used =
     (if sh_nodes sh = [] then Some (sh, used)
      else if sh_lru sh = [] then None
      else
        let key = last (sh_lru sh)
        in case map_of (sh_nodes sh) key of
             None \<Rightarrow> None
           | Some n \<Rightarrow>
               (case nodes H n of
                  None \<Rightarrow> None
                | Some nd \<Rightarrow>
                    clear_loop sz H
                      (sh\<lparr>sh_nodes := filter (\<lambda>p. fst p \<noteq> key) (sh_nodes sh), sh_lru := butlast (sh_lru sh)\<rparr>)
                      (used - of_nat (ByteSize sz nd))))"
  by pat_completeness auto
termination by (relation "measure (\<lambda>(sz, H, sh, used). length (sh_lru sh))") auto

declare clear_loop.simps [simp del]

fun clear_shards :: "nat \<Rightarrow> (string, string) heap \<Rightarrow> shard list \<Rightarrow> u64 \<Rightarrow> (shard list \<times> u64) option" where
  "clear_shards sz H [] used = Some ([], used)"
| "clear_shards sz H (sh # shs) used = do {
     (sh, used) \<leftarrow> clear_loop sz H sh used;
     (shs, used) \<leftarrow> clear_shards sz H shs used;
     Some (sh # shs, used) }"

definition Clear :: "nat \<Rightarrow> (string, string) heap \<Rightarrow> node_cache \<Rightarrow> node_cache option" where
  "Clear sz H C = do {
     (shs, used) \<leftarrow> clear_shards sz H (shards C) (used_bytes C);
     Some (C\<lparr>imap := lru_clear (imap C), traces := [], shards := shs, used_bytes := used\<rparr>) }"

definition nc_Stop :: "node_cache \<Rightarrow> node_cache" where
  "nc_Stop C = C\<lparr>nc_stop := True\<rparr>"

end
