(* ===== verification/NodeCacheProps.thy ===== *)
theory NodeCacheProps
  imports NodeCache
begin

text \<open>
  The node cache: its invariant, the map that the shards stand for, eviction, and what \<^verbatim>\<open>fetch\<close> returns.
\<close>

section \<open>Invariant\<close>

text \<open>A shard: the list holds every key once, the keys hash to this shard and the nodes exist.\<close>

definition shard_ok :: "(int \<Rightarrow> u64) \<Rightarrow> (string, string) heap \<Rightarrow> nat \<Rightarrow> shard \<Rightarrow> bool" where
  "shard_ok hs H s sh \<longleftrightarrow>
     distinct (sh_lru sh) \<and> distinct (map fst (sh_nodes sh)) \<and> set (sh_lru sh) = fst ` set (sh_nodes sh) \<and>
     (\<forall>(k, n) \<in> set (sh_nodes sh). key_slot hs k = s \<and> nodes H n \<noteq> None)"

definition shard_bytes :: "nat \<Rightarrow> (string, string) heap \<Rightarrow> shard \<Rightarrow> nat" where
  "shard_bytes sz H sh = sum_list (map (\<lambda>p. ByteSize sz (the (nodes H (snd p)))) (sh_nodes sh))"

definition nc_bytes :: "nat \<Rightarrow> (string, string) heap \<Rightarrow> shard list \<Rightarrow> nat" where
  "nc_bytes sz H shs = sum_list (map (shard_bytes sz H) shs)"

definition nc_ok :: "(int \<Rightarrow> u64) \<Rightarrow> nat \<Rightarrow> (string, string) heap \<Rightarrow> node_cache \<Rightarrow> bool" where
  "nc_ok hs sz H C \<longleftrightarrow>
     length (shards C) = num_slots \<and> (\<forall>s < num_slots. shard_ok hs H s (shards C ! s)) \<and>
     used_bytes C = of_nat (nc_bytes sz H (shards C))"

definition heap_fresh :: "(string, string) heap \<Rightarrow> bool" where
  "heap_fresh H \<longleftrightarrow> (\<forall>i \<ge> next_node H. nodes H i = None)"

text \<open>Every cached node satisfies \<open>Q\<close> at its key.\<close>

definition nc_all ::
  "(nkey \<Rightarrow> (string, string) node \<Rightarrow> bool) \<Rightarrow> (int \<Rightarrow> u64) \<Rightarrow> (string, string) heap \<Rightarrow> node_cache \<Rightarrow> bool" where
  "nc_all Q hs H C \<longleftrightarrow> (\<forall>key n nd. nc_find hs key C = Some n \<longrightarrow> nodes H n = Some nd \<longrightarrow> Q key nd)"

lemma key_slot_less [simp]: "key_slot hs key < num_slots"
  by (simp add: key_slot_def num_slots_def)

lemma nc_ok_shard: "nc_ok hs sz H C \<Longrightarrow> shard_ok hs H (key_slot hs key) (shards C ! key_slot hs key)"
  by (simp add: nc_ok_def)

lemma nc_find_node:
  assumes "nc_ok hs sz H C" and "nc_find hs key C = Some n"
  shows "\<exists>nd. nodes H n = Some nd"
  using nc_ok_shard [OF assms(1), of key] assms(2)
  by (auto simp: shard_ok_def nc_find_def dest!: map_of_SomeD)

lemma nc_ok_new: "nc_ok hs sz H (new_node_cache n m)"
  by (simp add: nc_ok_def new_node_cache_def shard_ok_def nc_bytes_def shard_bytes_def sum_list_replicate)

section \<open>Growing heaps\<close>

text \<open>The heap may change as long as cached nodes keep their size.\<close>

definition same_sizes :: "(string, string) heap \<Rightarrow> (string, string) heap \<Rightarrow> bool" where
  "same_sizes H H' \<longleftrightarrow>
     (\<forall>i nd. nodes H i = Some nd \<longrightarrow>
        (\<exists>nd'. nodes H' i = Some nd' \<and> nd_key nd' = nd_key nd \<and> nd_val nd' = nd_val nd))"

lemma same_sizes_bytes:
  assumes "same_sizes H H'" and "shard_ok hs H s sh"
  shows "shard_bytes sz H' sh = shard_bytes sz H sh" "shard_ok hs H' s sh"
proof -
  have n: "\<exists>nd nd'. nodes H n = Some nd \<and> nodes H' n = Some nd' \<and> ByteSize sz nd' = ByteSize sz nd"
    if "(k, n) \<in> set (sh_nodes sh)" for k n
    using that assms unfolding shard_ok_def same_sizes_def ByteSize_def by fastforce
  have "map (\<lambda>p. ByteSize sz (the (nodes H' (snd p)))) (sh_nodes sh) =
      map (\<lambda>p. ByteSize sz (the (nodes H (snd p)))) (sh_nodes sh)"
    using n by (intro map_cong) fastforce+
  from arg_cong [OF this, of sum_list] show "shard_bytes sz H' sh = shard_bytes sz H sh" by (simp only: shard_bytes_def)
  have "nodes H' n \<noteq> None" if "(k, n) \<in> set (sh_nodes sh)" for k n using n [OF that] by auto
  then show "shard_ok hs H' s sh" using assms(2) by (auto simp: shard_ok_def)
qed

lemma nc_ok_same_sizes:
  assumes "nc_ok hs sz H C" and "same_sizes H H'"
  shows "nc_ok hs sz H' C"
proof -
  have "map (shard_bytes sz H') (shards C) = map (shard_bytes sz H) (shards C)"
    using assms same_sizes_bytes(1) by (intro nth_equalityI) (auto simp: nc_ok_def)
  from arg_cong [OF this, of sum_list] have "nc_bytes sz H' (shards C) = nc_bytes sz H (shards C)"
    by (simp only: nc_bytes_def)
  then show ?thesis using assms same_sizes_bytes(2) by (auto simp: nc_ok_def)
qed

lemma alloc_same_sizes:
  assumes "heap_fresh H"
  shows "same_sizes H (snd (alloc_node nd H)) \<and> heap_fresh (snd (alloc_node nd H)) \<and>
    nodes (snd (alloc_node nd H)) = (nodes H)(next_node H \<mapsto> nd) \<and> nodes H (next_node H) = None"
  using assms by (auto simp: alloc_node_def same_sizes_def heap_fresh_def put_node_def)

section \<open>Single entries\<close>

lemma insert_entry_ok:
  assumes "nc_ok hs sz H C" and "nodes H n = Some nd" and "nc_find hs key C = None"
  shows "\<exists>C'. insert_entry hs sz key n H C = Some C' \<and> nc_ok hs sz H C' \<and>
    (\<forall>k. nc_find hs k C' = (if k = key then Some n else nc_find hs k C)) \<and> traces C' = traces C \<and> imap C' = imap C"
proof -
  let ?s = "key_slot hs key"
  let ?sh = "shards C ! ?s"
  let ?sh' = "?sh\<lparr>sh_nodes := (key, n) # sh_nodes ?sh, sh_lru := key # sh_lru ?sh\<rparr>"
  let ?C = "C\<lparr>shards := (shards C)[?s := ?sh'], used_bytes := used_bytes C + of_nat (ByteSize sz nd)\<rparr>"
  have len: "?s < length (shards C)" using assms(1) by (simp add: nc_ok_def)
  have new: "key \<notin> fst ` set (sh_nodes ?sh)" using assms(3) by (simp add: nc_find_def map_of_eq_None_iff)
  have ok': "shard_ok hs H ?s ?sh'"
    using nc_ok_shard [OF assms(1), of key] new assms(2) by (auto simp: shard_ok_def)
  have b: "shard_bytes sz H ?sh' = ByteSize sz nd + shard_bytes sz H ?sh"
    using assms(2) by (simp add: shard_bytes_def)
  have "sum_list ((map (shard_bytes sz H) (shards C))[?s := shard_bytes sz H ?sh']) =
      sum_list (map (shard_bytes sz H) (shards C)) + shard_bytes sz H ?sh' - map (shard_bytes sz H) (shards C) ! ?s"
    by (rule sum_list_update) (use len in simp)
  then have "nc_bytes sz H ((shards C)[?s := ?sh']) = nc_bytes sz H (shards C) + ByteSize sz nd"
    using len b by (simp add: nc_bytes_def map_update)
  then have "nc_ok hs sz H ?C"
    using assms(1) ok' len by (auto simp: nc_ok_def nth_list_update)
  moreover have "insert_entry hs sz key n H C = Some ?C" using assms(2,3) by (simp add: insert_entry_def Let_def)
  moreover have "nc_find hs k ?C = (if k = key then Some n else nc_find hs k C)" for k
    using len by (auto simp: nc_find_def nth_list_update)
  ultimately show ?thesis by simp
qed

lemma move_front_ok:
  assumes "nc_ok hs sz H C" and "nc_find hs key C \<noteq> None"
  shows "nc_ok hs sz H (move_front hs key C) \<and> (\<forall>k. nc_find hs k (move_front hs key C) = nc_find hs k C)"
proof -
  let ?s = "key_slot hs key"
  let ?sh = "shards C ! ?s"
  let ?sh' = "?sh\<lparr>sh_lru := key # remove1 key (sh_lru ?sh)\<rparr>"
  have len: "?s < length (shards C)" using assms(1) by (simp add: nc_ok_def)
  have mem: "key \<in> fst ` set (sh_nodes ?sh)"
    using assms(2) unfolding nc_find_def by (simp add: map_of_eq_None_iff)
  have "shard_ok hs H ?s ?sh'" using nc_ok_shard [OF assms(1), of key] mem by (auto simp: shard_ok_def)
  moreover have "map (shard_bytes sz H) ((shards C)[?s := ?sh']) = map (shard_bytes sz H) (shards C)"
    using len by (simp add: map_update shard_bytes_def) (metis len list_update_id map_update shard_bytes_def)
  ultimately show ?thesis
    using assms(1) len by (auto simp: nc_ok_def nc_bytes_def move_front_def Let_def nth_list_update nc_find_def)
qed


section \<open>After images\<close>

text \<open>Caching an after image: every node of it is then in the cache, entries that were there stay, and new entries
  are deserialized nodes.\<close>

lemma cache_loop_ok:
  assumes "nc_ok hs sz H C" and "heap_fresh H" and "nc_all Q hs H C"
    and "\<forall>i \<in> set idxs. \<exists>nd. deserialize_node ai pos i = Some nd \<and> Q (pos, int i) nd"
  shows "\<exists>nn' H' C'. cache_loop hs sz ai pos idxs nn H C = Some (nn', H', C') \<and>
    nc_ok hs sz H' C' \<and> heap_fresh H' \<and> nc_all Q hs H' C' \<and> same_sizes H H' \<and> traces C' = traces C \<and> imap C' = imap C \<and>
    (\<forall>k n. nc_find hs k C = Some n \<longrightarrow> nc_find hs k C' = Some n) \<and>
    (\<forall>i \<in> set idxs. nc_find hs (pos, int i) C' \<noteq> None) \<and>
    (if idxs = [] then nn' = nn else nn' = nc_find hs (pos, int (last idxs)) C')"
  using assms
proof (induction idxs arbitrary: nn H C)
  case (Cons i idxs)
  let ?k = "(pos, int i)"
  obtain nd where nd: "deserialize_node ai pos i = Some nd" "Q ?k nd" using Cons.prems(4) by auto
  have rest: "\<forall>i \<in> set idxs. \<exists>nd. deserialize_node ai pos i = Some nd \<and> Q (pos, int i) nd"
    using Cons.prems(4) by simp
  show ?case
  proof (cases "nc_find hs ?k C")
    case (Some n)
    obtain nn' H' C' where r: "cache_loop hs sz ai pos idxs (Some n) H C = Some (nn', H', C')"
      "nc_ok hs sz H' C'" "heap_fresh H'" "nc_all Q hs H' C'" "same_sizes H H'" "traces C' = traces C" "imap C' = imap C"
      "\<forall>k n. nc_find hs k C = Some n \<longrightarrow> nc_find hs k C' = Some n"
      "\<forall>i \<in> set idxs. nc_find hs (pos, int i) C' \<noteq> None"
      "if idxs = [] then nn' = Some n else nn' = nc_find hs (pos, int (last idxs)) C'"
      using Cons.IH [OF Cons.prems(1-3) rest, of "Some n"] by blast
    then show ?thesis using nd(1) Some by (auto split: if_splits)
  next
    case None
    let ?H = "snd (alloc_node nd H)" and ?n = "next_node H"
    note a = alloc_same_sizes [OF Cons.prems(2), of nd]
    have ok1: "nc_ok hs sz ?H C" using nc_ok_same_sizes [OF Cons.prems(1)] a by blast
    have "nodes ?H ?n = Some nd" using a by simp
    from insert_entry_ok [OF ok1 this None] obtain C1 where C1: "insert_entry hs sz ?k ?n ?H C = Some C1"
      "nc_ok hs sz ?H C1" "\<forall>k. nc_find hs k C1 = (if k = ?k then Some ?n else nc_find hs k C)"
      "traces C1 = traces C" "imap C1 = imap C"
      by blast
    have "nc_all Q hs ?H C1"
      unfolding nc_all_def
    proof (intro allI impI)
      fix k n x assume k: "nc_find hs k C1 = Some n" "nodes ?H n = Some x"
      show "Q k x"
      proof (cases "k = ?k")
        case True
        then show ?thesis using k C1(3) a nd(2) by simp
      next
        case False
        then have f: "nc_find hs k C = Some n" using k(1) C1(3) by simp
        then obtain y where "nodes H n = Some y" using nc_find_node [OF Cons.prems(1)] by blast
        then have "nodes H n = Some x" using k(2) a by (auto split: if_splits)
        then show ?thesis using Cons.prems(3) f unfolding nc_all_def by blast
      qed
    qed
    then obtain nn' H' C' where r: "cache_loop hs sz ai pos idxs (Some ?n) ?H C1 = Some (nn', H', C')"
      "nc_ok hs sz H' C'" "heap_fresh H'" "nc_all Q hs H' C'" "same_sizes ?H H'" "traces C' = traces C1" "imap C' = imap C1"
      "\<forall>k n. nc_find hs k C1 = Some n \<longrightarrow> nc_find hs k C' = Some n"
      "\<forall>i \<in> set idxs. nc_find hs (pos, int i) C' \<noteq> None"
      "if idxs = [] then nn' = Some ?n else nn' = nc_find hs (pos, int (last idxs)) C'"
      using Cons.IH [OF C1(2) _ _ rest, of "Some ?n"] a by blast
    have found: "nc_find hs ?k C' = Some ?n" using r(8) C1(3) by auto
    have keep: "nc_find hs k C' = Some n" if "nc_find hs k C = Some n" for k n
      using that r(8) C1(3) None by (metis option.distinct(1))
    have sz: "same_sizes H H'" using a r(5) unfolding same_sizes_def by metis
    have "fst (alloc_node nd H) = ?n" by (simp add: alloc_node_def)
    then have "cache_loop hs sz ai pos (i # idxs) nn H C = Some (nn', H', C')"
      using nd(1) None C1(1) r(1) by (simp add: split_beta)
    then show ?thesis using r(2-4,6,7,9,10) C1(4,5) found keep sz by auto
  qed
qed (simp add: same_sizes_def)

text \<open>The nodes of an after image satisfy \<open>Q\<close>.\<close>

definition ai_all :: "(nkey \<Rightarrow> (string, string) node \<Rightarrow> bool) \<Rightarrow> (string, string) after_image \<Rightarrow> u64 \<Rightarrow> bool" where
  "ai_all Q ai pos \<longleftrightarrow>
     (\<forall>i < length (ai_tree ai). \<exists>nd. deserialize_node ai pos i = Some nd \<and> Q (pos, int i) nd)"

lemma CacheAfterImage_ok:
  assumes "nc_ok hs sz H C" and "heap_fresh H" and "nc_all Q hs H C" and "ai_all Q ai pos"
  shows "\<exists>p H' C'. CacheAfterImage hs sz ai pos H C = Some (p, H', C') \<and>
    nc_ok hs sz H' C' \<and> heap_fresh H' \<and> nc_all Q hs H' C' \<and> same_sizes H H' \<and> traces C' = traces C \<and> imap C' = imap C \<and>
    (\<forall>k n. nc_find hs k C = Some n \<longrightarrow> nc_find hs k C' = Some n) \<and>
    (\<forall>i < length (ai_tree ai). nc_find hs (pos, int i) C' \<noteq> None) \<and>
    np_ref p = (if ai_tree ai = [] then Some Nil_id else nc_find hs (pos, int (length (ai_tree ai) - 1)) C')"
proof (cases "ai_tree ai = []")
  case True
  then show ?thesis using assms(1-3) by (simp add: CacheAfterImage_def same_sizes_def)
next
  case False
  obtain nn' H' C' where r: "cache_loop hs sz ai pos [0..<length (ai_tree ai)] None H C = Some (nn', H', C')"
    "nc_ok hs sz H' C'" "heap_fresh H'" "nc_all Q hs H' C'" "same_sizes H H'" "traces C' = traces C" "imap C' = imap C"
    "\<forall>k n. nc_find hs k C = Some n \<longrightarrow> nc_find hs k C' = Some n"
    "\<forall>i \<in> set [0..<length (ai_tree ai)]. nc_find hs (pos, int i) C' \<noteq> None"
    "nn' = nc_find hs (pos, int (last [0..<length (ai_tree ai)])) C'"
    using cache_loop_ok [OF assms(1-3), of "[0..<length (ai_tree ai)]" ai pos None] assms(4) False
    by (auto simp: ai_all_def)
  have l: "last [0..<length (ai_tree ai)] = length (ai_tree ai) - 1" using False by (simp add: last_conv_nth)
  then obtain n where "nn' = Some n" using r(9,10) False by fastforce
  then show ?thesis using r l False by (auto simp: CacheAfterImage_def SetAfterImageAddress_def)
qed


lemma set_read_only_same_sizes:
  "set_read_only n H = Some H' \<Longrightarrow>
    same_sizes H H' \<and> (\<exists>nd. nodes H' n = Some nd) \<and> (heap_fresh H \<longrightarrow> heap_fresh H')"
  by (auto simp: set_read_only_def upd_node_def put_node_def same_sizes_def heap_fresh_def split: if_splits)

lemma delta_loop_ok:
  assumes "delta_loop hs sz pos off ns H C = Some (H', C')" and "nc_ok hs sz H C" and "heap_fresh H"
  shows "nc_ok hs sz H' C' \<and> heap_fresh H' \<and>
    (\<forall>k n. nc_find hs k C = Some n \<longrightarrow> nc_find hs k C' = Some n) \<and>
    (\<forall>i < length ns. nc_find hs (pos, int (off + i)) C' = Some (ns ! i))"
  using assms
proof (induction ns arbitrary: off H C)
  case (Cons n ns)
  obtain H1 C1 where s: "set_read_only n H = Some H1" "insert_entry hs sz (pos, int off) n H1 C = Some C1"
    "delta_loop hs sz pos (Suc off) ns H1 C1 = Some (H', C')"
    using Cons.prems(1) by auto
  note h = set_read_only_same_sizes [OF s(1)]
  have ok1: "nc_ok hs sz H1 C" using nc_ok_same_sizes [OF Cons.prems(2)] h by blast
  obtain nd where nd: "nodes H1 n = Some nd" using h by blast
  have new: "nc_find hs (pos, int off) C = None"
    using s(2) by (auto simp: insert_entry_def Let_def split: if_splits)
  from insert_entry_ok [OF ok1 nd new] s(2) have C1: "nc_ok hs sz H1 C1"
    "\<forall>k. nc_find hs k C1 = (if k = (pos, int off) then Some n else nc_find hs k C)"
    by auto
  have fr: "heap_fresh H1" using h Cons.prems(3) by blast
  note r = Cons.IH [OF s(3) C1(1) fr]
  have "nc_find hs k C' = Some m" if "nc_find hs k C = Some m" for k m
    using that r C1(2) new by (metis option.distinct(1))
  moreover have "nc_find hs (pos, int (off + i)) C' = Some ((n # ns) ! i)" if "i < length (n # ns)" for i
    using that r C1(2) by (cases i) auto
  ultimately show ?case using r by blast
qed simp

lemma ApplyAfterImageDelta_ok:
  assumes "ApplyAfterImageDelta hs sz delta pos H C = Some (p, H', C')" and "nc_ok hs sz H C" and "heap_fresh H"
  shows "nc_ok hs sz H' C' \<and> heap_fresh H' \<and> (\<forall>i < length delta. nc_find hs (pos, int i) C' = Some (delta ! i))"
  using assms delta_loop_ok [of hs sz pos 0 delta H C H' C'] by (auto simp: ApplyAfterImageDelta_def split: if_splits)

section \<open>Eviction\<close>

lemma sum_remove_key:
  fixes g :: "'a \<times> 'b \<Rightarrow> nat"
  assumes "map_of ps k = Some n" and "distinct (map fst ps)"
  shows "sum_list (map g ps) = g (k, n) + sum_list (map g (filter (\<lambda>p. fst p \<noteq> k) ps))"
  using assms
proof (induction ps)
  case (Cons p ps)
  show ?case
  proof (cases "fst p = k")
    case True
    then have "filter (\<lambda>q. fst q \<noteq> k) ps = ps" using Cons.prems(2) by (intro filter_True) (auto simp: image_iff)
    moreover have "p = (k, n)" using True Cons.prems(1) by (cases p) auto
    ultimately show ?thesis by simp
  qed (use Cons in auto)
qed simp

text \<open>Dropping the last key of the list of a shard.\<close>

lemma drop_last_ok:
  assumes "shard_ok hs H s sh" and "sh_nodes sh \<noteq> []"
  shows "\<exists>n nd. sh_lru sh \<noteq> [] \<and> map_of (sh_nodes sh) (last (sh_lru sh)) = Some n \<and> nodes H n = Some nd \<and>
    shard_ok hs H s (sh\<lparr>sh_nodes := filter (\<lambda>p. fst p \<noteq> last (sh_lru sh)) (sh_nodes sh), sh_lru := butlast (sh_lru sh)\<rparr>) \<and>
    shard_bytes sz H sh = ByteSize sz nd + shard_bytes sz H
      (sh\<lparr>sh_nodes := filter (\<lambda>p. fst p \<noteq> last (sh_lru sh)) (sh_nodes sh), sh_lru := butlast (sh_lru sh)\<rparr>)"
proof -
  let ?k = "last (sh_lru sh)"
  have ok: "distinct (sh_lru sh)" "distinct (map fst (sh_nodes sh))" "set (sh_lru sh) = fst ` set (sh_nodes sh)"
    "\<forall>(k, n) \<in> set (sh_nodes sh). key_slot hs k = s \<and> nodes H n \<noteq> None"
    using assms(1) by (auto simp: shard_ok_def)
  have ne: "sh_lru sh \<noteq> []" using ok(3) assms(2) by auto
  then have "?k \<in> fst ` set (sh_nodes sh)" using ok(3) last_in_set by blast
  then obtain n where n: "map_of (sh_nodes sh) ?k = Some n" by (metis map_of_eq_None_iff not_None_eq)
  then obtain nd where nd: "nodes H n = Some nd" using ok(4) map_of_SomeD [OF n] by fastforce
  have l: "sh_lru sh = butlast (sh_lru sh) @ [?k]" using ne by simp
  have "distinct (butlast (sh_lru sh) @ [?k])" using ok(1) l by simp
  then have "?k \<notin> set (butlast (sh_lru sh))" by simp
  moreover have "set (sh_lru sh) = insert ?k (set (butlast (sh_lru sh)))" by (subst l) simp
  ultimately have "set (butlast (sh_lru sh)) = fst ` set (sh_nodes sh) - {?k}" using ok(3) by auto
  moreover have "fst ` set (sh_nodes sh) - {k} = fst ` set (filter (\<lambda>p. fst p \<noteq> k) (sh_nodes sh))" for k by force
  ultimately have "set (butlast (sh_lru sh)) = fst ` set (filter (\<lambda>p. fst p \<noteq> ?k) (sh_nodes sh))" by simp
  then have "shard_ok hs H s (sh\<lparr>sh_nodes := filter (\<lambda>p. fst p \<noteq> ?k) (sh_nodes sh), sh_lru := butlast (sh_lru sh)\<rparr>)"
    using ok by (auto simp: shard_ok_def distinct_butlast distinct_map_filter)
  then show ?thesis
    using ne n nd sum_remove_key [OF n ok(2), of "\<lambda>p. ByteSize sz (the (nodes H (snd p)))"]
    by (simp add: shard_bytes_def)
qed

lemma evict_loop_ok:
  assumes "shard_ok hs H s sh"
  shows "\<exists>sh' used' j. evict_loop sz H left sh used = Some (sh', used') \<and> shard_ok hs H s sh' \<and>
    used' + of_nat (shard_bytes sz H sh) = used + of_nat (shard_bytes sz H sh') \<and>
    (sh_nodes sh' = [] \<or> left \<le> int (shard_bytes sz H sh) - int (shard_bytes sz H sh')) \<and>
    sh_lru sh' = take j (sh_lru sh) \<and> set (sh_nodes sh') \<subseteq> set (sh_nodes sh)"
  using assms
proof (induction sz H left sh used rule: evict_loop.induct)
  case (1 sz H left sh used)
  show ?case
  proof (cases "\<not> 0 < left \<or> sh_nodes sh = []")
    case True
    then show ?thesis
      using 1(2) by (intro exI [of _ sh] exI [of _ used] exI [of _ "length (sh_lru sh)"])
        (auto simp: evict_loop.simps [of sz H left sh used])
  next
    case False
    let ?sh = "sh\<lparr>sh_nodes := filter (\<lambda>p. fst p \<noteq> last (sh_lru sh)) (sh_nodes sh), sh_lru := butlast (sh_lru sh)\<rparr>"
    obtain n nd where d: "sh_lru sh \<noteq> []" "map_of (sh_nodes sh) (last (sh_lru sh)) = Some n" "nodes H n = Some nd"
      "shard_ok hs H s ?sh" "shard_bytes sz H sh = ByteSize sz nd + shard_bytes sz H ?sh"
      using drop_last_ok [OF 1(2), of sz] False by blast
    let ?u = "used - of_nat (ByteSize sz nd)"
    obtain sh' used' j where r: "evict_loop sz H (left - int (ByteSize sz nd)) ?sh ?u = Some (sh', used')" "shard_ok hs H s sh'"
      "used' + of_nat (shard_bytes sz H ?sh) = ?u + of_nat (shard_bytes sz H sh')"
      "sh_nodes sh' = [] \<or> left - int (ByteSize sz nd) \<le> int (shard_bytes sz H ?sh) - int (shard_bytes sz H sh')"
      "sh_lru sh' = take j (sh_lru ?sh)" "set (sh_nodes sh') \<subseteq> set (sh_nodes ?sh)"
      using 1(1) [OF False d(1) refl d(2,3,4)] by blast
    have e: "evict_loop sz H left sh used = Some (sh', used')"
      using False d(1-3) r(1) by (simp add: evict_loop.simps [of sz H left sh used])
    have "used' + of_nat (shard_bytes sz H sh) = used + of_nat (shard_bytes sz H sh')"
      using r(3) unfolding d(5) of_nat_add by (simp add: algebra_simps)
    moreover have "sh_nodes sh' = [] \<or> left \<le> int (shard_bytes sz H sh) - int (shard_bytes sz H sh')"
      using r(4) d(5) by auto
    moreover have "sh_lru sh' = take (min j (length (sh_lru sh) - 1)) (sh_lru sh)"
      using r(5) by (simp add: butlast_conv_take)
    moreover have "set (sh_nodes sh') \<subseteq> set (sh_nodes sh)" using r(6) by auto
    ultimately show ?thesis using e r(2) by blast
  qed
qed


lemma nc_bytes_Cons: "nc_bytes sz H (sh # shs) = shard_bytes sz H sh + nc_bytes sz H shs"
  by (simp add: nc_bytes_def)

lemma evict_shards_ok:
  assumes "\<forall>i < length shs. shard_ok hs H (s + i) (shs ! i)"
  shows "\<exists>shs' used'. evict_shards sz H target shs used = Some (shs', used') \<and> length shs' = length shs \<and>
    used' + of_nat (nc_bytes sz H shs) = used + of_nat (nc_bytes sz H shs') \<and>
    (\<forall>i < length shs. shard_ok hs H (s + i) (shs' ! i) \<and>
       (sh_nodes (shs' ! i) = [] \<or> target \<le> int (shard_bytes sz H (shs ! i)) - int (shard_bytes sz H (shs' ! i))) \<and>
       (\<exists>j. sh_lru (shs' ! i) = take j (sh_lru (shs ! i))) \<and> set (sh_nodes (shs' ! i)) \<subseteq> set (sh_nodes (shs ! i)))"
  using assms
proof (induction shs arbitrary: s used)
  case (Cons sh shs)
  have ok: "shard_ok hs H s sh" "\<forall>i < length shs. shard_ok hs H (Suc s + i) (shs ! i)"
    using Cons.prems by (force, metis add_Suc_shift length_Cons not_less_eq nth_Cons_Suc)
  obtain sh' u j where e: "evict_loop sz H target sh used = Some (sh', u)" "shard_ok hs H s sh'"
    "u + of_nat (shard_bytes sz H sh) = used + of_nat (shard_bytes sz H sh')"
    "sh_nodes sh' = [] \<or> target \<le> int (shard_bytes sz H sh) - int (shard_bytes sz H sh')"
    "sh_lru sh' = take j (sh_lru sh)" "set (sh_nodes sh') \<subseteq> set (sh_nodes sh)"
    using evict_loop_ok [OF ok(1)] by blast
  obtain shs' used' where r: "evict_shards sz H target shs u = Some (shs', used')" "length shs' = length shs"
    "used' + of_nat (nc_bytes sz H shs) = u + of_nat (nc_bytes sz H shs')"
    "\<forall>i < length shs. shard_ok hs H (Suc s + i) (shs' ! i) \<and>
       (sh_nodes (shs' ! i) = [] \<or> target \<le> int (shard_bytes sz H (shs ! i)) - int (shard_bytes sz H (shs' ! i))) \<and>
       (\<exists>j. sh_lru (shs' ! i) = take j (sh_lru (shs ! i))) \<and> set (sh_nodes (shs' ! i)) \<subseteq> set (sh_nodes (shs ! i))"
    using Cons.IH [OF ok(2)] by blast
  have "used' + of_nat (nc_bytes sz H (sh # shs)) =
      (used' + of_nat (nc_bytes sz H shs)) + of_nat (shard_bytes sz H sh)"
    by (simp add: nc_bytes_Cons algebra_simps)
  also have "\<dots> = (u + of_nat (shard_bytes sz H sh)) + of_nat (nc_bytes sz H shs')"
    unfolding r(3) by (simp add: algebra_simps)
  also have "\<dots> = used + of_nat (nc_bytes sz H (sh' # shs'))"
    unfolding e(3) by (simp add: nc_bytes_Cons algebra_simps)
  finally have b: "used' + of_nat (nc_bytes sz H (sh # shs)) = used + of_nat (nc_bytes sz H (sh' # shs'))" .
  show ?case
    using e r b by (intro exI [of _ "sh' # shs'"] exI [of _ used']) (auto simp: nth_Cons less_Suc_eq_0_disj split: nat.splits)
qed simp

lemma do_vaccum_ok:
  assumes "nc_ok hs sz H C"
  shows "\<exists>C'. do_vaccum hs sz H C = Some C' \<and> nc_ok hs sz H C' \<and> traces C' = traces C \<and> imap C' = imap C \<and>
    (\<forall>s < num_slots. (\<exists>j. sh_lru (shards C' ! s) = take j (sh_lru (shards C ! s))) \<and>
       set (sh_nodes (shards C' ! s)) \<subseteq> set (sh_nodes (shards C ! s)) \<and>
       (nc_cache_size C < used_bytes C \<longrightarrow> sh_nodes (shards C' ! s) = [] \<or>
          uint ((used_bytes C - nc_cache_size C) div of_nat num_slots)
            \<le> int (shard_bytes sz H (shards C ! s)) - int (shard_bytes sz H (shards C' ! s))))"
proof (cases "nc_cache_size C < used_bytes C")
  case True
  let ?t = "uint ((used_bytes C - nc_cache_size C) div of_nat num_slots)"
  have ok: "length (shards C) = num_slots" "\<forall>i < length (shards C). shard_ok hs H (0 + i) (shards C ! i)"
    "used_bytes C = of_nat (nc_bytes sz H (shards C))"
    using assms by (simp_all add: nc_ok_def)
  obtain shs used where r: "evict_shards sz H ?t (shards C) (used_bytes C) = Some (shs, used)"
    "length shs = length (shards C)"
    "used + of_nat (nc_bytes sz H (shards C)) = used_bytes C + of_nat (nc_bytes sz H shs)"
    "\<forall>i < length (shards C). shard_ok hs H (0 + i) (shs ! i) \<and>
       (sh_nodes (shs ! i) = [] \<or> ?t \<le> int (shard_bytes sz H (shards C ! i)) - int (shard_bytes sz H (shs ! i))) \<and>
       (\<exists>j. sh_lru (shs ! i) = take j (sh_lru (shards C ! i))) \<and> set (sh_nodes (shs ! i)) \<subseteq> set (sh_nodes (shards C ! i))"
    using evict_shards_ok [OF ok(2)] by blast
  have "used = of_nat (nc_bytes sz H shs)" using r(3) ok(3) by (simp add: add.commute)
  then show ?thesis using True r ok(1) by (simp add: do_vaccum_def nc_ok_def)
next
  case False
  have "\<exists>j. xs = take j xs" for xs :: "nkey list" by (rule exI [of _ "length xs"]) simp
  then show ?thesis using False assms by (simp add: do_vaccum_def)
qed

lemma evicted_find:
  assumes "nc_ok hs sz H C" and "nc_ok hs sz H' C'"
    and "\<forall>s < num_slots. set (sh_nodes (shards C' ! s)) \<subseteq> set (sh_nodes (shards C ! s))" and "nc_find hs k C' = Some n"
  shows "nc_find hs k C = Some n"
proof -
  have "(k, n) \<in> set (sh_nodes (shards C' ! key_slot hs k))"
    using assms(4) unfolding nc_find_def by (rule map_of_SomeD)
  then have "(k, n) \<in> set (sh_nodes (shards C ! key_slot hs k))"
    using subsetD [OF spec [OF assms(3), THEN mp, OF key_slot_less [of hs k]]] by blast
  then show ?thesis
    using nc_ok_shard [OF assms(1), of k] by (simp add: nc_find_def shard_ok_def)
qed

lemma clear_loop_ok:
  assumes "shard_ok hs H s sh"
  shows "clear_loop sz H sh used = Some (sh\<lparr>sh_nodes := [], sh_lru := []\<rparr>, used - of_nat (shard_bytes sz H sh))"
  using assms
proof (induction sz H sh used rule: clear_loop.induct)
  case (1 sz H sh used)
  show ?case
  proof (cases "sh_nodes sh = []")
    case True
    moreover have "sh_lru sh = []" using True 1(2) by (simp add: shard_ok_def)
    ultimately show ?thesis by (simp add: clear_loop.simps [of sz H sh used] shard_bytes_def)
  next
    case False
    let ?sh = "sh\<lparr>sh_nodes := filter (\<lambda>p. fst p \<noteq> last (sh_lru sh)) (sh_nodes sh), sh_lru := butlast (sh_lru sh)\<rparr>"
    obtain n nd where d: "sh_lru sh \<noteq> []" "map_of (sh_nodes sh) (last (sh_lru sh)) = Some n" "nodes H n = Some nd"
      "shard_ok hs H s ?sh" "shard_bytes sz H sh = ByteSize sz nd + shard_bytes sz H ?sh"
      using drop_last_ok [OF 1(2) False, of sz] by blast
    show ?thesis
      using 1(1) [OF False d(1) refl d(2,3,4)] False d(1-3)
      by (simp add: clear_loop.simps [of sz H sh used] d(5) algebra_simps)
  qed
qed

lemma clear_shards_ok:
  assumes "\<forall>i < length shs. shard_ok hs H (s + i) (shs ! i)"
  shows "clear_shards sz H shs used =
    Some (map (\<lambda>sh. sh\<lparr>sh_nodes := [], sh_lru := []\<rparr>) shs, used - of_nat (nc_bytes sz H shs))"
  using assms
proof (induction shs arbitrary: s used)
  case (Cons sh shs)
  have ok: "shard_ok hs H s sh" "\<forall>i < length shs. shard_ok hs H (Suc s + i) (shs ! i)"
    using Cons.prems by (force, metis add_Suc_shift length_Cons not_less_eq nth_Cons_Suc)
  show ?case using clear_loop_ok [OF ok(1)] Cons.IH [OF ok(2)] by (simp add: nc_bytes_Cons algebra_simps)
qed (simp add: nc_bytes_def)

lemma Clear_ok:
  assumes "nc_ok hs sz H C"
  shows "\<exists>C'. Clear sz H C = Some C' \<and> nc_ok hs sz H C' \<and> used_bytes C' = 0 \<and> traces C' = [] \<and>
    (\<forall>k. nc_find hs k C' = None)"
proof -
  let ?shs = "map (\<lambda>sh. sh\<lparr>sh_nodes := [], sh_lru := []\<rparr>) (shards C)"
  have ok: "length (shards C) = num_slots" "\<forall>i < length (shards C). shard_ok hs H (0 + i) (shards C ! i)"
    "used_bytes C = of_nat (nc_bytes sz H (shards C))"
    using assms by (simp_all add: nc_ok_def)
  have z: "map (shard_bytes sz H) ?shs = replicate (length (shards C)) 0"
    by (rule nth_equalityI) (simp_all add: shard_bytes_def)
  have b: "nc_bytes sz H ?shs = 0" unfolding nc_bytes_def z by (simp add: sum_list_replicate)
  let ?C = "C\<lparr>imap := lru_clear (imap C), traces := [], shards := ?shs, used_bytes := 0\<rparr>"
  have "Clear sz H C = Some ?C" using clear_shards_ok [OF ok(2), of sz "used_bytes C"] ok(3) by (simp add: Clear_def)
  moreover have "nc_ok hs sz H ?C" using b ok(1) by (simp add: nc_ok_def shard_ok_def)
  moreover have "nc_find hs k ?C = None" for k using ok(1) by (simp add: nc_find_def)
  ultimately show ?thesis by simp
qed


section \<open>Fetching\<close>

lemma ReadAfterImage_ok:
  assumes "log_spec z slots" and "reliable z slots" and "coherent c slots S l"
    and "log_entry_at c slots l pos = Some (CAfterImage ai)" and "length (entry_cache S) < cache_size S"
  shows "\<exists>S' l'. ReadAfterImage z c pos S l = Some (ai, S', l') \<and> coherent c slots S' l' \<and> grows slots l l'"
proof -
  obtain d where d: "slots l pos = Written d" "dec c d = Some (AFTER_IMAGE ai)"
  proof (cases "slots l pos")
    case (Written d)
    then obtain e where "dec c d = Some e" "as_entry pos e = CAfterImage ai" using assms(4) by (auto simp: log_entry_at_def)
    then show ?thesis using that Written by (cases e) auto
  qed (use assms(4) in \<open>simp_all add: log_entry_at_def\<close>)
  have "\<exists>S' l'. ReadAfterImage z c pos S l = Some (ai, S', l')"
  proof (cases "map_of (entry_cache S) pos")
    case None
    obtain l' where "z_read z pos l = (Inr d, l')" using assms(2) d(1) unfolding reliable_def by blast
    then have "read_retry z pos l = Some (d, l')" by (subst read_retry.simps) simp
    moreover have "skeys (entry_cache S)" using assms(3) by (simp add: coherent_def)
    ultimately show ?thesis
      using None d(2) cache_insert_room [OF None assms(5), of "CAfterImage ai"] by (simp add: ReadAfterImage_def)
  next
    case (Some e)
    then have "e = CAfterImage ai" using assms(3,4) by (auto simp: coherent_def)
    then show ?thesis using Some by (simp add: ReadAfterImage_def)
  qed
  then show ?thesis using ReadAfterImage_spec [OF _ assms(1,3)] by blast
qed

text \<open>What the log says about the node at a key: its key, value and colour.\<close>

definition logged :: "codec \<Rightarrow> ('l \<Rightarrow> u64 \<Rightarrow> slot) \<Rightarrow> 'l \<Rightarrow> nkey \<Rightarrow> (string, string) node \<Rightarrow> bool" where
  "logged c slots l key nd \<longleftrightarrow>
     (\<exists>ai nd'. log_entry_at c slots l (fst key) = Some (CAfterImage ai) \<and>
        deserialize_node ai (fst key) (nat (snd key)) = Some nd' \<and>
        nd_key nd = nd_key nd' \<and> nd_val nd = nd_val nd' \<and> nd_red nd = nd_red nd')"

lemma logged_grows: "grows slots l l' \<Longrightarrow> logged c slots l key nd \<Longrightarrow> logged c slots l' key nd"
  unfolding logged_def using grows_entry [of slots l l' c "fst key"] by blast

lemma fetch_key:
  assumes "lru_ok (imap C)"
    and "if is_afterimage a then pos = position a else lru_lookup (imap C) (position a) = Some pos"
  shows "\<exists>m. findAfterImagePosition z c a C S l = Some (pos, C\<lparr>imap := m\<rparr>, S, l) \<and> lru_ok m \<and>
    lru_lookup m = lru_lookup (imap C)"
proof (cases "is_afterimage a")
  case True
  then show ?thesis using assms by (intro exI [of _ "imap C"]) (simp add: findAfterImagePosition_def)
next
  case False
  then show ?thesis
    using assms lru_get_ok [OF assms(1), of "position a"]
    by (cases "lru_get (position a) (imap C)") (auto simp: findAfterImagePosition_def IntentionToAfterImage_def)
qed

lemma nc_ok_members [simp]:
  "nc_ok hs sz H (C\<lparr>imap := m\<rparr>) = nc_ok hs sz H C" "nc_ok hs sz H (C\<lparr>traces := ts\<rparr>) = nc_ok hs sz H C"
  "nc_find hs k (C\<lparr>imap := m\<rparr>) = nc_find hs k C" "nc_find hs k (C\<lparr>traces := ts\<rparr>) = nc_find hs k C"
  "nc_all Q hs H (C\<lparr>imap := m\<rparr>) = nc_all Q hs H C" "nc_all Q hs H (C\<lparr>traces := ts\<rparr>) = nc_all Q hs H C"
  by (simp_all add: nc_ok_def nc_find_def nc_all_def)

lemma nc_all_move_front: "nc_ok hs sz H C \<Longrightarrow> nc_find hs key C \<noteq> None \<Longrightarrow>
    nc_all Q hs H (move_front hs key C) = nc_all Q hs H C"
  using move_front_ok [of hs sz H C key] by (simp add: nc_all_def)

lemma fetch_ok:
  assumes "nc_ok hs sz H C" and "heap_fresh H" and "nc_all (logged c slots l) hs H C" and "lru_ok (imap C)"
    and "if is_afterimage a then pos = position a else lru_lookup (imap C) (position a) = Some pos"
    and "log_spec z slots" and "reliable z slots" and "coherent c slots S l"
    and "log_entry_at c slots l pos = Some (CAfterImage ai)" and "unat (offset a) < length (ai_tree ai)"
    and "\<forall>i < length (ai_tree ai). deserialize_node ai pos i \<noteq> None" and "length (entry_cache S) < cache_size S"
  shows "\<exists>n tr H' C' S' l' nd. fetch hs sz z c trace a H C S l = Some (n, tr, H', C', S', l') \<and>
    nodes H' n = Some nd \<and> logged c slots l' (pos, uint (offset a)) nd \<and>
    nc_ok hs sz H' C' \<and> heap_fresh H' \<and> nc_all (logged c slots l') hs H' C' \<and> coherent c slots S' l' \<and>
    grows slots l l' \<and> nc_find hs (pos, uint (offset a)) C' = Some n"
proof -
  let ?k = "(pos, uint (offset a))"
  obtain m where m: "findAfterImagePosition z c a C S l = Some (pos, C\<lparr>imap := m\<rparr>, S, l)"
    using fetch_key [OF assms(4,5), of z c S l] by blast
  let ?C = "C\<lparr>imap := m\<rparr>"
  show ?thesis
  proof (cases "nc_find hs ?k C")
    case (Some n)
    obtain nd where nd: "nodes H n = Some nd" using nc_find_node [OF assms(1) Some] by blast
    then have q: "logged c slots l ?k nd" using assms(3) Some unfolding nc_all_def by blast
    have f: "fetch hs sz z c trace a H C S l = Some (n, trace, H, move_front hs ?k ?C, S, l)"
      using m Some by (simp add: fetch_def)
    have k: "nc_find hs ?k ?C \<noteq> None" "nc_ok hs sz H ?C" using Some assms(1) by simp_all
    show ?thesis
      using f nd q move_front_ok [OF k(2,1)] nc_all_move_front [OF k(2,1), of "logged c slots l"] assms(2,3,8) Some
      by auto
  next
    case None
    obtain S' l' where r: "ReadAfterImage z c pos S l = Some (ai, S', l')" "coherent c slots S' l'" "grows slots l l'"
      using ReadAfterImage_ok [OF assms(6-9,12)] by blast
    let ?C1 = "UpdateLRU trace ?C"
    have "nc_all (logged c slots l') hs H C" using assms(3) logged_grows [OF r(3)] unfolding nc_all_def by blast
    then have p: "nc_ok hs sz H ?C1" "nc_all (logged c slots l') hs H ?C1"
      using assms(1) by (simp_all add: UpdateLRU_def)
    have "ai_all (logged c slots l') ai pos"
      using assms(11) grows_entry [OF r(3) assms(9)] by (auto simp: ai_all_def logged_def)
    from CacheAfterImage_ok [OF p(1) assms(2) p(2) this] obtain q H' C' where C': "CacheAfterImage hs sz ai pos H ?C1 = Some (q, H', C')"
      "nc_ok hs sz H' C'" "heap_fresh H'" "nc_all (logged c slots l') hs H' C'"
      "\<forall>i < length (ai_tree ai). nc_find hs (pos, int i) C' \<noteq> None"
      by blast
    have "nc_find hs (pos, int (unat (offset a))) C' \<noteq> None" using C'(5) assms(10) by blast
    then obtain n where n: "nc_find hs ?k C' = Some n" by auto
    obtain nd where nd: "nodes H' n = Some nd" using nc_find_node [OF C'(2) n] by blast
    then have q: "logged c slots l' ?k nd" using C'(4) n unfolding nc_all_def by blast
    have k: "nc_find hs ?k C' \<noteq> None" using n by simp
    have "fetch hs sz z c trace a H C S l = Some (n, [], H', move_front hs ?k C', S', l')"
      using m None r(1) C'(1) n by (simp add: fetch_def fetch_again_def)
    then show ?thesis
      using nd q move_front_ok [OF C'(2) k] nc_all_move_front [OF C'(2) k, of "logged c slots l'"] C'(3,4) r(2,3) n
      by auto
  qed
qed


lemma delta_loop_total:
  assumes "nc_ok hs sz H C" and "heap_fresh H" and "distinct ns"
    and "\<forall>n \<in> set ns. \<exists>nd. nodes H n = Some nd \<and> \<not> nd_read_only nd"
    and "\<forall>i < length ns. nc_find hs (pos, int (off + i)) C = None"
  shows "\<exists>H' C'. delta_loop hs sz pos off ns H C = Some (H', C')"
  using assms
proof (induction ns arbitrary: off H C)
  case (Cons n ns)
  obtain nd where nd: "nodes H n = Some nd" "\<not> nd_read_only nd" using Cons.prems(4) by auto
  let ?H = "put_node n (nd\<lparr>nd_read_only := True\<rparr>) H"
  have s: "set_read_only n H = Some ?H" using nd by (simp add: set_read_only_def upd_node_def)
  note h = set_read_only_same_sizes [OF s]
  have ok1: "nc_ok hs sz ?H C" using nc_ok_same_sizes [OF Cons.prems(1)] h by blast
  have new: "nc_find hs (pos, int off) C = None" using Cons.prems(5) by force
  have "nodes ?H n = Some (nd\<lparr>nd_read_only := True\<rparr>)" by (simp add: put_node_def)
  from insert_entry_ok [OF ok1 this new] obtain C1 where C1: "insert_entry hs sz (pos, int off) n ?H C = Some C1"
    "nc_ok hs sz ?H C1" "\<forall>k. nc_find hs k C1 = (if k = (pos, int off) then Some n else nc_find hs k C)"
    by blast
  have "\<forall>m \<in> set ns. \<exists>x. nodes ?H m = Some x \<and> \<not> nd_read_only x"
    using Cons.prems(3,4) by (auto simp: put_node_def)
  moreover have "nc_find hs (pos, int (Suc off + i)) C1 = None" if "i < length ns" for i
    using that spec [OF Cons.prems(5), of "Suc i"] C1(3) by simp
  ultimately obtain H' C' where "delta_loop hs sz pos (Suc off) ns ?H C1 = Some (H', C')"
    using Cons.IH [OF C1(2), of "Suc off"] h Cons.prems(2,3) by auto
  then show ?case using s C1(1) by simp
qed simp

section \<open>Properties\<close>


text \<open>A log with an after image of one node.\<close>

definition ai_one :: "(string, string) after_image" where
  "ai_one = \<lparr>ai_intention = 1, ai_tree =
     [\<lparr>pb_red = False, pb_key = ''k'', pb_val = ''v'',
       pb_left = \<lparr>pb_nil = True, pb_self = False, pb_intention = None, pb_afterimage = None, pb_off = None\<rparr>,
       pb_right = \<lparr>pb_nil = True, pb_self = False, pb_intention = None, pb_afterimage = None, pb_off = None\<rparr>\<rparr>]\<rparr>"

definition codec_one :: codec where
  "codec_one = \<lparr>enc = (\<lambda>_. ''a''), dec = (\<lambda>_. Some (AFTER_IMAGE ai_one))\<rparr>"


text \<open>C30: the invariant of the node cache: in every shard the list holds each key once, every key is in the shard
  it hashes to, and the byte count is the size of the cached nodes. Caching an after image whose nodes decode
  completes, keeps it and leaves all its nodes in the cache; so do applying the new nodes of a commit, if none
  of them is read-only or cached yet, a turn of the eviction thread, which only loses entries, and \<^verbatim>\<open>Clear\<close>,
  which empties the cache and sets the count to zero.\<close>

theorem node_cache_invariant:
  assumes "nc_ok hs sz H C" and "heap_fresh H" and "\<forall>i < length (ai_tree ai). deserialize_node ai pos i \<noteq> None"
    and "distinct delta" and "\<forall>n \<in> set delta. \<exists>nd. nodes H n = Some nd \<and> \<not> nd_read_only nd"
    and "\<forall>i < length delta. nc_find hs (pos, int i) C = None"
  shows "(\<exists>p H' C'. CacheAfterImage hs sz ai pos H C = Some (p, H', C') \<and> nc_ok hs sz H' C' \<and>
      (\<forall>i < length (ai_tree ai). nc_find hs (pos, int i) C' \<noteq> None))
    \<and> (\<exists>p H' C'. ApplyAfterImageDelta hs sz delta pos H C = Some (p, H', C') \<and> nc_ok hs sz H' C' \<and>
      (\<forall>i < length delta. nc_find hs (pos, int i) C' = Some (delta ! i)))
    \<and> (\<exists>C'. do_vaccum hs sz H C = Some C' \<and> nc_ok hs sz H C' \<and>
      (\<forall>k n. nc_find hs k C' = Some n \<longrightarrow> nc_find hs k C = Some n))
    \<and> (\<exists>C'. Clear sz H C = Some C' \<and> nc_ok hs sz H C' \<and> used_bytes C' = 0 \<and> (\<forall>k. nc_find hs k C' = None))"
proof (intro conjI)
  have "nc_all (\<lambda>_ _. True) hs H C" "ai_all (\<lambda>_ _. True) ai pos" using assms(3) by (auto simp: nc_all_def ai_all_def)
  from CacheAfterImage_ok [OF assms(1,2) this]
  show "\<exists>p H' C'. CacheAfterImage hs sz ai pos H C = Some (p, H', C') \<and> nc_ok hs sz H' C' \<and>
      (\<forall>i < length (ai_tree ai). nc_find hs (pos, int i) C' \<noteq> None)"
    by blast
  have "\<exists>p H' C'. ApplyAfterImageDelta hs sz delta pos H C = Some (p, H', C')"
    using delta_loop_total [OF assms(1,2,4,5), of pos 0] assms(6)
    by (auto simp: ApplyAfterImageDelta_def SetAfterImageAddress_def)
  then show "\<exists>p H' C'. ApplyAfterImageDelta hs sz delta pos H C = Some (p, H', C') \<and> nc_ok hs sz H' C' \<and>
      (\<forall>i < length delta. nc_find hs (pos, int i) C' = Some (delta ! i))"
    using ApplyAfterImageDelta_ok [OF _ assms(1,2)] by blast
  obtain C' where v: "do_vaccum hs sz H C = Some C'" "nc_ok hs sz H C'"
    "\<forall>s < num_slots. set (sh_nodes (shards C' ! s)) \<subseteq> set (sh_nodes (shards C ! s))"
    using do_vaccum_ok [OF assms(1)] by blast
  then show "\<exists>C'. do_vaccum hs sz H C = Some C' \<and> nc_ok hs sz H C' \<and>
      (\<forall>k n. nc_find hs k C' = Some n \<longrightarrow> nc_find hs k C = Some n)"
    using evicted_find [OF assms(1) v(2,3)] by blast
  show "\<exists>C'. Clear sz H C = Some C' \<and> nc_ok hs sz H C' \<and> used_bytes C' = 0 \<and> (\<forall>k. nc_find hs k C' = None)"
    using Clear_ok [OF assms(1)] by blast
qed

definition one_heap :: "(string, string) heap" where
  "one_heap =
     \<lparr>nodes = [1 \<mapsto> \<lparr>nd_left = \<lparr>np_ref = Some 0, np_addr = None\<rparr>, nd_right = \<lparr>np_ref = Some 0, np_addr = None\<rparr>,
        nd_key = ''k'', nd_val = ''v'', nd_red = False, nd_rid = 1, nd_read_only = False\<rparr>], next_node = 2\<rparr>"

theorem node_cache_invariant_witness:
  "\<exists>p H' C' p' H'' C''. CacheAfterImage (\<lambda>x. word_of_int x) 100 ai_one 5 one_heap (new_node_cache 10 1) = Some (p, H', C') \<and>
    nc_ok (\<lambda>x. word_of_int x) 100 H' C' \<and> nc_find (\<lambda>x. word_of_int x) (5, 0) C' \<noteq> None \<and>
    ApplyAfterImageDelta (\<lambda>x. word_of_int x) 100 [1] 5 one_heap (new_node_cache 10 1) = Some (p', H'', C'') \<and>
    nc_ok (\<lambda>x. word_of_int x) 100 H'' C'' \<and> nc_find (\<lambda>x. word_of_int x) (5, 0) C'' = Some 1"
proof -
  have f: "nc_find hs k (new_node_cache 10 1) = None" for hs k
    by (simp add: nc_find_def new_node_cache_def)
  have h: "heap_fresh one_heap" by (auto simp: heap_fresh_def one_heap_def)
  have d: "\<forall>i < length (ai_tree ai_one). deserialize_node ai_one 5 i \<noteq> None"
    by (simp add: ai_one_def deserialize_node_def deserialize_ptr_def)
  have n: "\<forall>n \<in> set [1]. \<exists>nd. nodes one_heap n = Some nd \<and> \<not> nd_read_only nd" by (simp add: one_heap_def)
  have l: "0 < length (ai_tree ai_one)" by (simp add: ai_one_def)
  note x = node_cache_invariant [OF nc_ok_new h d _ n, of "\<lambda>x. word_of_int x" 10 1 100]
  from x obtain p H' C' where 1: "CacheAfterImage (\<lambda>x. word_of_int x) 100 ai_one 5 one_heap (new_node_cache 10 1) = Some (p, H', C')"
    "nc_ok (\<lambda>x. word_of_int x) 100 H' C'" "nc_find (\<lambda>x. word_of_int x) (5, int 0) C' \<noteq> None"
    using f l by (metis distinct_singleton)
  from x obtain p' H'' C'' where 2: "ApplyAfterImageDelta (\<lambda>x. word_of_int x) 100 [1] 5 one_heap (new_node_cache 10 1) = Some (p', H'', C'')"
    "nc_ok (\<lambda>x. word_of_int x) 100 H'' C''" "nc_find (\<lambda>x. word_of_int x) (5, int 0) C'' = Some ([1] ! 0)"
    using f by (metis distinct_singleton length_Cons zero_less_Suc)
  show ?thesis using 1 2 by (intro exI conjI) simp_all
qed

fun vaccum_turns ::
  "(int \<Rightarrow> u64) \<Rightarrow> nat \<Rightarrow> (string, string) heap \<Rightarrow> nat \<Rightarrow> node_cache \<Rightarrow> node_cache option" where
  "vaccum_turns hs sz H 0 C = Some C"
| "vaccum_turns hs sz H (Suc n) C = do { C \<leftarrow> do_vaccum hs sz H C; vaccum_turns hs sz H n C }"

text \<open>Published traces are never applied. Once a trace has been published, every number of turns of the eviction
  thread completes and leaves the list of traces as it is, so that the thread never waits again; and the list
  of every shard is an initial part of the one before: nodes are dropped from its end, and no key of a trace
  has moved to the front.\<close>

theorem published_traces_never_applied:
  assumes "nc_ok hs sz H C" and "traces C \<noteq> []"
  shows "\<exists>C'. vaccum_turns hs sz H n C = Some C' \<and> nc_ok hs sz H C' \<and> traces C' = traces C \<and> vaccum_wakes C' \<and>
    (\<forall>s < num_slots. \<exists>j. sh_lru (shards C' ! s) = take j (sh_lru (shards C ! s)))"
  using assms
proof (induction n arbitrary: C)
  case 0
  have "\<exists>j. xs = take j xs" for xs :: "nkey list" by (rule exI [of _ "length xs"]) simp
  then show ?case using 0 by (simp add: vaccum_wakes_def)
next
  case (Suc n)
  obtain C1 where C1: "do_vaccum hs sz H C = Some C1" "nc_ok hs sz H C1" "traces C1 = traces C"
    "\<forall>s < num_slots. \<exists>j. sh_lru (shards C1 ! s) = take j (sh_lru (shards C ! s))"
    using do_vaccum_ok [OF Suc.prems(1)] by blast
  obtain C2 where C2: "vaccum_turns hs sz H n C1 = Some C2" "nc_ok hs sz H C2" "traces C2 = traces C1" "vaccum_wakes C2"
    "\<forall>s < num_slots. \<exists>j. sh_lru (shards C2 ! s) = take j (sh_lru (shards C1 ! s))"
    using Suc.IH [OF C1(2)] C1(3) Suc.prems(2) by auto
  have "\<exists>j. sh_lru (shards C2 ! s) = take j (sh_lru (shards C ! s))" if s: "s < num_slots" for s
  proof -
    obtain i j where "sh_lru (shards C1 ! s) = take i (sh_lru (shards C ! s))"
      "sh_lru (shards C2 ! s) = take j (sh_lru (shards C1 ! s))"
      using C1(4) C2(5) s by blast
    then show ?thesis by (metis take_take)
  qed
  then show ?case using C1(1,3) C2 by simp
qed

end
