(* ===== verification/DBImpl.thy ===== *)
theory DBImpl
  imports EntryServiceProps TxnFinder
begin

text \<open>
  The database (\<^verbatim>\<open>src/db/db_impl.h\<close>, \<^verbatim>\<open>db_impl.cc\<close> and \<^verbatim>\<open>db.cc\<close>): snapshots and lookups, the life of a
  transaction from its start to the decision, the transaction processor that replays intentions in log
  order, the writer of after images, the garbage collector's scan, and the search for a restore point.

  \<^verbatim>\<open>db_heap\<close> is the heap that the current root lives in. A transaction works on its own copy of the heap it
  started from; the nodes it adds there become part of the database when its tree becomes the root.
  Adopting the whole heap of that tree is right because the tree starts from the current root: a cached
  transaction tree is used only if nothing was committed since its snapshot.

  The threads of the database are represented by the steps they take under the lock: one intention of the
  transaction processor, one batch of the after image writer, one pass of the janitor. The log and the
  codec are parameters as in \<open>EntryService\<close>; the index from intentions to after images (\<^verbatim>\<open>i2a\<close>), which the
  node cache keeps, is an argument.
\<close>

section \<open>State\<close>

record db =
  db_heap :: "(string, string) heap"
  db_root :: node_ptr
  root_snapshot :: u64
  last_intention_processed :: u64
  in_flight_txn_rid :: int
  transactions_started :: u64
  committed_intentions :: "u64 list"
  finished_txns :: finished
  lcs_trees :: "(string, string) ptree list"
  txn_finder :: finder
  waiting_on_log_entry :: "(u64 \<times> nat) list"
  woken :: "nat list"
  service :: entry_service

section \<open>Decimal keys\<close>

text \<open>\<^verbatim>\<open>std::setw(20) << std::setfill('0') << pos\<close>, and \<^verbatim>\<open>boost::lexical_cast<uint64_t>\<close> on such a key.\<close>

definition digit_char :: "nat \<Rightarrow> char" where
  "digit_char d = char_of (48 + d)"

fun decimal :: "nat \<Rightarrow> string" where
  "decimal n = (if n < 10 then [digit_char n] else decimal (n div 10) @ [digit_char (n mod 10)])"

declare decimal.simps [simp del]

definition setw20 :: "u64 \<Rightarrow> string" where
  "setw20 pos = (let s = decimal (unat pos) in replicate (20 - length s) (CHR ''0'') @ s)"

fun parse_digits :: "string \<Rightarrow> nat \<Rightarrow> nat option" where
  "parse_digits [] n = Some n"
| "parse_digits (ch # cs) n =
     (if 48 \<le> (of_char ch :: nat) \<and> (of_char ch :: nat) \<le> 57
      then parse_digits cs (10 * n + (of_char ch - 48)) else None)"

definition lexical_cast :: "string \<Rightarrow> u64 option" where
  "lexical_cast s =
     (if s = [] then None
      else do { n \<leftarrow> parse_digits s 0; if n < 2 ^ 64 then Some (of_nat n) else None })"

section \<open>Snapshots and lookups\<close>

definition GetSnapshot :: "db \<Rightarrow> node_ptr" where
  "GetSnapshot D = db_root D"

definition db_Get :: "string \<Rightarrow> db \<Rightarrow> (errno + string) option" where
  "db_Get key D = do {
     let pkey = prefix_string PREFIX_USER key;
     cur \<leftarrow> np_ref (GetSnapshot D);
     Get_loop pkey cur (db_heap D) }"

text \<open>\<^verbatim>\<open>Validate\<close>: the black height, or 0 for a tree that is not valid.\<close>

partial_function (option) Validate :: "nat \<Rightarrow> ('k::linorder, 'v, 'b) heap_scheme \<Rightarrow> nat option" where
  "Validate n H =
     (if n = Nil_id then Some 1
      else do {
        nd \<leftarrow> nodes H n;
        ln \<leftarrow> np_ref (nd_left nd);
        rn \<leftarrow> np_ref (nd_right nd);
        lnd \<leftarrow> nodes H ln;
        rnd \<leftarrow> nodes H rn;
        if nd_red nd \<and> (nd_red lnd \<or> nd_red rnd) then Some 0
        else do {
          lh \<leftarrow> Validate ln H;
          rh \<leftarrow> Validate rn H;
          if (ln \<noteq> Nil_id \<and> nd_key nd \<le> nd_key lnd) \<or> (rn \<noteq> Nil_id \<and> nd_key rnd \<le> nd_key nd) then Some 0
          else if lh \<noteq> 0 \<and> rh \<noteq> 0 \<and> lh \<noteq> rh then Some 0
          else if lh \<noteq> 0 \<and> rh \<noteq> 0 then Some (if nd_red nd then lh else lh + 1)
          else Some 0 } })"

section \<open>Transactions\<close>

definition BeginTransaction :: "u64 \<Rightarrow> db \<Rightarrow> (txn \<times> db) option" where
  "BeginTransaction tok D = do {
     x \<leftarrow> new_txn (db_heap D) (db_root D) (root_snapshot D) (in_flight_txn_rid D) tok;
     Some (x, D\<lparr>transactions_started := transactions_started D + 1,
                in_flight_txn_rid := in_flight_txn_rid D - 1\<rparr>) }"

text \<open>\<^verbatim>\<open>CompleteTransaction\<close> up to the point where it waits; \<open>w\<close> names the waiter on the stack of the thread. The
  decision is then obtained by \<^const>\<open>wait_check\<close>.\<close>

definition CompleteTransaction ::
  "'l zlog \<Rightarrow> codec \<Rightarrow> nat \<Rightarrow> txn \<Rightarrow> db \<Rightarrow> 'l \<Rightarrow> (u64 \<times> txn \<times> db \<times> 'l) option" where
  "CompleteTransaction z c w x D l = do {
     F \<leftarrow> AddTokenWaiter w (token x) (txn_finder D);
     let (i, x) = GetIntention x;
     i \<leftarrow> i;
     (pos, S, l) \<leftarrow> Append_intention z c i (service D) l;
     let (T, x) = txn_Tree x;
     T \<leftarrow> T;
     T \<leftarrow> SetIntention pos T;
     fs \<leftarrow> fin_Insert pos T (finished_txns D);
     F \<leftarrow> wait_begin w pos F;
     Some (pos, x, D\<lparr>txn_finder := F, service := S, finished_txns := fs\<rparr>, l) }"

text \<open>\<^verbatim>\<open>WaitOnIntention\<close>: true when it returns at once. Otherwise the thread \<open>w\<close> is registered, unless there is an
  entry for the position already: \<^verbatim>\<open>emplace\<close> then does nothing.\<close>

definition WaitOnIntention :: "nat \<Rightarrow> u64 \<Rightarrow> db \<Rightarrow> bool \<times> db" where
  "WaitOnIntention w pos D =
     (if pos \<le> last_intention_processed D then (True, D)
      else if map_of (waiting_on_log_entry D) pos \<noteq> None then (False, D)
      else (False, D\<lparr>waiting_on_log_entry := put_list pos w (waiting_on_log_entry D)\<rparr>))"

definition NotifyIntention :: "u64 \<Rightarrow> db \<Rightarrow> db" where
  "NotifyIntention pos D =
     D\<lparr>woken := woken D @ map snd (filter (\<lambda>p. fst p \<le> pos) (waiting_on_log_entry D)),
       waiting_on_log_entry := filter (\<lambda>p. \<not> fst p \<le> pos) (waiting_on_log_entry D)\<rparr>"

definition NotifyTransaction :: "u64 \<Rightarrow> u64 \<Rightarrow> bool \<Rightarrow> db \<Rightarrow> db option" where
  "NotifyTransaction tok pos ok D = do {
     let D = NotifyIntention pos D;
     F \<leftarrow> Notify tok pos ok (txn_finder D);
     Some (D\<lparr>txn_finder := F\<rparr>) }"

section \<open>Conflicts\<close>

text \<open>The loop over the committed-intention keys: it stops at the first position that the index knows.\<close>

partial_function (option) scan_committed ::
  "u64 \<Rightarrow> nat \<Rightarrow> (string, string) heap \<Rightarrow> iter \<Rightarrow> u64 list \<Rightarrow> u64 list option" where
  "scan_committed first rt H it acc = do {
     v \<leftarrow> prefix_Valid PREFIX_COMMITTED_INTENTION H it;
     if \<not> v then Some acc
     else do {
       key \<leftarrow> filtered_key PREFIX_COMMITTED_INTENTION H it;
       pos \<leftarrow> lexical_cast key;
       if pos = first then Some acc
       else do { it \<leftarrow> Next rt H it; scan_committed first rt H it (acc @ [pos]) } } }"

text \<open>The positions of the conflict zone: from the index, completed from the database when the index does not
  reach back to the snapshot.\<close>

definition conflict_zone :: "u64 \<Rightarrow> db \<Rightarrow> u64 list option" where
  "conflict_zone snapshot D = do {
     (ps, complete) \<leftarrow> index_range snapshot (root_snapshot D) (committed_intentions D);
     if complete then Some ps
     else do {
       rt \<leftarrow> np_ref (db_root D);
       it \<leftarrow> prefix_Seek PREFIX_COMMITTED_INTENTION (setw20 snapshot) rt (db_heap D) new_iter;
       v \<leftarrow> prefix_Valid PREFIX_COMMITTED_INTENTION (db_heap D) it;
       key \<leftarrow> filtered_key PREFIX_COMMITTED_INTENTION (db_heap D) it;
       if \<not> v \<or> lexical_cast key \<noteq> Some snapshot then None
       else do {
         it \<leftarrow> Next rt (db_heap D) it;
         v \<leftarrow> prefix_Valid PREFIX_COMMITTED_INTENTION (db_heap D) it;
         first \<leftarrow> front ps;
         if \<not> v then None else scan_committed first rt (db_heap D) it ps } } }"

definition conflicts :: "intention \<Rightarrow> intention list \<Rightarrow> bool" where
  "conflicts i others \<longleftrightarrow> (\<exists>j \<in> set others. \<exists>k \<in> OpKeys i. k \<in> UpdateOpKeys j)"

definition ProcessConcurrentIntention ::
  "'l zlog \<Rightarrow> codec \<Rightarrow> intention \<Rightarrow> db \<Rightarrow> 'l \<Rightarrow> (bool \<times> db \<times> 'l) option" where
  "ProcessConcurrentIntention z c i D l = do {
     ps \<leftarrow> conflict_zone (Snapshot i) D;
     (others, S, l) \<leftarrow> ReadIntentions z c ps (service D) l;
     Some (conflicts i others, D\<lparr>service := S\<rparr>, l) }"

section \<open>The transaction processor\<close>

fun replay_ops :: "tx_op list \<Rightarrow> (string, string) ptree \<Rightarrow> (string, string) ptree option" where
  "replay_ops [] T = Some T"
| "replay_ops (p # ps) T = do {
     T \<leftarrow> (case op_type p of
        GET \<Rightarrow> if op_val p \<noteq> None then None else Some T
      | PUT \<Rightarrow> do { v \<leftarrow> op_val p; Put (op_key p) v T }
      | DELETE \<Rightarrow> if op_val p \<noteq> None then None else Delete (prefix_string PREFIX_USER (op_key p)) T
      | COPY \<Rightarrow> if op_val p \<noteq> None then None else Copy (op_key p) T);
     replay_ops ps T }"

definition ReplayIntention :: "intention \<Rightarrow> (string, string) ptree \<Rightarrow> (string, string) ptree option" where
  "ReplayIntention i T = do { ops \<leftarrow> int_ops i; replay_ops ops T }"

text \<open>The tree of a committed intention: the one its own transaction left behind, or one made by replaying the
  intention on the current root. The flag tells \<^verbatim>\<open>infect_self_pointers\<close> which rid to expect.\<close>

definition next_tree ::
  "bool \<Rightarrow> u64 \<Rightarrow> intention \<Rightarrow> db \<Rightarrow> (bool \<times> (string, string) ptree \<times> db) option" where
  "next_tree serial pos i D = do {
     let (tmp, fs) = (if serial then fin_Find pos (finished_txns D) else (None, finished_txns D));
     let D = D\<lparr>finished_txns := fs\<rparr>;
     case tmp of
       Some T \<Rightarrow> Some (False, T, D)
     | None \<Rightarrow> do {
         T \<leftarrow> ReplayIntention i (new_ptree (db_heap D) (db_root D) (sint pos) (Some pos));
         Some (True, T, D) } }"

definition commit_intention :: "bool \<Rightarrow> u64 \<Rightarrow> intention \<Rightarrow> db \<Rightarrow> db option" where
  "commit_intention serial pos i D = do {
     index \<leftarrow> index_push pos (committed_intentions D);
     (expect, T, D) \<leftarrow> next_tree serial pos i (D\<lparr>committed_intentions := index\<rparr>);
     T \<leftarrow> Put (prefix_string PREFIX_COMMITTED_INTENTION (setw20 pos)) [] T;
     (root_offset, T) \<leftarrow> infect_self_pointers pos expect T;
     off \<leftarrow> root_offset;
     n \<leftarrow> root T;
     if n = Nil_id \<or> \<not> last_intention_processed D < pos then None
     else
       NotifyTransaction (Token i) pos True
         (D\<lparr>db_heap := heap.truncate T,
            db_root := SetIntentionAddress pos (word_of_int off) \<lparr>np_ref = Some n, np_addr = None\<rparr>,
            root_snapshot := pos, last_intention_processed := pos,
            lcs_trees := lcs_trees D @ [T]\<rparr>) }"

definition abort_intention :: "u64 \<Rightarrow> intention \<Rightarrow> db \<Rightarrow> db option" where
  "abort_intention pos i D = do {
     D \<leftarrow> NotifyTransaction (Token i) pos False D;
     if \<not> last_intention_processed D < pos then None
     else Some (D\<lparr>last_intention_processed := pos\<rparr>) }"

text \<open>One turn of \<^verbatim>\<open>TransactionProcessorEntry\<close>, for the intention that the iterator returned.\<close>

definition process_intention ::
  "'l zlog \<Rightarrow> codec \<Rightarrow> intention \<Rightarrow> db \<Rightarrow> 'l \<Rightarrow> (bool \<times> db \<times> 'l) option" where
  "process_intention z c i D l = do {
     pos \<leftarrow> Position i;
     if \<not> root_snapshot D < pos then None
     else do {
       let serial = (root_snapshot D = Snapshot i \<or> Flush i);
       (abort, D, l) \<leftarrow> (if serial then Some (False, D, l) else ProcessConcurrentIntention z c i D l);
       if abort then do { D \<leftarrow> abort_intention pos i D; Some (False, D, l) }
       else do { D \<leftarrow> commit_intention serial pos i D; Some (True, D, l) } } }"

section \<open>After images, clean-up and garbage collection\<close>

text \<open>One batch of \<^verbatim>\<open>AfterImageWriterEntry\<close>.\<close>

fun write_trees ::
  "'l zlog \<Rightarrow> codec \<Rightarrow> (u64 \<Rightarrow> u64 option) \<Rightarrow> (string, string) ptree list \<Rightarrow> entry_service \<Rightarrow> 'l \<Rightarrow>
   (entry_service \<times> 'l) option" where
  "write_trees z c i2a [] S l = Some (S, l)"
| "write_trees z c i2a (T # Ts) S l = do {
     ipos \<leftarrow> intention T;
     (ai, delta) \<leftarrow> SerializeAfterImage i2a ipos T;
     if ai_intention ai \<noteq> ipos then None
     else do {
       m \<leftarrow> watch delta T (ai_matcher S);
       (pos, l) \<leftarrow> Append_after_image z c ai l;
       write_trees z c i2a Ts (S\<lparr>ai_matcher := m\<rparr>) l } }"

definition AfterImageWriter ::
  "'l zlog \<Rightarrow> codec \<Rightarrow> (u64 \<Rightarrow> u64 option) \<Rightarrow> db \<Rightarrow> 'l \<Rightarrow> (db \<times> 'l) option" where
  "AfterImageWriter z c i2a D l = do {
     (S, l) \<leftarrow> write_trees z c i2a (lcs_trees D) (service D) l;
     Some (D\<lparr>lcs_trees := [], service := S\<rparr>, l) }"

definition Janitor :: "db \<Rightarrow> db" where
  "Janitor D = D\<lparr>finished_txns := fin_Clean (last_intention_processed D) (finished_txns D)\<rparr>"

text \<open>The traversal of \<^verbatim>\<open>gc\<close> and \<^verbatim>\<open>reachable_node_stats\<close>, which collects the addresses of all nodes but the root. A
  \<^verbatim>\<open>std::map\<close> from addresses to keys is a list in the order of the addresses; a duplicate fails an assertion. \<^verbatim>\<open>gc\<close>
  keeps at most \<open>limit\<close> entries and drops the greatest address.\<close>

fun addr_emplace ::
  "node_address \<Rightarrow> 'k \<Rightarrow> (node_address \<times> 'k) list \<Rightarrow> (node_address \<times> 'k) list option" where
  "addr_emplace a k [] = Some [(a, k)]"
| "addr_emplace a k ((b, k') # ps) =
     (if address_less a b then Some ((a, k) # (b, k') # ps)
      else if address_less b a then map_option (\<lambda>ps. (b, k') # ps) (addr_emplace a k ps)
      else None)"

definition note_child ::
  "nat option \<Rightarrow> node_ptr \<Rightarrow> ('k, 'v, 'b) heap_scheme \<Rightarrow> (node_address \<times> 'k) list \<Rightarrow>
   (node_address \<times> 'k) list option" where
  "note_child limit p H addrs = do {
     n \<leftarrow> np_ref p;
     if n = Nil_id then Some addrs
     else do {
       nd \<leftarrow> nodes H n;
       a \<leftarrow> np_addr p;
       addrs \<leftarrow> addr_emplace a (nd_key nd) addrs;
       Some (case limit of
               None \<Rightarrow> addrs
             | Some m \<Rightarrow> if length addrs > m then butlast addrs else addrs) } }"

partial_function (option) scan_nodes ::
  "nat option \<Rightarrow> nat \<Rightarrow> nat list \<Rightarrow> ('k, 'v, 'b) heap_scheme \<Rightarrow> (node_address \<times> 'k) list \<Rightarrow>
   (node_address \<times> 'k) list option" where
  "scan_nodes limit n st H addrs =
     (if st = [] \<and> n = Nil_id then Some addrs
      else if n \<noteq> Nil_id then do {
        l \<leftarrow> child_ref DL n H;
        scan_nodes limit l (n # st) H addrs }
      else do {
        (n, st) \<leftarrow> pop_front st;
        nd \<leftarrow> nodes H n;
        addrs \<leftarrow> note_child limit (nd_left nd) H addrs;
        addrs \<leftarrow> note_child limit (nd_right nd) H addrs;
        r \<leftarrow> np_ref (nd_right nd);
        scan_nodes limit r st H addrs })"

fun copy_ops :: "string list \<Rightarrow> intention \<Rightarrow> intention option" where
  "copy_ops [] i = Some i"
| "copy_ops (k # ks) i = do { i \<leftarrow> int_Copy k i; copy_ops ks i }"

text \<open>\<^verbatim>\<open>gc\<close> up to the wait for its intention, whose position is returned.\<close>

definition db_gc :: "'l zlog \<Rightarrow> codec \<Rightarrow> db \<Rightarrow> 'l \<Rightarrow> (u64 \<times> db \<times> 'l) option" where
  "db_gc z c D l = do {
     rt \<leftarrow> np_ref (db_root D);
     addrs \<leftarrow> scan_nodes (Some 5) rt [] (db_heap D) [];
     flush \<leftarrow> copy_ops (map snd addrs) (new_intention 0 0);
     (pos, S, l) \<leftarrow> Append_intention z c flush (service D) l;
     Some (pos, D\<lparr>service := S\<rparr>, l) }"

section \<open>Opening\<close>

record restore_point =
  replay_start_pos :: u64
  after_image_pos :: u64
  rp_after_image :: "(string, string) after_image"

text \<open>The loop of \<^verbatim>\<open>FindRestorePoint\<close>, from the tail backwards. Positions past the beginning of the log are not
  reached when there is a restore point; running off the log is a failed assertion.\<close>

partial_function (option) find_loop ::
  "'l zlog \<Rightarrow> codec \<Rightarrow> u64 \<Rightarrow> (u64 \<Rightarrow> (u64 \<times> (string, string) after_image) option) \<Rightarrow> u64 option \<Rightarrow>
   entry_service \<Rightarrow> 'l \<Rightarrow> (restore_point \<times> u64 \<times> entry_service \<times> 'l) option" where
  "find_loop z c it ais latest S l = do {
     (entry, it, S, l) \<leftarrow> NextEntry advance_reverse z c True it S l;
     (pos, e) \<leftarrow> entry;
     case e of
       CIntention i \<Rightarrow> do {
         let latest = (case latest of None \<Rightarrow> pos | Some x \<Rightarrow> x);
         case ais pos of
           Some (aipos, ai) \<Rightarrow>
             (if ai_intention ai \<noteq> pos then None
              else Some (\<lparr>replay_start_pos = pos + 1, after_image_pos = aipos, rp_after_image = ai\<rparr>, latest, S, l))
         | None \<Rightarrow> find_loop z c it ais (Some latest) S l }
     | CAfterImage ai \<Rightarrow>
         (if \<not> pos > 0 then None
          else find_loop z c it (ais(ai_intention ai \<mapsto> (pos, ai))) latest S l)
     | CFilled \<Rightarrow> find_loop z c it ais latest S l }"

definition FindRestorePoint ::
  "'l zlog \<Rightarrow> codec \<Rightarrow> entry_service \<Rightarrow> 'l \<Rightarrow> (errno + (restore_point \<times> u64 \<times> entry_service \<times> 'l)) option" where
  "FindRestorePoint z c S l = do {
     (tail, S, l) \<leftarrow> CheckTail z True S l;
     if tail = 0 then Some (Inl EINVAL)
     else map_option Inr (find_loop z c tail (\<lambda>_. None) None S l) }"

text \<open>The part of \<^verbatim>\<open>DB::Open\<close> that initializes an empty log: a filled position, the first intention and its after
  image. The heap holds only nil; the transaction has no database behind it, so the index of after images
  is empty.\<close>

definition nil_heap :: "(string, string) heap" where
  "nil_heap =
     \<lparr>nodes = [Nil_id \<mapsto> \<lparr>nd_left = \<lparr>np_ref = None, np_addr = None\<rparr>, nd_right = \<lparr>np_ref = None, np_addr = None\<rparr>,
        nd_key = [], nd_val = [], nd_red = False, nd_rid = int64_min, nd_read_only = True\<rparr>],
      next_node = 1\<rparr>"

definition Open_create :: "'l zlog \<Rightarrow> codec \<Rightarrow> entry_service \<Rightarrow> 'l \<Rightarrow> (entry_service \<times> 'l) option" where
  "Open_create z c S l = do {
     l \<leftarrow> Fill z 0 l;
     x \<leftarrow> new_txn nil_heap \<lparr>np_ref = Some Nil_id, np_addr = None\<rparr> 0 (-1) 0;
     x \<leftarrow> txn_Put_prefix PREFIX_COMMITTED_INTENTION (setw20 1) [] x;
     let (i, x) = GetIntention x;
     i \<leftarrow> i;
     (pos, S, l) \<leftarrow> Append_intention z c i S l;
     if pos \<noteq> 1 then None
     else do {
       let (T, x) = txn_Tree x;
       T \<leftarrow> T;
       (ai, delta) \<leftarrow> SerializeAfterImage (\<lambda>_. None) 1 T;
       (pos, l) \<leftarrow> Append_after_image z c ai l;
       if ai_intention ai \<noteq> 1 \<or> pos \<noteq> 2 then None else Some (S, l) } }"

end
