(* ===== verification/DBOpen.thy ===== *)
theory DBOpen
  imports DBImpl NodeCacheProps
begin

text \<open>
  The parts of the database that work on the node cache: the after image finalizer, the statistics of
  reachable nodes, the constructor of \<^verbatim>\<open>DBImpl\<close>, clearing the caches and \<^verbatim>\<open>DB::Open\<close> (\<^verbatim>\<open>src/db/db_impl.cc\<close>,
  \<^verbatim>\<open>db.cc\<close>); and the theorem on the search for a restore point.
\<close>

section \<open>After image finalizer\<close>

text \<open>What one turn of \<^verbatim>\<open>AfterImageFinalizerEntry\<close> does with a matched tree; the nodes of the delta are in the heap
  of the tree.\<close>

definition finalize ::
  "(int \<Rightarrow> u64) \<Rightarrow> nat \<Rightarrow> nat list \<Rightarrow> (string, string) ptree \<Rightarrow> node_cache \<Rightarrow>
   ((string, string) heap \<times> node_cache) option" where
  "finalize hs sz delta T C = do {
     ipos \<leftarrow> intention T;
     ai_pos \<leftarrow> afterimage T;
     if \<not> ipos < ai_pos then None
     else do {
       T \<leftarrow> SetDeltaPosition delta ai_pos T;
       C \<leftarrow> SetIntentionMapping ipos ai_pos C;
       (p, H, C) \<leftarrow> ApplyAfterImageDelta hs sz delta ai_pos (heap.truncate T) C;
       Some (H, C) } }"

text \<open>One turn of the thread: it ends when the matcher has been shut down.\<close>

definition AfterImageFinalizer ::
  "(int \<Rightarrow> u64) \<Rightarrow> nat \<Rightarrow> (string, string) matcher \<Rightarrow> node_cache \<Rightarrow>
   ((string, string) heap option \<times> (string, string) matcher \<times> node_cache) option" where
  "AfterImageFinalizer hs sz M C = do {
     (r, M) \<leftarrow> match M;
     case r of
       None \<Rightarrow> Some (None, M, C)
     | Some (delta, T) \<Rightarrow> do {
         (H, C) \<leftarrow> finalize hs sz delta T C;
         Some (Some H, M, C) } }"

section \<open>Statistics of reachable nodes\<close>

text \<open>The loop over the addresses: for every after image the number of its nodes and of the reachable ones. The
  \<^verbatim>\<open>std::map\<close> is a list in the order of its keys.\<close>

fun usage_loop ::
  "'l zlog \<Rightarrow> codec \<Rightarrow> (node_address \<times> string) list \<Rightarrow> (u64 \<times> nat \<times> nat) list \<Rightarrow> node_cache \<Rightarrow>
   entry_service \<Rightarrow> 'l \<Rightarrow> ((u64 \<times> nat \<times> nat) list \<times> node_cache \<times> entry_service \<times> 'l) option" where
  "usage_loop z c [] usage C S l = Some (usage, C, S, l)"
| "usage_loop z c ((a, k) # as) usage C S l = do {
     (p, C, S, l) \<leftarrow> findAfterImagePosition z c a C S l;
     (usage, S, l) \<leftarrow>
       (if map_of usage p = None then do {
          (ai, S, l) \<leftarrow> ReadAfterImage z c p S l;
          Some (put_list p (length (ai_tree ai), 0) usage, S, l) }
        else Some (usage, S, l));
     (n, r) \<leftarrow> map_of usage p;
     usage_loop z c as (put_list p (n, Suc r) usage) C S l }"

definition reachable_node_stats ::
  "'l zlog \<Rightarrow> codec \<Rightarrow> db \<Rightarrow> node_cache \<Rightarrow> 'l \<Rightarrow> ((u64 \<times> nat \<times> nat) list \<times> node_cache \<times> db \<times> 'l) option" where
  "reachable_node_stats z c D C l = do {
     rt \<leftarrow> np_ref (db_root D);
     addrs \<leftarrow> scan_nodes None rt [] (db_heap D) [];
     (usage, C, S, l) \<leftarrow> usage_loop z c addrs [] C (service D) l;
     Some (usage, C, D\<lparr>service := S\<rparr>, l) }"

section \<open>Opening\<close>

text \<open>The constructor. The result has the position of the intention iterator, from which the transaction processor
  starts.\<close>

definition new_DBImpl ::
  "(int \<Rightarrow> u64) \<Rightarrow> nat \<Rightarrow> u64 \<Rightarrow> nat \<Rightarrow> restore_point \<Rightarrow> entry_service \<Rightarrow> (db \<times> node_cache \<times> u64) option" where
  "new_DBImpl hs sz node_cache_size imap_cache_size point S = do {
     let S = Start (replay_start_pos point) S;
     (root, H, C) \<leftarrow> CacheAfterImage hs sz (rp_after_image point) (after_image_pos point) nil_heap
       (new_node_cache node_cache_size imap_cache_size);
     let snapshot = ai_intention (rp_after_image point);
     Some (\<lparr>db_heap = H, db_root = root, root_snapshot = snapshot, last_intention_processed = snapshot,
            in_flight_txn_rid = -1, transactions_started = 0, committed_intentions = [], finished_txns = [],
            lcs_trees = [], txn_finder = new_finder, waiting_on_log_entry = [], woken = [], service = S\<rparr>,
           C, replay_start_pos point) }"

text \<open>\<^verbatim>\<open>DB::Open\<close>; \<open>w\<close> is the opening thread, which waits until the last intention has been processed. The flag tells
  whether it has to wait.\<close>

definition Open ::
  "(int \<Rightarrow> u64) \<Rightarrow> nat \<Rightarrow> u64 \<Rightarrow> nat \<Rightarrow> nat \<Rightarrow> nat \<Rightarrow> 'l zlog \<Rightarrow> codec \<Rightarrow> bool \<Rightarrow> 'l \<Rightarrow>
   (errno + (bool \<times> db \<times> node_cache \<times> u64 \<times> 'l)) option" where
  "Open hs sz node_cache_size imap_cache_size entry_cache_size w z c create_if_empty l = do {
     let S = new_entry_service entry_cache_size;
     (tail, S, l) \<leftarrow> CheckTail z False S l;
     if tail = 0 \<and> \<not> create_if_empty then Some (Inl EINVAL)
     else do {
       (S, l) \<leftarrow> (if tail = 0 then Open_create z c S l else Some (S, l));
       r \<leftarrow> FindRestorePoint z c S l;
       (case r of
          Inl _ \<Rightarrow> None
        | Inr (point, latest, S, l) \<Rightarrow> do {
            (D, C, it) \<leftarrow> new_DBImpl hs sz node_cache_size imap_cache_size point S;
            let (ready, D) = WaitOnIntention w latest D;
            Some (Inr (ready, D, C, it, l)) }) } }"

definition db_ClearCaches :: "nat \<Rightarrow> db \<Rightarrow> node_cache \<Rightarrow> (db \<times> node_cache) option" where
  "db_ClearCaches sz D C = do {
     let D = D\<lparr>finished_txns := fin_Clean (- 1) (finished_txns D)\<rparr>;
     C \<leftarrow> Clear sz (db_heap D) C;
     Some (D\<lparr>service := ClearCaches (service D)\<rparr>, C) }"

section \<open>Reading a position that is written or filled\<close>

text \<open>Reads of filled positions say so.\<close>

definition reports_filled :: "'l zlog \<Rightarrow> ('l \<Rightarrow> u64 \<Rightarrow> slot) \<Rightarrow> bool" where
  "reports_filled z slots \<longleftrightarrow> (\<forall>p l. slots l p = Filled \<longrightarrow> (\<exists>l'. z_read z p l = (Inl ENODATA, l')))"

lemma read_loop_ok:
  assumes "reliable z slots" and "reports_filled z slots" and "log_entry_at c slots l p = Some e"
  shows "\<exists>d l'. read_loop z p fill l = Some (d, l') \<and>
    (case d of None \<Rightarrow> e = CFilled | Some d \<Rightarrow> \<exists>en. dec c d = Some en \<and> e = as_entry p en)"
proof (cases "slots l p")
  case Unwritten
  then show ?thesis using assms(3) by (simp add: log_entry_at_def)
next
  case Filled
  then obtain l' where "z_read z p l = (Inl ENODATA, l')" using assms(2) unfolding reports_filled_def by blast
  then have "read_loop z p fill l = Some (None, l')" by (subst read_loop.simps) simp
  then show ?thesis using Filled assms(3) by (simp add: log_entry_at_def)
next
  case (Written d)
  then obtain l' where "z_read z p l = (Inr d, l')" using assms(1) unfolding reliable_def by blast
  then have "read_loop z p fill l = Some (Some d, l')" by (subst read_loop.simps) simp
  then show ?thesis using Written assms(3) by (auto simp: log_entry_at_def)
qed

lemma Read_ok:
  assumes "log_spec z slots" and "reliable z slots" and "reports_filled z slots" and "coherent c slots S l"
    and "log_entry_at c slots l p = Some e" and "p \<le> max_pos S" and "length (entry_cache S) < cache_size S"
  shows "\<exists>S' l'. Read z c p fill S l = Some (Some e, S', l') \<and> coherent c slots S' l' \<and> grows slots l l' \<and>
    length (entry_cache S') \<le> Suc (length (entry_cache S)) \<and> cache_size S' = cache_size S \<and> max_pos S' = max_pos S"
proof (cases "map_of (entry_cache S) p")
  case (Some e')
  then have "e' = e" using assms(4,5) by (auto simp: coherent_def)
  then show ?thesis using Some assms(4) by (simp add: Read_def Read_start_def)
next
  case None
  obtain d l' where r: "read_loop z p fill l = Some (d, l')"
    "case d of None \<Rightarrow> e = CFilled | Some d \<Rightarrow> \<exists>en. dec c d = Some en \<and> e = as_entry p en"
    using read_loop_ok [OF assms(2,3,5)] by blast
  have "skeys (entry_cache S)" using assms(4) by (simp add: coherent_def)
  note i = cache_insert_room [OF None assms(7) this, of e]
  let ?S = "S\<lparr>entry_cache := put_list p e (entry_cache S)\<rparr>"
  have "Read_fetch z c p fill S l = Some (e, ?S, l')"
    using r i by (cases d) (auto simp: Read_fetch_def)
  then have "Read z c p fill S l = Some (Some e, ?S, l')"
    using None assms(6) by (simp add: Read_def Read_start_def not_less)
  with Read_spec [OF this assms(1,4)] i show ?thesis by simp
qed


section \<open>The search for a restore point\<close>

text \<open>\<open>ent\<close> gives the entries of the log. An after image for the intention \<open>i\<close> at \<open>p\<close>, and an intention at \<open>p\<close>.\<close>

definition image_for :: "(u64 \<Rightarrow> cache_entry) \<Rightarrow> u64 \<Rightarrow> u64 \<Rightarrow> bool" where
  "image_for ent i p \<longleftrightarrow> (\<exists>ai. ent p = CAfterImage ai \<and> ai_intention ai = i)"

definition is_int :: "(u64 \<Rightarrow> cache_entry) \<Rightarrow> u64 \<Rightarrow> bool" where
  "is_int ent p \<longleftrightarrow> (\<exists>i. ent p = CIntention i)"

text \<open>\<open>first_image ent q t i r\<close>: \<open>r\<close> is the oldest after image for \<open>i\<close> in the positions after \<open>q\<close> up to \<open>t\<close>, if there is one.\<close>

definition first_image ::
  "(u64 \<Rightarrow> cache_entry) \<Rightarrow> u64 \<Rightarrow> u64 \<Rightarrow> u64 \<Rightarrow> (u64 \<times> (string, string) after_image) option \<Rightarrow> bool" where
  "first_image ent q t i r \<longleftrightarrow>
     (case r of
        None \<Rightarrow> \<forall>p. q < p \<and> p \<le> t \<longrightarrow> \<not> image_for ent i p
      | Some (p, ai) \<Rightarrow> q < p \<and> p \<le> t \<and> ent p = CAfterImage ai \<and> ai_intention ai = i \<and>
          (\<forall>p'. q < p' \<and> p' < p \<longrightarrow> \<not> image_for ent i p'))"

definition last_int :: "(u64 \<Rightarrow> cache_entry) \<Rightarrow> u64 \<Rightarrow> u64 \<Rightarrow> u64 option \<Rightarrow> bool" where
  "last_int ent q t r \<longleftrightarrow>
     (case r of
        None \<Rightarrow> \<forall>p. q < p \<and> p \<le> t \<longrightarrow> \<not> is_int ent p
      | Some x \<Rightarrow> q < x \<and> x \<le> t \<and> is_int ent x \<and> (\<forall>p. x < p \<and> p \<le> t \<longrightarrow> \<not> is_int ent p))"

lemma pred_less: "q \<noteq> (0 :: u64) \<Longrightarrow> q - 1 < p \<longleftrightarrow> q = p \<or> q < p"
proof -
  assume "q \<noteq> 0"
  then have "q - 1 < p \<longleftrightarrow> q \<le> p"
    using unat_gt_0 [of q] by (simp add: word_less_nat_alt word_le_nat_alt unat_minus_one) linarith
  then show ?thesis by (auto simp: order_le_less)
qed

lemma first_image_skip:
  assumes "first_image ent q t i r" and "q \<noteq> 0" and "\<not> image_for ent i q"
  shows "first_image ent (q - 1) t i r"
  using assms by (cases r) (auto simp: first_image_def pred_less)

lemma first_image_found:
  assumes "\<And>i. first_image ent q t i (ais i)" and "q \<noteq> 0" and "q \<le> t" and "ent q = CAfterImage ai"
  shows "first_image ent (q - 1) t i ((ais(ai_intention ai \<mapsto> (q, ai))) i)"
proof (cases "i = ai_intention ai")
  case True
  then show ?thesis using assms(2-4) by (auto simp: first_image_def pred_less dest: order_less_asym)
next
  case False
  then have "\<not> image_for ent i q" using assms(4) by (auto simp: image_for_def)
  from first_image_skip [OF assms(1,2) this] False show ?thesis by simp
qed

lemma last_int_skip:
  assumes "last_int ent q t r" and "q \<noteq> 0" and "\<not> is_int ent q"
  shows "last_int ent (q - 1) t r"
  using assms by (cases r) (auto simp: last_int_def pred_less)

lemma last_int_found:
  assumes "last_int ent q t r" and "q \<noteq> 0" and "q \<le> t" and "is_int ent q"
  shows "last_int ent (q - 1) t (Some (case r of None \<Rightarrow> q | Some x \<Rightarrow> x))"
  using assms by (cases r) (auto simp: last_int_def pred_less)

lemma find_loop_ok:
  assumes "log_spec z slots" and "reliable z slots" and "reports_filled z slots"
    and "ip \<le> t" and "ent ip = CIntention m" and "ip < ap" and "ap \<le> t" and "image_for ent ip ap"
    and "\<forall>p p'. ip < p \<and> is_int ent p \<and> p < p' \<and> p' \<le> t \<longrightarrow> \<not> image_for ent p p'"
    and "coherent c slots S l" and "\<forall>p \<le> t. log_entry_at c slots l p = Some (ent p)"
    and "ip \<le> q" and "q \<le> t" and "t \<le> max_pos S"
    and "length (entry_cache S) + Suc (unat q - unat ip) \<le> cache_size S"
    and "\<And>i. first_image ent q t i (ais i)" and "last_int ent q t latest"
  shows "\<exists>p ai x S' l'. find_loop z c q ais latest S l =
      Some (\<lparr>replay_start_pos = ip + 1, after_image_pos = p, rp_after_image = ai\<rparr>, x, S', l') \<and>
    first_image ent ip t ip (Some (p, ai)) \<and> last_int ent q t latest \<and>
    ip \<le> x \<and> x \<le> t \<and> is_int ent x \<and> (\<forall>p. x < p \<and> p \<le> t \<longrightarrow> \<not> is_int ent p) \<and>
    coherent c slots S' l' \<and> grows slots l l'"
  using assms(10-17)
proof (induction "unat q - unat ip" arbitrary: q ais latest S l)
  case 0
  then have q: "q = ip" by (simp add: word_le_nat_alt word_unat_eq_iff)
  obtain S' l' where r: "Read z c q True S l = Some (Some (ent q), S', l')" "coherent c slots S' l'" "grows slots l l'"
    using Read_ok [OF assms(1-3) 0(2), of q "ent q" True] 0(3,5,6,7) by force
  obtain p ai where a: "ais ip = Some (p, ai)"
    using 0(8) [of ip] assms(6-8) q by (cases "ais ip") (auto simp: first_image_def)
  have f: "first_image ent ip t ip (Some (p, ai))" using 0(8) [of ip] a q by simp
  let ?x = "case latest of None \<Rightarrow> q | Some x \<Rightarrow> x"
  have "find_loop z c q ais latest S l =
      Some (\<lparr>replay_start_pos = ip + 1, after_image_pos = p, rp_after_image = ai\<rparr>, ?x, S', l')"
    using r(1) a f q assms(5)
    by (subst find_loop.simps) (auto simp: NextEntry_def advance_reverse_def first_image_def Let_def)
  moreover have "ip \<le> ?x \<and> ?x \<le> t \<and> is_int ent ?x \<and> (\<forall>p. ?x < p \<and> p \<le> t \<longrightarrow> \<not> is_int ent p)"
    using 0(9) q assms(4,5) by (cases latest) (auto simp: last_int_def is_int_def)
  ultimately show ?case using f 0(9) r(2,3) by blast
next
  case (Suc n)
  have q: "ip < q" "q \<noteq> 0" using Suc.hyps(2) by (auto simp: word_less_nat_alt)
  obtain S1 l1 where r: "Read z c q True S l = Some (Some (ent q), S1, l1)" "coherent c slots S1 l1" "grows slots l l1"
    "length (entry_cache S1) \<le> Suc (length (entry_cache S))" "cache_size S1 = cache_size S" "max_pos S1 = max_pos S"
    using Read_ok [OF assms(1-3) Suc.prems(1), of q "ent q" True] Suc.prems(2,4,5,6) by force
  have u: "unat (q - 1) = unat q - 1" using q(2) by (simp add: unat_minus_one)
  have n: "n = unat (q - 1) - unat ip" using Suc.hyps(2) u by linarith
  have le: "ip \<le> q - 1" "q - 1 \<le> t" using q(1) Suc.prems(4) u by (simp_all add: word_le_nat_alt word_less_nat_alt)
  have room: "length (entry_cache S1) + Suc (unat (q - 1) - unat ip) \<le> cache_size S1"
    using Suc.prems(6) Suc.hyps(2) r(4,5) n by linarith
  have log: "\<forall>p \<le> t. log_entry_at c slots l1 p = Some (ent p)" using Suc.prems(2) grows_entry [OF r(3)] by blast
  have mx: "t \<le> max_pos S1" using Suc.prems(5) r(6) by simp
  define ais' where "ais' = (case ent q of CAfterImage ai \<Rightarrow> ais(ai_intention ai \<mapsto> (q, ai)) | _ \<Rightarrow> ais)"
  define latest' where "latest' = (case ent q of CIntention _ \<Rightarrow> Some (case latest of None \<Rightarrow> q | Some x \<Rightarrow> x) | _ \<Rightarrow> latest)"
  have none: "ais q = None" if "is_int ent q"
  proof (rule ccontr)
    assume "ais q \<noteq> None"
    then obtain p ai where "ais q = Some (p, ai)" by auto
    with Suc.prems(7) [of q] have "q < p" "p \<le> t" "image_for ent q p" by (auto simp: first_image_def image_for_def)
    then show False using assms(9) q(1) that by blast
  qed
  have step: "find_loop z c q ais latest S l = find_loop z c (q - 1) ais' latest' S1 l1"
    using r(1) none q
    by (subst find_loop.simps)
      (auto simp: NextEntry_def advance_reverse_def ais'_def latest'_def is_int_def word_gt_0 split: cache_entry.splits)
  have f: "first_image ent (q - 1) t i (ais' i)" for i
  proof (cases "ent q")
    case (CAfterImage ai)
    then show ?thesis using first_image_found [OF Suc.prems(7) q(2) Suc.prems(4)] by (simp add: ais'_def)
  qed (use first_image_skip [OF Suc.prems(7) q(2)] in \<open>simp_all add: ais'_def image_for_def\<close>)
  have g: "last_int ent (q - 1) t latest'"
  proof (cases "ent q")
    case (CIntention i)
    then show ?thesis
      using last_int_found [OF Suc.prems(8) q(2) Suc.prems(4)] by (simp add: latest'_def is_int_def)
  qed (use last_int_skip [OF Suc.prems(8) q(2)] in \<open>simp_all add: latest'_def is_int_def\<close>)
  from Suc.hyps(1) [OF n r(2) log le mx room f g] grows_trans [OF r(3)] show ?case
    unfolding step using Suc.prems(8) by blast
qed


lemma FindRestorePoint_ok:
  assumes "log_spec z slots" and "reliable z slots" and "reports_filled z slots"
    and "z_tail z l = (Inr t, l0)" and "z_read z t l0 = (Inl ENOENT, l1)" and "z_fill z t l1 = (None, l2)"
    and "\<forall>p < t. log_entry_at c slots l p = Some (ent p)" and "ent t = CFilled"
    and "ent ip = CIntention m" and "ip < ap" and "ap < t" and "image_for ent ip ap"
    and "\<forall>p p'. ip < p \<and> is_int ent p \<and> p < p' \<and> p' < t \<longrightarrow> \<not> image_for ent p p'"
    and "coherent c slots S l" and "map_of (entry_cache S) t = None"
    and "length (entry_cache S) + (unat t - unat ip + 1) < cache_size S"
  shows "\<exists>p ai x S' l'. FindRestorePoint z c S l =
      Some (Inr (\<lparr>replay_start_pos = ip + 1, after_image_pos = p, rp_after_image = ai\<rparr>, x, S', l')) \<and>
    first_image ent ip t ip (Some (p, ai)) \<and>
    ip \<le> x \<and> x < t \<and> is_int ent x \<and> (\<forall>p. x < p \<and> p < t \<longrightarrow> \<not> is_int ent p) \<and>
    coherent c slots S' l' \<and> grows slots l l'"
proof -
  let ?S = "raise_max_pos t S"
  let ?S1 = "?S\<lparr>entry_cache := put_list t CFilled (entry_cache S)\<rparr>"
  have sk: "skeys (entry_cache ?S)" using assms(14) by (simp add: coherent_def raise_max_pos_def)
  have t0: "t \<noteq> 0" using assms(11) by auto
  have g: "grows slots l l0" "grows slots l0 l1" "grows slots l1 l2" "slots l2 t = Filled"
    using assms(1,4-6) unfolding log_spec_def by blast+
  then obtain l3 where l3: "z_read z t l2 = (Inl ENODATA, l3)" using assms(3) unfolding reports_filled_def by blast
  then have g3: "grows slots l2 l3" using log_spec_read(1) [OF assms(1)] by blast
  have gl: "grows slots l l3" using g(1-3) g3 by (meson grows_trans)
  have "read_loop z t True l2 = Some (None, l3)" using l3 by (subst read_loop.simps) simp
  then have "read_loop z t True l0 = Some (None, l3)" using assms(5,6) by (subst read_loop.simps) simp
  moreover have ins: "cache_insert t CFilled ?S = Some (CFilled, ?S1)"
    "length (put_list t CFilled (entry_cache S)) = Suc (length (entry_cache S))"
    using cache_insert_room [OF _ _ sk, of t CFilled] assms(15,16) by (simp_all add: raise_max_pos_def)
  ultimately have rd: "Read z c t True ?S l0 = Some (Some CFilled, ?S1, l3)"
    using assms(15) by (simp add: Read_def Read_start_def Read_fetch_def raise_max_pos_def)
  have s3: "slots l3 t = Filled" using g(4) g3 by (simp add: grows_def)
  have log: "\<forall>p \<le> t. log_entry_at c slots l3 p = Some (ent p)"
    using assms(7,8) grows_entry [OF gl] s3 by (auto simp: order_le_less log_entry_at_def)
  have "coherent c slots S l3" by (rule coherent_grows [OF assms(14) gl])
  then have co: "coherent c slots ?S1 l3" 
    using s3 by (auto simp: coherent_def log_entry_at_def raise_max_pos_def skeys_put_list map_of_put_list split: if_splits)
  have no: "\<not> is_int ent t" "\<not> image_for ent i t" for i using assms(8) by (simp_all add: is_int_def image_for_def)
  have ints: "\<forall>p p'. ip < p \<and> is_int ent p \<and> p < p' \<and> p' \<le> t \<longrightarrow> \<not> image_for ent p p'"
    using assms(13) no(2) by (auto simp: order_le_less)
  have u: "unat (t - 1) = unat t - 1" using t0 by (simp add: unat_minus_one)
  have le: "ip \<le> t - 1" "t - 1 \<le> t"
    using order_less_trans [OF assms(10,11)] u by (simp_all add: word_le_nat_alt word_less_nat_alt)
  have room: "length (entry_cache ?S1) + Suc (unat (t - 1) - unat ip) \<le> cache_size ?S1"
    using assms(16) u ins(2) by (simp add: raise_max_pos_def)
  have mx: "t \<le> max_pos ?S1" by (simp add: raise_max_pos_def)
  have f: "first_image ent (t - 1) t i (Map.empty i)" for i
    using no(2) t0 by (auto simp: first_image_def pred_less)
  have la: "last_int ent (t - 1) t None" using no(1) t0 by (auto simp: last_int_def pred_less)
  have tt: "ip \<le> t" "ap \<le> t" using assms(10,11) by auto
  obtain p ai x S' l' where r: "find_loop z c (t - 1) Map.empty None ?S1 l3 =
      Some (\<lparr>replay_start_pos = ip + 1, after_image_pos = p, rp_after_image = ai\<rparr>, x, S', l')"
    "first_image ent ip t ip (Some (p, ai))" "ip \<le> x" "x \<le> t" "is_int ent x"
    "\<forall>p. x < p \<and> p \<le> t \<longrightarrow> \<not> is_int ent p" "coherent c slots S' l'" "grows slots l3 l'"
    using find_loop_ok [OF assms(1-3) tt(1) assms(9,10) tt(2) assms(12) ints co log le mx room f la] by blast
  have "find_loop z c t Map.empty None ?S l0 = find_loop z c (t - 1) Map.empty None ?S1 l3"
    using rd by (subst find_loop.simps) (simp add: NextEntry_def advance_reverse_def)
  then have "FindRestorePoint z c S l =
      Some (Inr (\<lparr>replay_start_pos = ip + 1, after_image_pos = p, rp_after_image = ai\<rparr>, x, S', l'))"
    using r(1) assms(4) t0 by (simp add: FindRestorePoint_def CheckTail_def)
  moreover have "x < t" using r(4,5) no(1) by (auto simp: order_le_less)
  ultimately show ?thesis using r gl grows_trans by (meson order_less_imp_le)
qed

section \<open>Properties\<close>

text \<open>C16: opening finds the restore point. Let \<open>ip\<close> be the newest intention in the log that has an after image, and
  let the reads of the log succeed and the entry cache have room for the entries behind \<open>ip\<close>. Then
  \<^verbatim>\<open>FindRestorePoint\<close>, which fills the position at the tail, completes; replay starts behind \<open>ip\<close>, the after image is
  the oldest one for \<open>ip\<close>, and the latest intention is the newest one in the log.\<close>

theorem restore_point_found:
  assumes "log_spec z slots" and "reliable z slots" and "reports_filled z slots"
    and "z_tail z l = (Inr t, l0)" and "z_read z t l0 = (Inl ENOENT, l1)" and "z_fill z t l1 = (None, l2)"
    and "\<forall>p < t. log_entry_at c slots l p = Some (ent p)" and "ent t = CFilled"
    and "ent ip = CIntention m" and "ip < ap" and "ap < t" and "image_for ent ip ap"
    and "\<forall>p p'. ip < p \<and> is_int ent p \<and> p < p' \<and> p' < t \<longrightarrow> \<not> image_for ent p p'"
    and "unat t - unat ip + 1 < n"
  shows "\<exists>p ai x S' l'. FindRestorePoint z c (new_entry_service n) l =
      Some (Inr (\<lparr>replay_start_pos = ip + 1, after_image_pos = p, rp_after_image = ai\<rparr>, x, S', l')) \<and>
    first_image ent ip t ip (Some (p, ai)) \<and>
    ip \<le> x \<and> x < t \<and> is_int ent x \<and> (\<forall>p. x < p \<and> p < t \<longrightarrow> \<not> is_int ent p) \<and>
    coherent c slots S' l' \<and> grows slots l l'"
  using FindRestorePoint_ok [OF assms(1-13) coherent_new] assms(14) by (simp add: new_entry_service_def)

theorem restore_point_found_witness:
  "\<exists>p ai x S' l'. FindRestorePoint zlog_sample codec_sample (new_entry_service 9) log3 =
      Some (Inr (\<lparr>replay_start_pos = 1 + 1, after_image_pos = p, rp_after_image = ai\<rparr>, x, S', l')) \<and> x < 3"
proof -
  define ent where "ent = (\<lambda>p :: u64. if p = 1 then CIntention (intention_at msg_sample 1)
    else if p = 2 then CAfterImage ai_msg else CFilled)"
  have s: "slots_sample log3 3 = Unwritten" by (simp add: slots_sample_def log3_def)
  have small: "p = 0 \<or> p = 1 \<or> p = 2" if "p < 3" for p :: u64
    using that by (simp add: word_less_nat_alt word_unat_eq_iff) linarith
  have e: "log_entry_at codec_sample slots_sample log3 p = Some (ent p)" if "p < 3" for p
    using small [OF that] by (auto simp: ent_def log_entry_at_def slots_log3 codec_sample_def)
  have rf: "reports_filled zlog_sample slots_sample" by (simp add: reports_filled_def zlog_sample_def)
  have z: "z_tail zlog_sample log3 = (Inr 3, log3)" "z_read zlog_sample 3 log3 = (Inl ENOENT, log3)"
    "z_fill zlog_sample 3 log3 = (None, log3 @ [Filled])"
    using s by (simp_all add: zlog_sample_def log3_def)
  have v: "ent 3 = CFilled" "ent 1 = CIntention (intention_at msg_sample 1)" "image_for ent 1 2"
    by (simp_all add: ent_def image_for_def ai_msg_def)
  have i: "is_int ent p \<longleftrightarrow> p = 1" for p by (simp add: is_int_def ent_def)
  have "\<forall>p < 3. log_entry_at codec_sample slots_sample log3 p = Some (ent p)" using e by blast
  from restore_point_found [OF log_spec_sample reliable_sample rf z this v(1,2) _ _ v(3), of 9]
  show ?thesis by (fastforce simp: i)
qed

end
