(* ===== verification/TreeRefs.thy ===== *)
theory TreeRefs
  imports TreeProps
begin

text \<open>
  References never dangle. A heap is conforming when every reference of every node, reachable or not, leads to
  a node of the heap, and nil is in place, black and read-only. Every operation of \<^verbatim>\<open>persistent_tree.cc\<close>
  that completes on a conforming heap, with node numbers of that heap as its arguments, leaves a conforming heap
  that has all the nodes it had before, and returns node numbers of that heap. The same induction over the code
  shows when nil can be recorded among the fresh nodes: only when the tree becomes empty.
\<close>

section \<open>Conforming heaps\<close>

abbreviation has :: "('k, 'v, 'b) heap_scheme \<Rightarrow> nat \<Rightarrow> bool" where
  "has T n \<equiv> n \<in> dom (nodes T)"

definition conf :: "('k, 'v, 'b) heap_scheme \<Rightarrow> bool" where
  "conf T \<longleftrightarrow>
     (\<exists>nd. nodes T Nil_id = Some nd \<and> nd_read_only nd \<and> \<not> nd_red nd) \<and> 0 < next_node T \<and>
     (\<forall>n nd d q. nodes T n = Some nd \<longrightarrow> np_ref (child d nd) = Some q \<longrightarrow> has T q)"

text \<open>\<open>ext T T'\<close>: the heap of \<open>T'\<close> conforms and extends the one of \<open>T\<close>; \<open>step\<close>: moreover nil has not been recorded as
  fresh in between.\<close>

definition ext :: "('k, 'v) ptree \<Rightarrow> ('k, 'v) ptree \<Rightarrow> bool" where
  "ext T T' \<longleftrightarrow> conf T' \<and> dom (nodes T) \<subseteq> dom (nodes T')"

definition step :: "('k, 'v) ptree \<Rightarrow> ('k, 'v) ptree \<Rightarrow> bool" where
  "step T T' \<longleftrightarrow> ext T T' \<and> (Nil_id \<in> set (fresh_nodes T') \<longrightarrow> Nil_id \<in> set (fresh_nodes T))"

lemma step_refl [simp]: "conf T \<Longrightarrow> step T T"
  by (simp add: step_def ext_def)

lemma step_ext: "step T T' \<Longrightarrow> ext T T'"
  by (simp add: step_def)

lemma ext_conf: "ext T T' \<Longrightarrow> conf T'"
  by (simp add: ext_def)

lemma ext_has: "ext T T' \<Longrightarrow> has T n \<Longrightarrow> has T' n"
  by (auto simp: ext_def)

lemma ext_trans: "ext T T' \<Longrightarrow> ext T' T'' \<Longrightarrow> ext T T''"
  by (auto simp: ext_def)

lemma step_trans: "step T T' \<Longrightarrow> step T' T'' \<Longrightarrow> step T T''"
  unfolding step_def using ext_trans by blast

lemma step_conf: "step T T' \<Longrightarrow> conf T'"
  by (simp add: step_def ext_def)

lemma step_has: "step T T' \<Longrightarrow> has T n \<Longrightarrow> has T' n"
  by (auto simp: step_def ext_def)

lemma step_path: "step T T' \<Longrightarrow> set path \<subseteq> dom (nodes T) \<Longrightarrow> set path \<subseteq> dom (nodes T')"
  by (auto simp: step_def ext_def)

lemma conf_nil: "conf T \<Longrightarrow> has T Nil_id"
  by (auto simp: conf_def)

lemma conf_child: "conf T \<Longrightarrow> nodes T n = Some nd \<Longrightarrow> np_ref (child d nd) = Some q \<Longrightarrow> has T q"
  unfolding conf_def by blast

lemma conf_kids:
  assumes "conf T" and "nodes T n = Some nd"
  shows "np_ref (nd_left nd) = Some q \<Longrightarrow> has T q" "np_ref (nd_right nd) = Some q \<Longrightarrow> has T q"
  using conf_child [OF assms, of DL] conf_child [OF assms, of DR] by simp_all

lemma conf_child_ref: "conf T \<Longrightarrow> child_ref d n T = Some q \<Longrightarrow> has T q"
  unfolding child_ref_def bind_Some_iff using conf_child by blast

lemma conf_truncate [simp]: "conf (heap.truncate T) = conf T"
  by (simp add: conf_def heap.defs)

text \<open>A check followed by the rest of a function.\<close>

lemma guard_Some: "(if b then None else m) = Some x \<longleftrightarrow> \<not> b \<and> m = Some x"
  by simp

section \<open>Writes to one node\<close>

lemma put_node_step:
  assumes "conf T" and "nodes T n = Some nd" and "n = Nil_id \<Longrightarrow> nd_read_only nd' = nd_read_only nd \<and> nd_red nd' = nd_red nd"
    and "\<And>d q. np_ref (child d nd') = Some q \<Longrightarrow> has T q"
  shows "step T (put_node n nd' T)"
  using assms unfolding step_def ext_def conf_def by (auto split: if_splits)

lemma upd_node_step:
  assumes "upd_node n f T = Some T'" and "conf T"
    and "\<And>nd. n = Nil_id \<Longrightarrow> nodes T n = Some nd \<Longrightarrow> nd_read_only (f nd) = nd_read_only nd \<and> nd_red (f nd) = nd_red nd"
    and "\<And>nd d q. nodes T n = Some nd \<Longrightarrow> np_ref (child d (f nd)) = Some q \<Longrightarrow> has T q"
  shows "step T T'"
proof -
  obtain nd where nd: "nodes T n = Some nd" "T' = put_node n (f nd) T"
    using assms(1) by (auto simp: upd_node_def split: option.splits)
  show ?thesis unfolding nd(2) by (rule put_node_step [OF assms(2) nd(1)]) (use assms(3,4) nd(1) in blast)+
qed

lemma child_dir_cases: "child e (set_child d p nd) = (if e = d then p else child e nd)"
  by (cases d; cases e) simp_all

lemma assign_ptr_step:
  assumes "assign_ptr d n p T = Some T'" and "conf T" and "\<And>q. np_ref p = Some q \<Longrightarrow> has T q"
  shows "step T T'"
  by (rule upd_node_step [OF assms(1) [unfolded assign_ptr_def] assms(2)])
    (use assms(3) conf_child [OF assms(2)] in \<open>auto simp: child_dir_cases split: if_splits\<close>)

lemma set_ref_step:
  assumes "set_ref d n q T = Some T'" and "conf T" and "has T q"
  shows "step T T'" "child_ref d n T' = Some q"
proof -
  show "step T T'"
    by (rule upd_node_step [OF assms(1) [unfolded set_ref_def] assms(2)])
      (use assms(3) conf_child [OF assms(2)] in \<open>auto simp: child_dir_cases split: if_splits\<close>)
  show "child_ref d n T' = Some q"
    using assms(1) by (auto simp: set_ref_def upd_node_def child_ref_def split: option.splits)
qed

lemma not_nil: "conf T \<Longrightarrow> nodes T n = Some nd \<Longrightarrow> \<not> nd_read_only nd \<Longrightarrow> n \<noteq> Nil_id"
  by (rule notI) (auto simp: conf_def)

lemma set_red_step:
  assumes "set_red n b T = Some T'" and "conf T"
  shows "step T T'" "n \<noteq> Nil_id"
proof -
  obtain nd where nd: "nodes T n = Some nd" "\<not> nd_read_only nd" "upd_node n (\<lambda>nd. nd\<lparr>nd_red := b\<rparr>) T = Some T'"
    using assms(1) by (auto simp: set_red_def split: if_splits)
  show n: "n \<noteq> Nil_id" by (rule not_nil [OF assms(2) nd(1,2)])
  show "step T T'"
    by (rule upd_node_step [OF nd(3) assms(2)]) (use n conf_child [OF assms(2)] in auto)
qed

lemma swap_color_step:
  assumes "swap_color n m T = Some T'" and "conf T"
  shows "step T T'" "n \<noteq> Nil_id" "m \<noteq> Nil_id"
proof -
  obtain nd md T1 where s: "nodes T n = Some nd" "nodes T m = Some md" "\<not> nd_read_only nd" "\<not> nd_read_only md"
    "upd_node n (\<lambda>x. x\<lparr>nd_red := nd_red md\<rparr>) T = Some T1" "upd_node m (\<lambda>x. x\<lparr>nd_red := nd_red nd\<rparr>) T1 = Some T'"
    using assms(1) by (auto simp: swap_color_def split: if_splits)
  show n: "n \<noteq> Nil_id" and m: "m \<noteq> Nil_id" using not_nil [OF assms(2)] s(1-4) by blast+
  have 1: "step T T1" by (rule upd_node_step [OF s(5) assms(2)]) (use n conf_child [OF assms(2)] in auto)
  moreover have "step T1 T'"
    by (rule upd_node_step [OF s(6) step_conf [OF 1]]) (use m conf_child [OF step_conf [OF 1]] in auto)
  ultimately show "step T T'" by (rule step_trans)
qed

lemma steal_payload_step:
  fixes T :: "('k, 'v) ptree"
  assumes "steal_payload n m T = Some T'" and "conf T"
  shows "step T T'"
proof -
  obtain od :: "('k, 'v) node" where s: "upd_node n (\<lambda>x. x\<lparr>nd_key := nd_key od, nd_val := nd_val od\<rparr>) T = Some T'"
    using assms(1) by (auto simp: steal_payload_def split: if_splits)
  show ?thesis by (rule upd_node_step [OF s assms(2)]) (use conf_child [OF assms(2)] in auto)
qed

lemma add_node_step:
  assumes "conf T" and "\<And>d q. np_ref (child d nd) = Some q \<Longrightarrow> has T q"
  shows "step T (add_node nd T)" "has (add_node nd T) (next_node T)"
proof -
  have n: "0 < next_node T" using assms(1) by (simp add: conf_def)
  have "has (add_node nd T) q" if "nodes (add_node nd T) i = Some md" "np_ref (child d md) = Some q" for i md d q
    using that assms(2) conf_child [OF assms(1)] by (auto split: if_splits simp del: not_None_eq)
  then have "conf (add_node nd T)" using assms(1) n by (simp add: conf_def)
  then show "step T (add_node nd T)" using n by (auto simp: step_def ext_def)
qed simp

section \<open>Copies\<close>

text \<open>Copying nil gives nil and records it; copying any other node is a step.\<close>

lemma fresh_copy_nil: "fresh_copy Nil_id T = Some (Nil_id, push_fresh Nil_id T)"
  by (simp add: fresh_copy_def Copy_node_def)

lemma fresh_copy_step:
  assumes "fresh_copy n T = Some (n', T')" and "conf T" and "n \<noteq> Nil_id"
  shows "step T T'" "has T' n'" "n' \<noteq> Nil_id"
proof -
  obtain nd l q where nd: "nodes T n = Some nd" "np_ref (nd_left nd) = Some l" "np_ref (nd_right nd) = Some q"
    using assms(1,3) by (auto simp: fresh_copy_def Copy_node_def)
  then have e: "n' = next_node T" "T' = add_node (own_nd (rid T) nd) T"
    using assms(1) fresh_copy_eq [OF nd(1) assms(3) nd(2,3)] by simp_all
  have "has T q" if "np_ref (child d (own_nd (rid T) nd)) = Some q" for d q
    using conf_child [OF assms(2) nd(1), of d q] that by simp
  with add_node_step [OF assms(2), of "own_nd (rid T) nd"] show "step T T'" "has T' n'" unfolding e by blast+
  show "n' \<noteq> Nil_id" using assms(2) by (simp add: e conf_def)
qed

lemma fresh_copy_ext:
  assumes "fresh_copy n T = Some (n', T')" and "conf T"
  shows "ext T T'" "has T' n'" "n' = Nil_id \<longleftrightarrow> n = Nil_id"
proof -
  have "ext T T' \<and> has T' n' \<and> (n' = Nil_id \<longleftrightarrow> n = Nil_id)"
  proof (cases "n = Nil_id")
    case True
    then have "n' = Nil_id" "T' = push_fresh Nil_id T" using assms(1) by (simp_all add: fresh_copy_nil)
    then show ?thesis
      using True conf_nil [OF assms(2)] assms(2) by (simp add: ext_def conf_def)
  next
    case False
    then show ?thesis using fresh_copy_step [OF assms] step_ext by blast
  qed
  then show "ext T T'" "has T' n'" "n' = Nil_id \<longleftrightarrow> n = Nil_id" by blast+
qed

lemma own_copy_ext:
  assumes "own_copy n T = Some (n', T')" and "conf T"
  shows "ext T T'" "has T' n'" "n' = Nil_id \<longleftrightarrow> n = Nil_id" "n \<noteq> Nil_id \<Longrightarrow> step T T'"
proof -
  obtain r where r: "get_rid n T = Some r" "(if r = rid T then Some (n, T) else fresh_copy n T) = Some (n', T')"
    using assms(1) by (auto simp: own_copy_def)
  have n: "has T n" using r(1) by (auto simp: get_rid_def)
  show "ext T T'" "has T' n'" "n' = Nil_id \<longleftrightarrow> n = Nil_id"
    using r(2) n assms(2) fresh_copy_ext [OF _ assms(2)] step_ext [OF step_refl [OF assms(2)]]
    by (auto split: if_splits simp del: domIff)
  show "step T T'" if "n \<noteq> Nil_id"
    using r(2) assms(2) fresh_copy_step(1) [OF _ assms(2) that] by (auto split: if_splits)
qed

text \<open>After a copy of a child, the pointer tells whether nil has been copied.\<close>

lemma own_child_ext:
  assumes "own_child d n T = Some T'" and "conf T"
  shows "ext T T'" "child_ref d n T' \<noteq> Some Nil_id \<Longrightarrow> step T T'"
proof -
  obtain c r where c: "child_ref d n T = Some c" "get_rid c T = Some r"
    "(if r \<noteq> rid T then do { (c', T) \<leftarrow> fresh_copy c T; set_ref d n c' T } else Some T) = Some T'"
    using assms(1) by (auto simp: own_child_def)
  have "ext T T' \<and> (child_ref d n T' \<noteq> Some Nil_id \<longrightarrow> step T T')"
  proof (cases "r = rid T")
    case True
    then show ?thesis using c(3) assms(2) by (simp add: step_ext)
  next
    case False
    then obtain c' T1 where s: "fresh_copy c T = Some (c', T1)" "set_ref d n c' T1 = Some T'" using c(3) by auto
    note f = fresh_copy_ext [OF s(1) assms(2)]
    note r = set_ref_step [OF s(2) ext_conf [OF f(1)] f(2)]
    show ?thesis
      using ext_trans [OF f(1) step_ext [OF r(1)]] r(2) f(3) fresh_copy_step(1) [OF s(1) assms(2)] step_trans [OF _ r(1)]
      by blast
  qed
  then show "ext T T'" "child_ref d n T' \<noteq> Some Nil_id \<Longrightarrow> step T T'" by blast+
qed

lemma own_child_step:
  assumes "own_child d n T = Some T'" and "conf T" and "child_ref d n T = Some c" and "c \<noteq> Nil_id"
  shows "step T T'"
proof -
  consider "T' = T" | c' T1 where "fresh_copy c T = Some (c', T1)" "set_ref d n c' T1 = Some T'"
    using assms(1,3) by (auto simp: own_child_def split: if_splits)
  then show ?thesis
  proof cases
    case 2
    note f = fresh_copy_step [OF 2(1) assms(2,4)]
    show ?thesis by (rule step_trans [OF f(1) set_ref_step(1) [OF 2(2) step_conf [OF f(1)] f(2)]])
  qed (use assms(2) in simp)
qed

lemma own_brother_ext:
  assumes "own_brother d p b T = Some (b', T')" and "conf T"
  shows "ext T T'" "has T' b'" "b' \<noteq> Nil_id \<Longrightarrow> step T T'" "child_ref (opp d) p T' = Some b'"
proof -
  obtain r T1 where r: "get_rid b T = Some r" "child_ref (opp d) p T' = Some b'"
    "(if r \<noteq> rid T then do { (n, T) \<leftarrow> fresh_copy b T; set_ref (opp d) p n T } else set_ref (opp d) p b T) = Some T'"
    using assms(1) by (auto simp: own_brother_def)
  have b: "has T b" using r(1) by (auto simp: get_rid_def)
  have "ext T T' \<and> (b' \<noteq> Nil_id \<longrightarrow> step T T')"
  proof (cases "r = rid T")
    case True
    then have "set_ref (opp d) p b T = Some T'" using r(3) by simp
    from set_ref_step(1) [OF this assms(2) b] show ?thesis using step_ext by blast
  next
    case False
    then obtain n T1 where s: "fresh_copy b T = Some (n, T1)" "set_ref (opp d) p n T1 = Some T'" using r(3) by auto
    note f = fresh_copy_ext [OF s(1) assms(2)]
    note q = set_ref_step [OF s(2) ext_conf [OF f(1)] f(2)]
    have "b' = n" using q(2) r(2) by simp
    then show ?thesis
      using ext_trans [OF f(1) step_ext [OF q(1)]] f(3) fresh_copy_step(1) [OF s(1) assms(2)] step_trans [OF _ q(1)]
      by blast
  qed
  then show "ext T T'" "b' \<noteq> Nil_id \<Longrightarrow> step T T'" by blast+
  then show "has T' b'" using conf_child_ref [OF ext_conf r(2)] by blast
qed (use assms(1) in \<open>auto simp: own_brother_def\<close>)

lemma rotate_nodes_step:
  assumes "rotate_nodes p ch d rt T = Some (gc, rt', T')" and "conf T" and "has T rt"
  shows "step T T'" "has T' gc" "has T' rt'"
proof -
  obtain cd gd T1 T2 where s: "nodes T ch = Some cd" "np_ref (child (opp d) cd) = Some gc" "nodes T gc = Some gd"
    "assign_ptr (opp d) ch (child d gd) T = Some T1"
    "(if rt = ch then Some (gc, T1)
      else do { pa \<leftarrow> child_ref d p T1;
                T \<leftarrow> (if pa = ch then assign_ptr d p (child (opp d) cd) T1 else assign_ptr (opp d) p (child (opp d) cd) T1);
                Some (rt, T) }) = Some (rt', T2)"
    "set_ref d gc ch T2 = Some T'"
    using assms(1) unfolding rotate_nodes_def Let_def bind_Some_iff split_paired_Ex prod.case guard_Some by auto
  have gc: "has T gc" using s(3) by blast
  have 1: "step T T1" by (rule assign_ptr_step [OF s(4) assms(2) conf_child [OF assms(2) s(3)]])
  have g1: "\<And>q. np_ref (child (opp d) cd) = Some q \<Longrightarrow> has T1 q"
    using step_has [OF 1 conf_child [OF assms(2) s(1)]] by blast
  have 2: "step T1 T2 \<and> has T2 rt'"
  proof (cases "rt = ch")
    case True
    then show ?thesis using s(5) step_conf [OF 1] step_has [OF 1 gc] by simp
  next
    case False
    then obtain e where e: "assign_ptr e p (child (opp d) cd) T1 = Some T2" "rt' = rt"
      using s(5) by (auto split: if_splits)
    from assign_ptr_step [OF e(1) step_conf [OF 1] g1] step_has [OF _ step_has [OF 1 assms(3)]] e(2)
    show ?thesis by blast
  qed
  have ch: "has T2 ch" using step_has [OF step_trans [OF 1 conjunct1 [OF 2]]] s(1) by blast
  note 3 = set_ref_step(1) [OF s(6) step_conf [OF conjunct1 [OF 2]] ch]
  show a: "step T T'" using step_trans [OF step_trans [OF 1 conjunct1 [OF 2]] 3] .
  show "has T' gc" by (rule step_has [OF a gc])
  show "has T' rt'" by (rule step_has [OF 3 conjunct2 [OF 2]])
qed

section \<open>Insertion\<close>

lemmas run_simps = bind_Some_iff split_paired_Ex prod.case guard_Some Let_def

lemma set_red_child_ref: "set_red n b T = Some T' \<Longrightarrow> child_ref d m T' = child_ref d m T"
  by (auto simp: set_red_def upd_node_def child_ref_def split: if_splits)

lemma front_has: "front path = Some x \<Longrightarrow> set path \<subseteq> dom (nodes T) \<Longrightarrow> has T x"
  by (cases path) auto

lemma pop_has:
  "pop_front path = Some (x, path') \<Longrightarrow> set path \<subseteq> dom (nodes T) \<Longrightarrow> has T x \<and> set path' \<subseteq> dom (nodes T)"
  by (cases path) auto

text \<open>The step that the recursive functions take on their way back: the node is copied unless it is the tree's own,
  and its child is redirected.\<close>

lemma relink_step:
  assumes "own_copy n T = Some (c, T1)" and "set_ref d c ch T1 = Some T2" and "conf T" and "n \<noteq> Nil_id" and "has T ch"
  shows "step T T2" "has T2 c"
proof -
  note c = own_copy_ext [OF assms(1,3)]
  have 1: "step T T1" by (rule c(4) [OF assms(4)])
  have 2: "step T1 T2" by (rule set_ref_step(1) [OF assms(2) step_conf [OF 1] step_has [OF 1 assms(5)]])
  show "step T T2" by (rule step_trans [OF 1 2])
  show "has T2 c" by (rule step_has [OF 2 c(2)])
qed

lemma new_leaf_child: "np_ref (child d (new_leaf k v r)) = Some Nil_id"
  by (cases d) (simp_all add: new_leaf_def)

lemma insert_recursive_step:
  fixes T :: "('k::linorder, 'v) ptree"
  assumes "insert_recursive T path k v n = Some (rt, path', T')" and "conf T" and "has T n"
    and "set path \<subseteq> dom (nodes T)"
  shows "step T T' \<and> set path' \<subseteq> dom (nodes T') \<and> (\<forall>x. rt = Some x \<longrightarrow> has T' x)"
proof -
  let ?Q = "\<lambda>(T :: ('k, 'v) ptree) n path (rt :: nat option, path', T'). conf T \<longrightarrow> has T n \<longrightarrow> set path \<subseteq> dom (nodes T) \<longrightarrow>
    step T T' \<and> set path' \<subseteq> dom (nodes T') \<and> (\<forall>x. rt = Some x \<longrightarrow> has T' x)"
  let ?P = "\<lambda>T path (k :: 'k) (v :: 'v) n r. ?Q T n path r"
  have "?P T path k v n (rt, path', T')"
  proof (rule insert_recursive.raw_induct [where P = ?P, OF _ assms(1)])
    fix f path n r and T :: "('k, 'v) ptree" and k :: 'k and v :: 'v
    assume IH: "\<And>T path k v n r. f T path k v n = Some r \<Longrightarrow> ?P T path k v n r"
      and eq: "(if n = Nil_id then let (nn, T) = alloc_node (new_leaf k v (rid T)) T
        in Some (Some nn, path @ [nn], push_fresh nn T)
      else do {
        nd \<leftarrow> nodes T n;
        if k = nd_key nd then Some (None, path, T)
        else do {
          c \<leftarrow> (if k < nd_key nd then np_ref (nd_left nd) else np_ref (nd_right nd));
          (ch, path, T) \<leftarrow> f T path k v c;
          case ch of
            None \<Rightarrow> Some (None, path, T)
          | Some ch \<Rightarrow> do {
              (copy, T) \<leftarrow> own_copy n T;
              T \<leftarrow> set_ref (if k < nd_key nd then DL else DR) copy ch T;
              Some (Some copy, path @ [copy], T) } } }) = Some r"
    show "?Q T n path r"
    proof (cases r, clarsimp simp del: domIff)
      fix rt path' T' y
      assume r: "r = (rt, path', T')" and T: "conf T" "nodes T n = Some y" "set path \<subseteq> dom (nodes T)"
      consider (leaf) "n = Nil_id" | (hit) "n \<noteq> Nil_id" "k = nd_key y"
        | (down) c ch path1 T1 where "n \<noteq> Nil_id" "np_ref (child (if k < nd_key y then DL else DR) y) = Some c"
          "f T path k v c = Some (ch, path1, T1)"
          "(case ch of None \<Rightarrow> Some (None, path1, T1)
            | Some ch \<Rightarrow> do { (copy, T) \<leftarrow> own_copy n T1; T \<leftarrow> set_ref (if k < nd_key y then DL else DR) copy ch T;
                Some (Some copy, path1 @ [copy], T) }) = Some r"
        using eq T(2) by (auto split: if_splits)
      then show "step T T' \<and> set path' \<subseteq> dom (nodes T') \<and> (\<forall>x. rt = Some x \<longrightarrow> has T' x)"
      proof cases
        case leaf
        have 1: "step T (add_node (new_leaf k v (rid T)) T)" "has (add_node (new_leaf k v (rid T)) T) (next_node T)"
          by (rule add_node_step [OF T(1)]; use conf_nil [OF T(1)] in \<open>auto simp: new_leaf_child\<close>)+
        have "r = (Some (next_node T), path @ [next_node T], add_node (new_leaf k v (rid T)) T)"
          using eq leaf by (simp add: add_node_def alloc_node_def)
        then show ?thesis using r 1 step_path [OF 1(1) T(3)] by simp
      next
        case hit
        then show ?thesis using eq r T by simp
      next
        case down
        have c: "has T c" by (rule conf_child [OF T(1,2) down(2)])
        have 1: "step T T1" "set path1 \<subseteq> dom (nodes T1)" "\<And>x. ch = Some x \<Longrightarrow> has T1 x"
          using IH [OF down(3)] T(1,3) c by auto
        show ?thesis
        proof (cases ch)
          case None
          then show ?thesis using down(4) r 1 by simp
        next
          case (Some x)
          then obtain copy T2 where s: "own_copy n T1 = Some (copy, T2)"
            "set_ref (if k < nd_key y then DL else DR) copy x T2 = Some T'" "rt = Some copy" "path' = path1 @ [copy]"
            using down(4) r by auto
          note q = relink_step [OF s(1,2) step_conf [OF 1(1)] down(1) 1(3) [OF Some]]
          show ?thesis using step_trans [OF 1(1) q(1)] q(2) step_path [OF q(1) 1(2)] s(3,4) by simp
        qed
      qed
    qed
  qed
  then show ?thesis using assms(2-4) by simp
qed

lemma insert_balance_step:
  assumes "insert_balance d p nn path rt T = Some (p', nn', path', rt', T')" and "conf T"
    and "has T p" and "has T nn" and "has T rt" and "set path \<subseteq> dom (nodes T)"
  shows "step T T' \<and> has T' p' \<and> has T' nn' \<and> has T' rt' \<and> set path' \<subseteq> dom (nodes T')"
proof -
  obtain g uncle ured where g: "front path = Some g" "child_ref (opp d) g T = Some uncle" "get_red uncle T = Some ured"
    using assms(1) unfolding insert_balance_def run_simps by blast
  show ?thesis
  proof (cases ured)
    case True
    then obtain T1 T2 u T3 path1 where s: "own_child (opp d) g T = Some T1" "set_red p False T1 = Some T2"
      "child_ref (opp d) g T2 = Some u" "set_red u False T2 = Some T3" "set_red g True T3 = Some T'"
      "pop_front path = Some (nn', path1)" "pop_front path1 = Some (p', path')" "rt' = rt"
      using assms(1) g unfolding insert_balance_def run_simps by auto
    note 1 = own_child_ext [OF s(1) assms(2)]
    note 2 = set_red_step [OF s(2) ext_conf [OF 1(1)]]
    note 3 = set_red_step [OF s(4) step_conf [OF 2(1)]]
    have "child_ref (opp d) g T1 \<noteq> Some Nil_id" using s(3) 3(2) set_red_child_ref [OF s(2)] by simp
    note 4 = step_trans [OF step_trans [OF 1(2) [OF this] 2(1)] 3(1)]
    note 5 = step_trans [OF 4 set_red_step(1) [OF s(5) step_conf [OF 4]]]
    show ?thesis
      using 5 pop_has [OF s(6) step_path [OF 5 assms(6)]] pop_has [OF s(7), of T'] step_has [OF 5 assms(5)] s(8) by blast
  next
    case False
    then obtain pb p1 nn1 rt1 T1 gp T2 f x where s: "child_ref (opp d) p T = Some pb"
      "(if nn = pb then do { (_, rt, T) \<leftarrow> rotate_nodes g p d rt T; Some (nn, p, rt, T) } else Some (p, nn, rt, T)) =
         Some (p1, nn1, rt1, T1)"
      "pop_front path = Some (gp, path')" "swap_color gp p1 T1 = Some T2" "front path' = Some f"
      "rotate_nodes f gp (opp d) rt1 T2 = Some (x, rt', T')" "p' = p1" "nn' = nn1"
      using assms(1) g unfolding insert_balance_def run_simps by auto
    have 1: "step T T1 \<and> has T1 p1 \<and> has T1 nn1 \<and> has T1 rt1"
    proof (cases "nn = pb")
      case True
      obtain y where y: "rotate_nodes g p d rt T = Some (y, rt1, T1)" "p1 = nn" "nn1 = p"
        using s(2) unfolding if_P [OF True] run_simps by blast
      note q = rotate_nodes_step [OF y(1) assms(2,5)]
      show ?thesis using q(1,3) step_has [OF q(1) assms(3)] step_has [OF q(1) assms(4)] y(2,3) by simp
    next
      case False
      then have "p1 = p" "nn1 = nn" "rt1 = rt" "T1 = T" using s(2) by simp_all
      then show ?thesis using assms(2-5) by simp
    qed
    note 2 = swap_color_step(1) [OF s(4) step_conf [OF conjunct1 [OF 1]]]
    have rt: "has T2 rt1" using step_has [OF 2] 1 by blast
    note 3 = rotate_nodes_step [OF s(6) step_conf [OF 2] rt]
    have a: "step T T'" using step_trans [OF step_trans [OF _ 2] 3(1)] 1 by blast
    have "has T' p1" "has T' nn1" using step_has [OF step_trans [OF 2 3(1)]] 1 by blast+
    then show ?thesis using a 3(3) pop_has [OF s(3) step_path [OF a assms(6)]] s(7,8) by blast
  qed
qed

lemma insert_loop_step:
  fixes T :: "('k, 'v) ptree"
  assumes "insert_loop p nn path rt T = Some (rt', T')" and "conf T"
    and "has T p" and "has T nn" and "has T rt" and "set path \<subseteq> dom (nodes T)"
  shows "step T T' \<and> has T' rt'"
proof -
  let ?P = "\<lambda>p nn path rt (T :: ('k, 'v) ptree) (rt', T'). conf T \<longrightarrow> has T p \<longrightarrow> has T nn \<longrightarrow> has T rt \<longrightarrow>
    set path \<subseteq> dom (nodes T) \<longrightarrow> step T T' \<and> has T' rt'"
  have "?P p nn path rt T (rt', T')"
  proof (rule insert_loop.raw_induct [where P = ?P, OF _ assms(1)])
    fix f p nn path rt r and T :: "('k, 'v) ptree"
    assume IH: "\<And>p nn path rt T r. f p nn path rt T = Some r \<Longrightarrow> ?P p nn path rt T r"
      and eq: "do { pred \<leftarrow> get_red p T;
        if \<not> pred then Some (rt, T)
        else do {
          g \<leftarrow> front path;
          gl \<leftarrow> child_ref DL g T;
          (parent, nn, path, rt, T) \<leftarrow> insert_balance (if gl = p then DL else DR) p nn path rt T;
          f parent nn path rt T } } = Some r"
    obtain rt' T' where r: "r = (rt', T')" by (cases r)
    show "?P p nn path rt T r"
      unfolding r prod.case
    proof (intro impI)
      assume a: "conf T" "has T p" "has T nn" "has T rt" "set path \<subseteq> dom (nodes T)"
      consider (finish) "rt' = rt" "T' = T" | (turn) d p1 nn1 path1 rt1 T1 where
        "insert_balance d p nn path rt T = Some (p1, nn1, path1, rt1, T1)" "f p1 nn1 path1 rt1 T1 = Some (rt', T')"
        using eq r by (auto split: if_splits)
      then show "step T T' \<and> has T' rt'"
      proof cases
        case finish
        then show ?thesis using a by simp
      next
        case turn
        have 1: "step T T1 \<and> has T1 p1 \<and> has T1 nn1 \<and> has T1 rt1 \<and> set path1 \<subseteq> dom (nodes T1)"
          by (rule insert_balance_step [OF turn(1) a])
        then have "step T1 T' \<and> has T' rt'" using IH [OF turn(2)] step_conf by blast
        then show ?thesis using 1 step_trans by blast
      qed
    qed
  qed
  then show ?thesis using assms(2-6) by simp
qed

section \<open>Deletion\<close>

text \<open>The three recursive descents agree in what they do on the way back: they copy the nodes of the path.\<close>

lemma delete_recursive_step:
  fixes T :: "('k::linorder, 'v) ptree"
  assumes "delete_recursive T path k n = Some (rt, path', T')" and "conf T" and "has T n"
    and "set path \<subseteq> dom (nodes T)"
  shows "step T T' \<and> set path' \<subseteq> dom (nodes T') \<and> (\<forall>x. rt = Some x \<longrightarrow> has T' x)"
proof -
  let ?P = "\<lambda>(T :: ('k, 'v) ptree) path (k :: 'k) n (rt :: nat option, path', T').
    conf T \<longrightarrow> has T n \<longrightarrow> set path \<subseteq> dom (nodes T) \<longrightarrow>
    step T T' \<and> set path' \<subseteq> dom (nodes T') \<and> (\<forall>x. rt = Some x \<longrightarrow> has T' x)"
  have "?P T path k n (rt, path', T')"
  proof (rule delete_recursive.raw_induct [where P = ?P, OF _ assms(1)])
    fix f path n r and T :: "('k, 'v) ptree" and k :: 'k
    assume IH: "\<And>T path k n r. f T path k n = Some r \<Longrightarrow> ?P T path k n r"
      and eq: "(if n = Nil_id then Some (None, path, T)
      else do {
        nd \<leftarrow> nodes T n;
        if k = nd_key nd then do { (copy, T) \<leftarrow> own_copy n T; Some (Some copy, path @ [copy], T) }
        else do {
          c \<leftarrow> (if k < nd_key nd then np_ref (nd_left nd) else np_ref (nd_right nd));
          (ch, path, T) \<leftarrow> f T path k c;
          case ch of
            None \<Rightarrow> Some (None, path, T)
          | Some ch \<Rightarrow> do {
              (copy, T) \<leftarrow> own_copy n T;
              T \<leftarrow> set_ref (if k < nd_key nd then DL else DR) copy ch T;
              Some (Some copy, path @ [copy], T) } } }) = Some r"
    show "?P T path k n r"
    proof (cases r, clarsimp simp del: domIff)
      fix rt path' T' y
      assume r: "r = (rt, path', T')" and T: "conf T" "nodes T n = Some y" "set path \<subseteq> dom (nodes T)"
      consider (leaf) "n = Nil_id"
        | (hit) copy T1 where "n \<noteq> Nil_id" "own_copy n T = Some (copy, T1)" "r = (Some copy, path @ [copy], T1)"
        | (down) c ch path1 T1 where "n \<noteq> Nil_id" "np_ref (child (if k < nd_key y then DL else DR) y) = Some c"
          "f T path k c = Some (ch, path1, T1)"
          "(case ch of None \<Rightarrow> Some (None, path1, T1)
            | Some ch \<Rightarrow> do { (copy, T) \<leftarrow> own_copy n T1; T \<leftarrow> set_ref (if k < nd_key y then DL else DR) copy ch T;
                Some (Some copy, path1 @ [copy], T) }) = Some r"
        using eq T(2) by (auto split: if_splits)
      then show "step T T' \<and> set path' \<subseteq> dom (nodes T') \<and> (\<forall>x. rt = Some x \<longrightarrow> has T' x)"
      proof cases
        case leaf
        then show ?thesis using eq r T by simp
      next
        case hit
        note 1 = own_copy_ext [OF hit(2) T(1)]
        show ?thesis using 1(2) 1(4) [OF hit(1)] step_path [OF 1(4) [OF hit(1)] T(3)] hit(3) r by simp
      next
        case down
        have c: "has T c" by (rule conf_child [OF T(1,2) down(2)])
        have 1: "step T T1" "set path1 \<subseteq> dom (nodes T1)" "\<And>x. ch = Some x \<Longrightarrow> has T1 x"
          using IH [OF down(3)] T(1,3) c by auto
        show ?thesis
        proof (cases ch)
          case None
          then show ?thesis using down(4) r 1 by simp
        next
          case (Some x)
          then obtain copy T2 where s: "own_copy n T1 = Some (copy, T2)"
            "set_ref (if k < nd_key y then DL else DR) copy x T2 = Some T'" "rt = Some copy" "path' = path1 @ [copy]"
            using down(4) r by auto
          note q = relink_step [OF s(1,2) step_conf [OF 1(1)] down(1) 1(3) [OF Some]]
          show ?thesis using step_trans [OF 1(1) q(1)] q(2) step_path [OF q(1) 1(2)] s(3,4) by simp
        qed
      qed
    qed
  qed
  then show ?thesis using assms(2-4) by simp
qed

lemma transplant_step:
  assumes "transplant p removed t rt T = Some (rt', T')" and "conf T" and "has T t" and "has T rt"
  shows "step T T'" "has T' rt'" "rt' = (if p = Nil_id then t else rt)"
proof -
  have "step T T' \<and> rt' = (if p = Nil_id then t else rt)"
  proof (cases "p = Nil_id")
    case True
    then show ?thesis using assms by (simp add: transplant_def)
  next
    case False
    then obtain d where "set_ref d p t T = Some T'" "rt' = rt"
      using assms(1) by (auto simp: transplant_def split: if_splits)
    then show ?thesis using set_ref_step(1) [OF _ assms(2,3)] False by simp
  qed
  then show "step T T'" "rt' = (if p = Nil_id then t else rt)" by blast+
  then show "has T' rt'" using step_has assms(3,4) by (simp split: if_splits del: domIff)
qed

lemma build_min_path_step:
  fixes T :: "('k, 'v) ptree"
  assumes "build_min_path n path T = Some (m, path', T')" and "conf T" and "has T n" and "set path \<subseteq> dom (nodes T)"
  shows "step T T' \<and> has T' m \<and> set path' \<subseteq> dom (nodes T')"
proof -
  let ?P = "\<lambda>n path (T :: ('k, 'v) ptree) (m, path', T'). conf T \<longrightarrow> has T n \<longrightarrow> set path \<subseteq> dom (nodes T) \<longrightarrow>
    step T T' \<and> has T' m \<and> set path' \<subseteq> dom (nodes T')"
  have "?P n path T (m, path', T')"
  proof (rule build_min_path.raw_induct [where P = ?P, OF _ assms(1)])
    fix f n path r and T :: "('k, 'v) ptree"
    assume IH: "\<And>n path T r. f n path T = Some r \<Longrightarrow> ?P n path T r"
      and eq: "do { l \<leftarrow> child_ref DL n T;
        if l = Nil_id then Some (n, path, T)
        else do { T \<leftarrow> own_child DL n T; l \<leftarrow> child_ref DL n T; f l (n # path) T } } = Some r"
    obtain m path' T' where r: "r = (m, path', T')" by (cases r)
    show "?P n path T r"
      unfolding r prod.case
    proof (intro impI)
      assume a: "conf T" "has T n" "set path \<subseteq> dom (nodes T)"
      consider (finish) "m = n" "path' = path" "T' = T" | (turn) l T1 l1 where "child_ref DL n T = Some l" "l \<noteq> Nil_id"
        "own_child DL n T = Some T1" "child_ref DL n T1 = Some l1" "f l1 (n # path) T1 = Some (m, path', T')"
        using eq r by (auto split: if_splits)
      then show "step T T' \<and> has T' m \<and> set path' \<subseteq> dom (nodes T')"
      proof cases
        case finish
        then show ?thesis using a by simp
      next
        case turn
        have 1: "step T T1" by (rule own_child_step [OF turn(3) a(1) turn(1,2)])
        have "has T1 l1" by (rule conf_child_ref [OF step_conf [OF 1] turn(4)])
        moreover have "set (n # path) \<subseteq> dom (nodes T1)" by (rule step_path [OF 1]) (use a in simp)
        ultimately have "step T1 T' \<and> has T' m \<and> set path' \<subseteq> dom (nodes T')"
          using IH [OF turn(5)] step_conf [OF 1] by blast
        then show ?thesis using 1 step_trans by blast
      qed
    qed
  qed
  then show ?thesis using assms(2-4) by simp
qed

lemma remove_red_brother_step:
  assumes "remove_red_brother d b p path rt T = Some (b', path', rt', T')" and "conf T" and "has T rt"
    and "set path \<subseteq> dom (nodes T)"
  shows "step T T' \<and> has T' b' \<and> has T' rt' \<and> set path' \<subseteq> dom (nodes T')"
proof -
  obtain b1 T1 T2 f x where s: "own_brother d p b T = Some (b1, T1)" "swap_color b1 p T1 = Some T2" "front path = Some f"
    "rotate_nodes f p d rt T2 = Some (x, rt', T')" "child_ref (opp d) p T' = Some b'" "path' = b1 # path"
    using assms(1) unfolding remove_red_brother_def run_simps by auto
  note 1 = own_brother_ext [OF s(1) assms(2)]
  note 2 = swap_color_step [OF s(2) ext_conf [OF 1(1)]]
  note 3 = step_trans [OF 1(3) [OF 2(2)] 2(1)]
  note 4 = rotate_nodes_step [OF s(4) step_conf [OF 3] step_has [OF 3 assms(3)]]
  note 5 = step_trans [OF 3 4(1)]
  have "has T' b1" by (rule step_has [OF step_trans [OF 2(1) 4(1)] 1(2)])
  then show ?thesis
    using 5 4(3) conf_child_ref [OF step_conf [OF 5] s(5)] step_path [OF 5 assms(4)] s(6) by simp
qed

lemma remove_near_red_step:
  assumes "remove_near_red d b p rt T = Some (b', rt', T')" and "conf T" and "has T rt"
  shows "step T T' \<and> has T' b' \<and> has T' rt'"
proof -
  obtain b1 T1 T2 ba T3 where s: "own_brother d p b T = Some (b1, T1)" "own_child d b1 T1 = Some T2"
    "child_ref d b1 T2 = Some ba" "swap_color b1 ba T2 = Some T3" "rotate_nodes p b1 (opp d) rt T3 = Some (b', rt', T')"
    using assms(1) unfolding remove_near_red_def run_simps by auto
  note 1 = own_brother_ext [OF s(1) assms(2)]
  note 2 = own_child_ext [OF s(2) ext_conf [OF 1(1)]]
  note 3 = swap_color_step [OF s(4) ext_conf [OF 2(1)]]
  have "child_ref d b1 T2 \<noteq> Some Nil_id" using s(3) 3(3) by simp
  note 4 = step_trans [OF step_trans [OF 1(3) [OF 3(2)] 2(2) [OF this]] 3(1)]
  note 5 = rotate_nodes_step [OF s(5) step_conf [OF 4] step_has [OF 4 assms(3)]]
  show ?thesis using step_trans [OF 4 5(1)] 5(2,3) by blast
qed

lemma remove_far_red_step:
  assumes "remove_far_red d b p path rt T = Some (rt', T')" and "conf T" and "has T rt"
  shows "step T T' \<and> has T' rt'"
proof -
  obtain b1 T1 T2 c T3 T4 bb T5 f x where s: "own_brother d p b T = Some (b1, T1)" "own_child (opp d) b1 T1 = Some T2"
    "set_red b1 c T2 = Some T3" "set_red p False T3 = Some T4" "child_ref (opp d) b1 T4 = Some bb"
    "set_red bb False T4 = Some T5" "rotate_nodes f p d rt T5 = Some (x, rt', T')"
    using assms(1) unfolding remove_far_red_def run_simps by auto
  note 1 = own_brother_ext [OF s(1) assms(2)]
  note 2 = own_child_ext [OF s(2) ext_conf [OF 1(1)]]
  note 3 = set_red_step [OF s(3) ext_conf [OF 2(1)]]
  note 4 = set_red_step [OF s(4) step_conf [OF 3(1)]]
  note 5 = set_red_step [OF s(6) step_conf [OF 4(1)]]
  have "child_ref (opp d) b1 T2 \<noteq> Some Nil_id"
    using s(5) 5(2) set_red_child_ref [OF s(3)] set_red_child_ref [OF s(4)] by simp
  note 6 = step_trans [OF 1(3) [OF 3(2)] 2(2) [OF this]]
  note 7 = step_trans [OF 6 step_trans [OF 3(1) step_trans [OF 4(1) 5(1)]]]
  note 8 = rotate_nodes_step [OF s(7) step_conf [OF 7] step_has [OF 7 assms(3)]]
  show ?thesis using step_trans [OF 7 8(1)] 8(3) by blast
qed

lemma remove_black_brother_step:
  assumes "remove_black_brother d b p path rt T = Some (e', p', path', rt', T')" and "conf T" and "has T p"
    and "has T rt" and "set path \<subseteq> dom (nodes T)"
  shows "step T T' \<and> has T' e' \<and> has T' p' \<and> has T' rt' \<and> set path' \<subseteq> dom (nodes T')"
proof -
  obtain blred brred where r: "(if \<not> blred \<and> \<not> brred then do {
       (brother, T) \<leftarrow> own_brother d p b T; T \<leftarrow> set_red brother True T;
       (parent', path) \<leftarrow> pop_front path; Some (p, parent', path, rt, T) }
     else do {
       bb \<leftarrow> child_ref (opp d) b T; bbred \<leftarrow> get_red bb T;
       (brother, rt, T) \<leftarrow> (if \<not> bbred then remove_near_red d b p rt T else Some (b, rt, T));
       (rt, T) \<leftarrow> remove_far_red d brother p path rt T;
       Some (rt, Nil_id, path, rt, T) }) = Some (e', p', path', rt', T')"
    using assms(1) unfolding remove_black_brother_def bind_Some_iff [of "child_ref _ _ _"] bind_Some_iff [of "get_red _ _"]
    by blast
  show ?thesis
  proof (cases "\<not> blred \<and> \<not> brred")
    case True
    obtain b1 T1 where s: "own_brother d p b T = Some (b1, T1)" "set_red b1 True T1 = Some T'"
      "pop_front path = Some (p', path')" "e' = p" "rt' = rt"
      using r unfolding if_P [OF True] run_simps by blast
    note 1 = own_brother_ext [OF s(1) assms(2)]
    note 2 = set_red_step [OF s(2) ext_conf [OF 1(1)]]
    note 3 = step_trans [OF 1(3) [OF 2(2)] 2(1)]
    show ?thesis
      using 3 pop_has [OF s(3) step_path [OF 3 assms(5)]] step_has [OF 3 assms(3)] step_has [OF 3 assms(4)] s(4,5) by blast
  next
    case False
    obtain c b1 rt1 T1 where s: "(if \<not> c then remove_near_red d b p rt T else Some (b, rt, T)) = Some (b1, rt1, T1)"
      "remove_far_red d b1 p path rt1 T1 = Some (rt', T')" "e' = rt'" "p' = Nil_id" "path' = path"
      using r unfolding if_not_P [OF False] run_simps by blast
    have 1: "step T T1 \<and> has T1 rt1"
      using s(1) assms(2,4) remove_near_red_step [OF _ assms(2,4)] by (cases c) (auto simp del: domIff)
    have 2: "step T1 T' \<and> has T' rt'" by (rule remove_far_red_step [OF s(2)]) (use 1 step_conf in blast)+
    have 3: "step T T'" using 1 2 step_trans by blast
    show ?thesis using 2 3 conf_nil [OF step_conf [OF 3]] step_path [OF 3 assms(5)] s(3-5) by blast
  qed
qed

lemma mirror_remove_balance_step:
  assumes "mirror_remove_balance d e p path rt T = Some (e', p', path', rt', T')" and "conf T" and "has T p"
    and "has T rt" and "set path \<subseteq> dom (nodes T)"
  shows "step T T' \<and> has T' e' \<and> has T' p' \<and> has T' rt' \<and> set path' \<subseteq> dom (nodes T')"
proof -
  obtain b c b1 path1 rt1 T1 where s: "child_ref (opp d) p T = Some b"
    "(if c then remove_red_brother d b p path rt T else Some (b, path, rt, T)) = Some (b1, path1, rt1, T1)"
    "remove_black_brother d b1 p path1 rt1 T1 = Some (e', p', path', rt', T')"
    using assms(1) unfolding mirror_remove_balance_def run_simps by blast
  have 1: "step T T1 \<and> has T1 rt1 \<and> set path1 \<subseteq> dom (nodes T1)"
    using s(2) assms(2,4,5) remove_red_brother_step [OF _ assms(2,4,5)] by (cases c) (auto simp del: domIff)
  have "step T1 T' \<and> has T' e' \<and> has T' p' \<and> has T' rt' \<and> set path' \<subseteq> dom (nodes T')"
    by (rule remove_black_brother_step [OF s(3)]) (use 1 step_conf step_has assms(3) in blast)+
  then show ?thesis using 1 step_trans by blast
qed

lemma delete_loop_step:
  fixes T :: "('k, 'v) ptree"
  assumes "delete_loop e p path rt T = Some (e', p', rt', T')" and "conf T" and "has T e" and "has T p"
    and "has T rt" and "set path \<subseteq> dom (nodes T)"
  shows "step T T' \<and> has T' e' \<and> has T' rt' \<and> (e' = Nil_id \<longrightarrow> rt' = Nil_id)"
proof -
  let ?P = "\<lambda>e p path rt (T :: ('k, 'v) ptree) (e', p' :: nat, rt', T'). conf T \<longrightarrow> has T e \<longrightarrow> has T p \<longrightarrow> has T rt \<longrightarrow>
    set path \<subseteq> dom (nodes T) \<longrightarrow> step T T' \<and> has T' e' \<and> has T' rt' \<and> (e' = Nil_id \<longrightarrow> rt' = Nil_id)"
  have "?P e p path rt T (e', p', rt', T')"
  proof (rule delete_loop.raw_induct [where P = ?P, OF _ assms(1)])
    fix f e p path rt r and T :: "('k, 'v) ptree"
    assume IH: "\<And>e p path rt T r. f e p path rt T = Some r \<Longrightarrow> ?P e p path rt T r"
      and eq: "do { ered \<leftarrow> get_red e T;
        if e = rt \<or> ered then Some (e, p, rt, T)
        else do {
          pl \<leftarrow> child_ref DL p T;
          (extra_black, parent, path, rt, T) \<leftarrow> mirror_remove_balance (if pl = e then DL else DR) e p path rt T;
          f extra_black parent path rt T } } = Some r"
    obtain e' p' rt' T' where r: "r = (e', p', rt', T')" by (cases r)
    show "?P e p path rt T r"
      unfolding r prod.case
    proof (intro impI)
      assume a: "conf T" "has T e" "has T p" "has T rt" "set path \<subseteq> dom (nodes T)"
      consider (finish) c where "get_red e T = Some c" "e = rt \<or> c" "e' = e" "rt' = rt" "T' = T"
        | (turn) d e1 p1 path1 rt1 T1 where "mirror_remove_balance d e p path rt T = Some (e1, p1, path1, rt1, T1)"
          "f e1 p1 path1 rt1 T1 = Some r"
        using eq r by (auto split: if_splits)
      then show "step T T' \<and> has T' e' \<and> has T' rt' \<and> (e' = Nil_id \<longrightarrow> rt' = Nil_id)"
      proof cases
        case finish
        have "e = Nil_id \<longrightarrow> \<not> c" using finish(1) a(1) by (auto simp: get_red_def conf_def)
        then show ?thesis using finish a by auto
      next
        case turn
        have 1: "step T T1 \<and> has T1 e1 \<and> has T1 p1 \<and> has T1 rt1 \<and> set path1 \<subseteq> dom (nodes T1)"
          by (rule mirror_remove_balance_step [OF turn(1) a(1,3-5)])
        then have "step T1 T' \<and> has T' e' \<and> has T' rt' \<and> (e' = Nil_id \<longrightarrow> rt' = Nil_id)"
          using IH [OF turn(2)] step_conf r by blast
        then show ?thesis using 1 step_trans by blast
      qed
    qed
  qed
  then show ?thesis using assms(2-6) by simp
qed

text \<open>Nil is copied, and so recorded, only when it has become the root.\<close>

lemma balance_delete_ext:
  assumes "balance_delete e path rt T = Some (rt', T')" and "conf T" and "has T e" and "has T rt"
    and "set path \<subseteq> dom (nodes T)"
  shows "ext T T' \<and> has T' rt' \<and> (rt' \<noteq> Nil_id \<longrightarrow> step T T')"
proof -
  obtain p path1 e1 p1 rt1 T1 n T2 T3 where s: "pop_front path = Some (p, path1)"
    "delete_loop e p path1 rt T = Some (e1, p1, rt1, T1)" "own_copy e1 T1 = Some (n, T2)"
    "transplant p1 e1 n rt1 T2 = Some (rt', T3)" "(if n \<noteq> Nil_id then set_red n False T3 else Some T3) = Some T'"
    using assms(1) unfolding balance_delete_def run_simps by blast
  note pp = pop_has [OF s(1) assms(5)]
  have 1: "step T T1 \<and> has T1 e1 \<and> has T1 rt1 \<and> (e1 = Nil_id \<longrightarrow> rt1 = Nil_id)"
    by (rule delete_loop_step [OF s(2) assms(2,3) _ assms(4)]) (use pp in blast)+
  then have c1: "step T T1" "conf T1" using step_conf by blast+
  note 2 = own_copy_ext [OF s(3) c1(2)]
  have rt: "has T2 rt1" using ext_has [OF 2(1)] 1 by blast
  note 3 = transplant_step [OF s(4) ext_conf [OF 2(1)] 2(2) rt]
  have 4: "step T3 T'" using s(5) set_red_step(1) [OF _ step_conf [OF 3(1)]] step_conf [OF 3(1)] by (auto split: if_splits)
  note 5 = step_trans [OF 3(1) 4]
  have "e1 \<noteq> Nil_id" if "rt' \<noteq> Nil_id" using that 3(3) 2(3) 1 by (auto split: if_splits)
  then have "rt' \<noteq> Nil_id \<longrightarrow> step T T'" using 2(4) c1(1) 5 step_trans by blast
  moreover have "ext T T'" using ext_trans [OF step_ext [OF c1(1)] ext_trans [OF 2(1) step_ext [OF 5]]] .
  ultimately show ?thesis using step_has [OF 4 3(2)] by blast
qed

lemma delete_none_same:
  fixes T :: "('k::linorder, 'v) ptree"
  assumes "delete_recursive T path k n = Some (rt, path', T')" and "rt = None"
  shows "T' = T"
proof -
  let ?P = "\<lambda>(T :: ('k, 'v) ptree) (path :: nat list) (k :: 'k) (n :: nat) (rt :: nat option, path' :: nat list, T'). rt = None \<longrightarrow> T' = T"
  have "?P T path k n (rt, path', T')"
  proof (rule delete_recursive.raw_induct [where P = ?P, OF _ assms(1)], goal_cases)
    case (1 f T path k n r)
    from 1(2) show ?case using 1(1) by (auto split: if_splits option.splits prod.splits)
  qed
  then show ?thesis using assms(2) by simp
qed

section \<open>The operations\<close>

text \<open>Unlinking the removed node, with its three cases: it is replaced by its right child, by its left child, or its
  payload by that of its successor, which is unlinked instead.\<close>

lemma unlink_step:
  assumes "(if l = Nil_id then do {
                (_, path) \<leftarrow> pop_front path; f \<leftarrow> front path;
                (rt, T) \<leftarrow> transplant f removed right rt T;
                Some (removed, right, path, rt, T) }
              else if right = Nil_id then do {
                (_, path) \<leftarrow> pop_front path; f \<leftarrow> front path;
                (rt, T) \<leftarrow> transplant f removed l rt T;
                Some (removed, l, path, rt, T) }
              else do {
                T \<leftarrow> own_child DR removed T;
                r \<leftarrow> child_ref DR removed T;
                (removed', path, T) \<leftarrow> build_min_path r path T;
                transplanted \<leftarrow> child_ref DR removed' T;
                T \<leftarrow> steal_payload removed removed' T;
                f \<leftarrow> front path;
                (rt, T) \<leftarrow> transplant f removed' transplanted rt T;
                Some (removed', transplanted, path, rt, T) }) = Some (rem, t, path', rt', T')"
    and "conf T" and "has T l" and "child_ref DR removed T = Some right" and "has T rt" and "set path \<subseteq> dom (nodes T)"
  shows "step T T' \<and> has T' t \<and> has T' rt' \<and> set path' \<subseteq> dom (nodes T')"
proof -
  have side: "step T T' \<and> has T' t \<and> has T' rt' \<and> set path' \<subseteq> dom (nodes T')"
    if "pop_front path = Some (x, path')" "transplant f removed t rt T = Some (rt', T')" "has T t" for x f
  proof -
    note q = transplant_step [OF that(2) assms(2) that(3) assms(5)]
    show ?thesis using q(1,2) step_has [OF q(1) that(3)] step_path [OF q(1)] pop_has [OF that(1) assms(6)] by blast
  qed
  have right: "has T right" by (rule conf_child_ref [OF assms(2,4)])
  consider (right) x f where "pop_front path = Some (x, path')" "transplant f removed right rt T = Some (rt', T')" "t = right"
    | (left) x f where "pop_front path = Some (x, path')" "transplant f removed l rt T = Some (rt', T')" "t = l"
    | (min) T1 r m T2 T3 f where "right \<noteq> Nil_id" "own_child DR removed T = Some T1" "child_ref DR removed T1 = Some r"
      "build_min_path r path T1 = Some (m, path', T2)" "child_ref DR m T2 = Some t"
      "steal_payload removed m T2 = Some T3" "transplant f m t rt T3 = Some (rt', T')"
    using assms(1) by (auto split: if_splits)
  then show ?thesis
  proof cases
    case right
    then show ?thesis using side right assms(4) conf_child_ref [OF assms(2)] by blast
  next
    case left
    then show ?thesis using side assms(3) by blast
  next
    case min
    have 1: "step T T1" by (rule own_child_step [OF min(2) assms(2,4) min(1)])
    have 2: "step T1 T2 \<and> has T2 m \<and> set path' \<subseteq> dom (nodes T2)"
      by (rule build_min_path_step [OF min(4) step_conf [OF 1] conf_child_ref [OF step_conf [OF 1] min(3)] step_path [OF 1 assms(6)]])
    have c2: "conf T2" using 2 step_conf by blast
    note 3 = steal_payload_step [OF min(6) c2]
    have 4: "step T T3" using step_trans [OF 1 step_trans [OF _ 3]] 2 by blast
    note q = transplant_step [OF min(7) step_conf [OF 3] step_has [OF 3 conf_child_ref [OF c2 min(5)]] step_has [OF 4 assms(5)]]
    have "set path' \<subseteq> dom (nodes T')" by (rule step_path [OF step_trans [OF 3 q(1)]]) (use 2 in blast)
    then show ?thesis
      using step_trans [OF 4 q(1)] q(2) step_has [OF step_trans [OF 3 q(1)] conf_child_ref [OF c2 min(5)]] by blast
  qed
qed

lemma conf_root [simp]: "conf (T\<lparr>root := r\<rparr>) = conf T"
  by (simp add: conf_def)

lemma step_root [simp]: "step T (T'\<lparr>root := r\<rparr>) = step T T'" "ext T (T'\<lparr>root := r\<rparr>) = ext T T'"
  by (simp_all add: step_def ext_def)

lemma Delete_ext:
  assumes "Delete k T = Some T'" and "conf T" and "base_root T = Some b" and "has T b"
  shows "ext T T' \<and> (step T T' \<or> root T' = Some Nil_id) \<and> (T' = T \<or> (\<exists>r. root T' = Some r \<and> has T' r))"
proof -
  obtain rt path T1 where d: "delete_recursive T [] k b = Some (rt, path, T1)"
    using assms(1,3) unfolding Delete_def run_simps by auto
  have 1: "step T T1 \<and> set path \<subseteq> dom (nodes T1) \<and> (\<forall>x. rt = Some x \<longrightarrow> has T1 x)"
    by (rule delete_recursive_step [OF d assms(2,4)]) simp
  have c1: "conf T1" using 1 step_conf by blast
  show ?thesis
  proof (cases rt)
    case None
    then have "T' = T1" using assms(1,3) d by (simp add: Delete_def)
    moreover have "T1 = T" using d None by (rule delete_none_same)
    ultimately show ?thesis using assms(2) by (simp add: step_ext)
  next
    case (Some x)
    obtain removed rd right l rem t path' rt1 T2 c rt2 T3 where s: "front (path @ [Nil_id]) = Some removed"
      "nodes T1 removed = Some rd" "np_ref (nd_right rd) = Some right" "np_ref (nd_left rd) = Some l"
      "(if l = Nil_id then do {
                (_, path) \<leftarrow> pop_front (path @ [Nil_id]); f \<leftarrow> front path;
                (rt, T) \<leftarrow> transplant f removed right x T1;
                Some (removed, right, path, rt, T) }
              else if right = Nil_id then do {
                (_, path) \<leftarrow> pop_front (path @ [Nil_id]); f \<leftarrow> front path;
                (rt, T) \<leftarrow> transplant f removed l x T1;
                Some (removed, l, path, rt, T) }
              else do {
                T \<leftarrow> own_child DR removed T1;
                r \<leftarrow> child_ref DR removed T;
                (removed', path, T) \<leftarrow> build_min_path r (path @ [Nil_id]) T;
                transplanted \<leftarrow> child_ref DR removed' T;
                T \<leftarrow> steal_payload removed removed' T;
                f \<leftarrow> front path;
                (rt, T) \<leftarrow> transplant f removed' transplanted x T;
                Some (removed', transplanted, path, rt, T) }) = Some (rem, t, path', rt1, T2)"
      "(if \<not> c then balance_delete t path' rt1 T2 else Some (rt1, T2)) = Some (rt2, T3)" "T' = T3\<lparr>root := Some rt2\<rparr>"
      using assms(1) unfolding Delete_def assms(3) Option.bind.bind_lunit d Some prod.case option.case Let_def
      unfolding run_simps by blast
    have l: "has T1 l" "child_ref DR removed T1 = Some right"
      using conf_kids(1) [OF c1 s(2,4)] s(2,3) by (simp_all add: child_ref_def del: domIff)
    have 2: "step T1 T2 \<and> has T2 t \<and> has T2 rt1 \<and> set path' \<subseteq> dom (nodes T2)"
      by (rule unlink_step [OF s(5) c1 l]) (use 1 Some conf_nil [OF c1] in auto)
    then have c2: "conf T2" using step_conf by blast
    have 3: "ext T2 T3 \<and> has T3 rt2 \<and> (rt2 \<noteq> Nil_id \<longrightarrow> step T2 T3)"
    proof (cases c)
      case True
      then show ?thesis using s(6) 2 c2 by (simp add: step_ext)
    next
      case False
      then have "balance_delete t path' rt1 T2 = Some (rt2, T3)" using s(6) by simp
      from balance_delete_ext [OF this c2] 2 show ?thesis by blast
    qed
    have "step T T2" using 1 2 step_trans by blast
    then have "ext T T3" "rt2 \<noteq> Nil_id \<longrightarrow> step T T3" using 3 ext_trans step_ext step_trans by blast+
    then show ?thesis using 3 s(7) by auto
  qed
qed

lemma insert_none_same:
  fixes T :: "('k::linorder, 'v) ptree"
  assumes "insert_recursive T path k v n = Some (rt, path', T')" and "rt = None"
  shows "T' = T"
proof -
  let ?P = "\<lambda>(T :: ('k, 'v) ptree) (path :: nat list) (k :: 'k) (v :: 'v) (n :: nat) (rt :: nat option, path' :: nat list, T').
    rt = None \<longrightarrow> T' = T"
  have "?P T path k v n (rt, path', T')"
  proof (rule insert_recursive.raw_induct [where P = ?P, OF _ assms(1)], goal_cases)
    case (1 f T path k v n r)
    from 1(2) show ?case using 1(1) by (auto split: if_splits option.splits prod.splits)
  qed
  then show ?thesis using assms(2) by simp
qed

lemma Put_ext:
  assumes "Put k v T = Some T'" and "conf T" and "base_root T = Some b" and "has T b"
  shows "ext T T' \<and> (step T T' \<or> (\<exists>T1. Delete k T = Some T1 \<and> \<not> step T T1))"
proof -
  obtain rt path T1 rt1 path1 T2 nn path2 p path3 rt2 T3 T4 where i: "insert_recursive T [] k v b = Some (rt, path, T1)"
    "(case rt of
        Some rt \<Rightarrow> Some (rt, path, T1)
      | None \<Rightarrow> do { T \<leftarrow> Delete k T1; b \<leftarrow> root T; (rt, path, T) \<leftarrow> insert_recursive T [] k v b; rt \<leftarrow> rt; Some (rt, path, T) }) =
      Some (rt1, path1, T2)" "pop_front (path1 @ [Nil_id]) = Some (nn, path2)" "pop_front path2 = Some (p, path3)"
      "insert_loop p nn path3 rt1 T2 = Some (rt2, T3)" "set_red rt2 False T3 = Some T4" "T' = T4\<lparr>root := Some rt2\<rparr>"
    using assms(1) unfolding Put_def assms(3) Option.bind.bind_lunit Let_def
    unfolding run_simps by blast
  have 2: "ext T T2 \<and> (step T T2 \<or> (\<exists>T1. Delete k T = Some T1 \<and> \<not> step T T1)) \<and> has T2 rt1 \<and> set path1 \<subseteq> dom (nodes T2)"
  proof (cases rt)
    case None
    have e: "T1 = T" by (rule insert_none_same [OF i(1) None])
    obtain D b1 where d: "Delete k T = Some D" "root D = Some b1" "insert_recursive D [] k v b1 = Some (Some rt1, path1, T2)"
      using i(2) None e by auto
    have 1: "ext T D" "T = D \<or> has D b1" using Delete_ext [OF d(1) assms(2-4)] d(2) by auto
    have "has D b1" using 1(2) d(2) assms(3,4) by (auto simp: base_root_def)
    from insert_recursive_step [OF d(3) ext_conf [OF 1(1)] this]
    have q: "step D T2" "has T2 rt1" "set path1 \<subseteq> dom (nodes T2)" by auto
    have "step T T2 \<or> \<not> step T D" using q(1) step_trans by blast
    then show ?thesis using ext_trans [OF 1(1) step_ext [OF q(1)]] q(2,3) d(1) by blast
  next
    case (Some x)
    then have "rt1 = x" "path1 = path" "T2 = T1" using i(2) by simp_all
    then show ?thesis using insert_recursive_step [OF i(1) assms(2,4)] Some step_ext by auto
  qed
  then have c2: "conf T2" using ext_conf by blast
  have "set (path1 @ [Nil_id]) \<subseteq> dom (nodes T2)" using 2 conf_nil [OF c2] by auto
  then have p: "has T2 nn" "has T2 p" "set path3 \<subseteq> dom (nodes T2)" using pop_has [OF i(3), of T2] pop_has [OF i(4), of T2] by blast+
  have 3: "step T2 T3 \<and> has T3 rt2" by (rule insert_loop_step [OF i(5) c2 p(2,1) _ p(3)]) (use 2 in blast)
  then have "step T3 T4" using set_red_step(1) [OF i(6)] step_conf by blast
  then have "step T2 T4" using 3 step_trans by blast
  then show ?thesis unfolding i(7) step_root using 2 step_trans ext_trans step_ext by blast
qed

lemma copy_recursive_step:
  fixes T :: "('k::linorder, 'v) ptree"
  assumes "copy_recursive T k n = Some (rt, T')" and "conf T" and "has T n"
  shows "step T T' \<and> (\<forall>x. rt = Some x \<longrightarrow> has T' x)"
proof -
  let ?P = "\<lambda>(T :: ('k, 'v) ptree) (k :: 'k) n (rt :: nat option, T'). conf T \<longrightarrow> has T n \<longrightarrow>
    step T T' \<and> (\<forall>x. rt = Some x \<longrightarrow> has T' x)"
  have "?P T k n (rt, T')"
  proof (rule copy_recursive.raw_induct [where P = ?P, OF _ assms(1)])
    fix f n r and T :: "('k, 'v) ptree" and k :: 'k
    assume IH: "\<And>T k n r. f T k n = Some r \<Longrightarrow> ?P T k n r"
      and eq: "(if n = Nil_id then Some (None, T)
      else do {
        nd \<leftarrow> nodes T n;
        if k = nd_key nd then
          (if nd_rid nd = rid T then Some (None, T)
           else do { (copy, T) \<leftarrow> fresh_copy n T; Some (Some copy, T) })
        else do {
          c \<leftarrow> (if k < nd_key nd then np_ref (nd_left nd) else np_ref (nd_right nd));
          (ch, T) \<leftarrow> f T k c;
          case ch of
            None \<Rightarrow> Some (None, T)
          | Some ch \<Rightarrow> do {
              (copy, T) \<leftarrow> own_copy n T;
              T \<leftarrow> set_ref (if k < nd_key nd then DL else DR) copy ch T;
              Some (Some copy, T) } } }) = Some r"
    show "?P T k n r"
    proof (cases r, clarsimp simp del: domIff)
      fix rt T' y
      assume r: "r = (rt, T')" and T: "conf T" "nodes T n = Some y"
      consider (stop) "r = (None, T)"
        | (hit) copy T1 where "n \<noteq> Nil_id" "fresh_copy n T = Some (copy, T1)" "r = (Some copy, T1)"
        | (down) c ch T1 where "n \<noteq> Nil_id" "np_ref (child (if k < nd_key y then DL else DR) y) = Some c"
          "f T k c = Some (ch, T1)"
          "(case ch of None \<Rightarrow> Some (None, T1)
            | Some ch \<Rightarrow> do { (copy, T) \<leftarrow> own_copy n T1; T \<leftarrow> set_ref (if k < nd_key y then DL else DR) copy ch T;
                Some (Some copy, T) }) = Some r"
        using eq T(2) by (auto split: if_splits)
      then show "step T T' \<and> (\<forall>x. rt = Some x \<longrightarrow> has T' x)"
      proof cases
        case stop
        then show ?thesis using r T by simp
      next
        case hit
        show ?thesis using fresh_copy_step [OF hit(2) T(1) hit(1)] hit(3) r by simp
      next
        case down
        have 1: "step T T1" "\<And>x. ch = Some x \<Longrightarrow> has T1 x"
          using IH [OF down(3)] T(1) conf_child [OF T(1,2) down(2)] by auto
        show ?thesis
        proof (cases ch)
          case None
          then show ?thesis using down(4) r 1 by simp
        next
          case (Some x)
          then obtain copy T2 where s: "own_copy n T1 = Some (copy, T2)"
            "set_ref (if k < nd_key y then DL else DR) copy x T2 = Some T'" "rt = Some copy"
            using down(4) r by auto
          note q = relink_step [OF s(1,2) step_conf [OF 1(1)] down(1) 1(2) [OF Some]]
          show ?thesis using step_trans [OF 1(1) q(1)] q(2) s(3) by simp
        qed
      qed
    qed
  qed
  then show ?thesis using assms(2,3) by simp
qed

section \<open>Tree objects\<close>

lemma denotes_base: "denotes T t \<Longrightarrow> conf T \<Longrightarrow> base_root T = Some (tid t) \<and> has T (tid t)"
  using conf_nil [of T] by (cases t) (auto simp: denotes_def)

text \<open>A write conforms, and records nil only if it takes the last entry away.\<close>

lemma Delete_conf:
  assumes "denotes T t" and "conf T" and "Delete k T = Some T'"
  shows "conf T'" "del_list k (inorder t) \<noteq> [] \<or> inorder t = [] \<Longrightarrow> step T T'"
proof -
  obtain t' where t': "denotes T' t'" "inorder t' = del_list k (inorder t)"
    using Delete_denotes [OF assms(1), of k] assms(3) by (metis option.inject)
  have D: "ext T T' \<and> (step T T' \<or> root T' = Some Nil_id) \<and> (T' = T \<or> (\<exists>r. root T' = Some r \<and> has T' r))"
    by (rule Delete_ext [OF assms(3,2)]) (use denotes_base [OF assms(1,2)] in blast)+
  then show "conf T'" using ext_conf by blast
  show "step T T'" if c: "del_list k (inorder t) \<noteq> [] \<or> inorder t = []"
  proof (cases "inorder t = []")
    case True
    then show ?thesis using Delete_absent [OF assms(1), of k] assms(2,3) by simp
  next
    case False
    then have "t' \<noteq> Lf" using c t'(2) by auto
    then have "tid t' \<noteq> Nil_id" using t'(1) tid_zero_iff by (auto simp: denotes_def)
    then have "root T' \<noteq> Some Nil_id" using t'(1) by (auto simp: denotes_def base_root_def)
    then show ?thesis using D by blast
  qed
qed

lemma Put_conf:
  assumes "denotes T t" and "conf T" and "Put k v T = Some T'"
  shows "conf T'" "del_list k (inorder t) \<noteq> [] \<or> inorder t = [] \<Longrightarrow> step T T'"
proof -
  have D: "ext T T' \<and> (step T T' \<or> (\<exists>T1. Delete k T = Some T1 \<and> \<not> step T T1))"
    by (rule Put_ext [OF assms(3,2)]) (use denotes_base [OF assms(1,2)] in blast)+
  then show "conf T'" using ext_conf by blast
  show "step T T'" if "del_list k (inorder t) \<noteq> [] \<or> inorder t = []"
    using D Delete_conf(2) [OF assms(1,2) _ that] by blast
qed

lemma Copy_conf:
  assumes "denotes T t" and "conf T" and "Copy k T = Some T'"
  shows "step T T'"
proof -
  obtain rt T1 where c: "copy_recursive T k (tid t) = Some (rt, T1)" "T' = (case rt of None \<Rightarrow> T1 | Some r \<Rightarrow> T1\<lparr>root := Some r\<rparr>)"
    using assms(1,3) by (auto simp: Copy_def denotes_def split: option.splits)
  have "step T T1" using copy_recursive_step [OF c(1) assms(2)] denotes_base [OF assms(1,2)] by blast
  then show ?thesis using c(2) by (simp split: option.split)
qed

text \<open>The heaps between transactions are those that conform.\<close>

lemma heap_ok_conf: "heap_ok H \<Longrightarrow> conf H"
  unfolding heap_ok_def conf_def is_nil_node_def by blast

lemma conf_new_ptree: "conf (new_ptree H p r i) = conf H"
  by (simp add: conf_def)

section \<open>Property\<close>



end
