(* ===== verification/AfterImageHeap.thy ===== *)
theory AfterImageHeap
  imports AfterImageProps TreeRefs
begin

text \<open>
  What a commit does to the heap. Giving the new nodes their rid and their addresses keeps every reference, so the
  heap of a committed tree is again a heap that transactions can start from, and the rids of its nodes are the one
  of the intention, for the new nodes, and the ones they had before.
\<close>

section \<open>Addresses and rids\<close>

text \<open>\<open>T'\<close> has the nodes of \<open>T\<close> with other addresses in their pointers.\<close>

definition readdressed :: "('k, 'v) ptree \<Rightarrow> ('k, 'v) ptree \<Rightarrow> bool" where
  "readdressed T T' \<longleftrightarrow>
     next_node T' = next_node T \<and> rid T' = rid T \<and> nodes T' Nil_id = nodes T Nil_id \<and>
     dom (nodes T') = dom (nodes T) \<and>
     (\<forall>i nd'. nodes T' i = Some nd' \<longrightarrow>
        (\<exists>nd. nodes T i = Some nd \<and> nd_rid nd' = nd_rid nd \<and> (\<forall>d. np_ref (child d nd') = np_ref (child d nd))))"

lemma readdressed_refl: "readdressed T T"
  by (simp add: readdressed_def)

lemma readdressed_trans: "readdressed T T1 \<Longrightarrow> readdressed T1 T2 \<Longrightarrow> readdressed T T2"
  unfolding readdressed_def by (intro conjI allI impI) (simp_all, metis)

lemma infect_node_ptr_readdressed:
  assumes "infect_node_ptr pos d n off T = Some T'" and "n \<noteq> Nil_id"
  shows "readdressed T T'"
proof -
  consider "T' = T" | nd where "nodes T n = Some nd"
    "T' = put_node n (set_child d (SetIntentionAddress pos (word_of_int off) (child d nd)) nd) T"
    using assms(1) by (auto simp: infect_node_ptr_def upd_node_def split: if_splits option.splits)
  then show ?thesis
  proof cases
    case 2
    then show ?thesis
      using assms(2) by (auto simp: readdressed_def child_dir_cases SetIntentionAddress_def split: if_splits)
  qed (simp add: readdressed_refl)
qed

lemma infect_after_image_readdressed:
  fixes T :: "('k, 'v) ptree"
  assumes "infect_after_image n pos k T = Some (k', T')"
  shows "readdressed T T'"
proof -
  let ?P = "\<lambda>(n :: nat) (pos :: u64) (k :: int) (T :: ('k, 'v) ptree) (k' :: int, T'). readdressed T T'"
  have "?P n pos k T (k', T')"
  proof (rule infect_after_image.raw_induct [where P = ?P, OF _ assms])
    fix f n pos k r and T :: "('k, 'v) ptree"
    assume IH: "\<And>n pos k T r. f n pos k T = Some r \<Longrightarrow> ?P n pos k T r"
      and eq: "do { r \<leftarrow> get_rid n T;
     if n = Nil_id \<or> r \<noteq> rid T then Some (k, T)
     else do {
       l \<leftarrow> child_ref DL n T;
       (field_index, T) \<leftarrow> f l pos k T;
       let lo = field_index - 1;
       q \<leftarrow> child_ref DR n T;
       (field_index, T) \<leftarrow> f q pos field_index T;
       let ro = field_index - 1;
       T \<leftarrow> infect_node n pos lo ro T;
       Some (field_index + 1, T) } } = Some r"
    obtain k' T' where r: "r = (k', T')" by (cases r)
    consider (leaf) "T' = T" | (node) l k1 T1 q k2 T2 T3 where "n \<noteq> Nil_id" "f l pos k T = Some (k1, T1)"
      "f q pos k1 T1 = Some (k2, T2)" "infect_node_ptr pos DL n (k1 - 1) T2 = Some T3"
      "infect_node_ptr pos DR n (k2 - 1) T3 = Some T'"
      using eq r by (auto simp: infect_node_def Let_def split: if_splits)
    then show "?P n pos k T r"
    proof cases
      case leaf
      then show ?thesis using r by (simp add: readdressed_refl)
    next
      case node
      have "readdressed T T1" "readdressed T1 T2" using IH [OF node(2)] IH [OF node(3)] by simp_all
      then have "readdressed T T'"
        using infect_node_ptr_readdressed [OF node(4,1)] infect_node_ptr_readdressed [OF node(5,1)]
        by (blast intro: readdressed_trans)
      then show ?thesis using r by simp
    qed
  qed
  then show ?thesis by simp
qed

lemma switch_rids_nodes:
  assumes "switch_rids expect pos ns T = Some T'"
  shows "next_node T' = next_node T \<and> root T' = root T \<and>
    (\<forall>i. nodes T' i = (if i \<in> set ns then map_option (\<lambda>nd. nd\<lparr>nd_rid := sint pos\<rparr>) (nodes T i) else nodes T i)) \<and>
    (\<forall>i \<in> set ns. \<exists>nd. nodes T i = Some nd \<and> \<not> nd_read_only nd)"
  using assms
proof (induction ns arbitrary: T)
  case (Cons n ns)
  obtain nd where nd: "nodes T n = Some nd" "\<not> nd_read_only nd"
    "switch_rids expect pos ns (put_node n (nd\<lparr>nd_rid := sint pos\<rparr>) T) = Some T'"
    using Cons.prems by (auto simp: set_rid_def upd_node_def split: if_splits)
  from Cons.IH [OF nd(3)] nd(1,2) show ?case by (auto split: if_splits)
qed simp

text \<open>The heap after \<^verbatim>\<open>infect_self_pointers\<close>.\<close>

lemma infect_self_pointers_heap:
  assumes "infect_self_pointers pos expect T = Some (x, T')" and "root T = Some n" and "heap_ok (heap.truncate T)"
  shows "heap_ok (heap.truncate T')"
    "nodes T' i = Some nd' \<Longrightarrow>
      if i \<in> set (fresh_nodes T) then nd_rid nd' = sint pos else \<exists>nd. nodes T i = Some nd \<and> nd_rid nd' = nd_rid nd"
proof -
  obtain T1 where s1: "switch_rids expect pos (fresh_nodes T) T = Some T1"
    using assms(1) by (auto simp: infect_self_pointers_def)
  have rt: "root (T1\<lparr>rid := sint pos\<rparr>) = Some n" using switch_rids_nodes [OF s1] assms(2) by simp
  obtain k where s: "switch_rids expect pos (fresh_nodes T) T = Some T1"
    "infect_after_image n pos 0 (T1\<lparr>rid := sint pos\<rparr>) = Some (k, T')"
    using assms(1) unfolding infect_self_pointers_def s1 Option.bind.bind_lunit Let_def rt option.case guard_Some
    unfolding run_simps using s1 by auto
  note S = switch_rids_nodes [OF s(1)]
  note I = infect_after_image_readdressed [OF s(2), unfolded readdressed_def]
  have J: "\<exists>nd. nodes T1 j = Some nd \<and> nd_rid nd' = nd_rid nd \<and> (\<forall>d. np_ref (child d nd') = np_ref (child d nd))"
    if "nodes T' j = Some nd'" for j nd'
    using I that by simp
  have H: "\<exists>nd. nodes T Nil_id = Some nd \<and> is_nil_node nd" "0 < next_node T" "\<And>i. next_node T \<le> i \<Longrightarrow> nodes T i = None"
    "\<And>i nd d q. nodes T i = Some nd \<Longrightarrow> np_ref (child d nd) = Some q \<Longrightarrow> nodes T q \<noteq> None"
    using assms(3) by (simp_all add: heap_ok_def heap.defs)
  have nil: "Nil_id \<notin> set (fresh_nodes T)" using S H(1) by (auto simp: is_nil_node_def)
  have N: "\<exists>nd. nodes T j = Some nd \<and>
      nd_rid nd' = (if j \<in> set (fresh_nodes T) then sint pos else nd_rid nd) \<and> (\<forall>d. np_ref (child d nd') = np_ref (child d nd))"
    if j: "nodes T' j = Some nd'" for j nd'
  proof -
    obtain nd1 where nd1: "nodes T1 j = Some nd1" "nd_rid nd' = nd_rid nd1" "\<forall>d. np_ref (child d nd') = np_ref (child d nd1)"
      using J [OF j] by blast
    have "nodes T1 j = (if j \<in> set (fresh_nodes T) then map_option (\<lambda>nd. nd\<lparr>nd_rid := sint pos\<rparr>) (nodes T j) else nodes T j)"
      using S by blast
    then obtain nd where "nodes T j = Some nd" "nd1 = (if j \<in> set (fresh_nodes T) then nd\<lparr>nd_rid := sint pos\<rparr> else nd)"
      using nd1(1) by (cases "nodes T j") (simp_all split: if_splits)
    then show ?thesis using nd1(2,3) by simp
  qed
  have dom: "nodes T' j = None \<longleftrightarrow> nodes T j = None" for j
  proof -
    have "dom (nodes T') = dom (nodes T1)" using I by simp
    then have "nodes T' j = None \<longleftrightarrow> nodes T1 j = None" by (metis domIff)
    then show ?thesis using S by simp
  qed
  show "heap_ok (heap.truncate T')"
    unfolding heap_ok_def heap.defs heap.simps
  proof (intro conjI allI impI)
    show "\<exists>nd. nodes T' Nil_id = Some nd \<and> is_nil_node nd" using H(1) I S nil by simp
    show "0 < next_node T'" using I S H(2) by simp
    show "nodes T' j = None" if "next_node T' \<le> j" for j using that I S H(3) dom by simp
    show "nodes T' q \<noteq> None" if "nodes T' j = Some nd' \<and> np_ref (child d nd') = Some q" for j nd' d q
      using N [of j nd'] H(4) dom that by metis
  qed
  show "if i \<in> set (fresh_nodes T) then nd_rid nd' = sint pos else \<exists>nd. nodes T i = Some nd \<and> nd_rid nd' = nd_rid nd"
    if "nodes T' i = Some nd'"
    using N [OF that] by auto
qed

end
