(* ===== verification/DBProps.thy ===== *)
theory DBProps
  imports DBImpl AfterImageHeap
begin

text \<open>
  The database: keys of the committed-intention index, what replaying an intention does, conflict zones,
  the refinement of the transaction processor to an abstract database, and the checks and scans of the
  tree.
\<close>

section \<open>Decimal keys\<close>

text \<open>The last \<open>k\<close> decimal digits.\<close>

fun digits :: "nat \<Rightarrow> nat \<Rightarrow> string" where
  "digits 0 n = []"
| "digits (Suc k) n = digits k (n div 10) @ [digit_char (n mod 10)]"

lemma length_digits [simp]: "length (digits k n) = k"
  by (induction k arbitrary: n) auto

lemma digits_0: "digits k 0 = replicate k (CHR ''0'')"
proof (induction k)
  case (Suc k)
  have "digit_char 0 = CHR ''0''" by code_simp
  then show ?case using Suc by (simp add: replicate_append_same)
qed simp

lemma decimal_digits:
  assumes "n < 10 ^ Suc k"
  shows "length (decimal n) \<le> Suc k \<and> replicate (Suc k - length (decimal n)) (CHR ''0'') @ decimal n = digits (Suc k) n"
  using assms
proof (induction k arbitrary: n)
  case 0
  then show ?case by (simp add: decimal.simps [of n])
next
  case (Suc k)
  show ?case
  proof (cases "n < 10")
    case True
    then show ?thesis
      using digits_0 [of "Suc k"] by (simp add: decimal.simps [of n])
  next
    case False
    have "n div 10 < 10 ^ Suc k" using Suc.prems by (simp add: div_less_iff_less_mult mult.commute)
    from Suc.IH [OF this] False show ?thesis
      by (subst (1 2 3) decimal.simps [of n]) (auto simp del: digits.simps simp: digits.simps(2) [of "Suc k" n])
  qed
qed

lemma unat_bound_64: "unat (p :: u64) < 2 ^ 64"
proof -
  have "unat p < 2 ^ LENGTH(64)" by (rule unsigned_less)
  then show ?thesis by simp
qed

lemma unat_bound_20: "unat (p :: u64) < 10 ^ 20"
  using unat_bound_64 [of p] by (rule order_less_trans) simp

lemma setw20_digits: "setw20 pos = digits 20 (unat pos)"
  using decimal_digits [of "unat pos" 19] unat_bound_20 [of pos]
  by (simp add: setw20_def Let_def del: digits.simps)

lemma snoc_less:
  fixes xs ys :: "'a::linorder list"
  assumes "length xs = length ys"
  shows "xs @ [a] < ys @ [b] \<longleftrightarrow> xs < ys \<or> xs = ys \<and> a < b"
  using assms by (induction xs ys rule: list_induct2) auto

lemma digit_char_less: "d < e \<Longrightarrow> e < 10 \<Longrightarrow> digit_char d < digit_char e"
  by (simp add: digit_char_def less_char_def)

lemma digits_less: "n < m \<Longrightarrow> m < 10 ^ k \<Longrightarrow> digits k n < digits k m"
proof (induction k arbitrary: n m)
  case (Suc k)
  have "n div 10 < m div 10 \<or> n div 10 = m div 10 \<and> n mod 10 < m mod 10"
    using Suc.prems(1) by (metis div_le_mono le_neq_implies_less less_imp_le linorder_neqE_nat
        mod_less_eq_dividend div_mult_mod_eq add_less_cancel_left not_less_iff_gr_or_eq)
  moreover have "m div 10 < 10 ^ k" using Suc.prems(2) by (simp add: div_less_iff_less_mult mult.commute)
  ultimately show ?case
    using Suc.IH digit_char_less [of "n mod 10" "m mod 10"] by (auto simp: snoc_less)
qed simp

lemma setw20_less: "setw20 p < setw20 q \<longleftrightarrow> p < q"
proof -
  have l: "setw20 p < setw20 q" if "p < q" for p q
    unfolding setw20_digits
    using that unat_bound_20 by (intro digits_less) (simp add: word_less_nat_alt)
  then show ?thesis by (metis order_less_asym linorder_less_linear)
qed

lemma setw20_inj: "setw20 p = setw20 q \<longleftrightarrow> p = q"
  by (metis setw20_less order_less_irrefl linorder_less_linear)

lemma parse_append: "parse_digits (xs @ ys) n = do { n \<leftarrow> parse_digits xs n; parse_digits ys n }"
  by (induction xs arbitrary: n) auto

lemma parse_digits_digits: "n < 10 ^ k \<Longrightarrow> parse_digits (digits k n) a = Some (a * 10 ^ k + n)"
proof (induction k arbitrary: n)
  case (Suc k)
  have "n div 10 < 10 ^ k" using Suc.prems by (simp add: div_less_iff_less_mult mult.commute)
  moreover have "of_char (digit_char (n mod 10)) = 48 + n mod 10"
    by (simp add: digit_char_def)
  moreover have "10 * (a * 10 ^ k + n div 10) + n mod 10 = a * 10 ^ Suc k + n"
    by (simp add: algebra_simps)
  ultimately show ?case using Suc.IH by (simp add: parse_append)
qed simp

lemma lexical_cast_setw20 [simp]: "lexical_cast (setw20 p) = Some p"
proof -
  have "setw20 p \<noteq> []" unfolding setw20_digits by (metis length_digits list.size(3) zero_neq_numeral)
  moreover note unat_bound_64 [of p]
  ultimately show ?thesis
    using parse_digits_digits [OF unat_bound_20, of p 0]
    by (simp add: lexical_cast_def setw20_digits del: digits.simps)
qed


section \<open>What an intention does\<close>

text \<open>The effect of a list of operations on the map of the database.\<close>

fun apply_ops :: "tx_op list \<Rightarrow> (string \<rightharpoonup> string) \<Rightarrow> (string \<rightharpoonup> string)" where
  "apply_ops [] m = m"
| "apply_ops (p # ps) m =
     apply_ops ps (case op_type p of
        PUT \<Rightarrow> m(op_key p := op_val p)
      | DELETE \<Rightarrow> m(prefix_string PREFIX_USER (op_key p) := None)
      | _ \<Rightarrow> m)"

text \<open>Messages as transactions make them: a value exactly for the stores, which are under the prefix of the user's
  keys. The first intention of a log, which \<^verbatim>\<open>DB::Open\<close> writes together with its after image, is not one of them.\<close>

fun op_ok :: "tx_op \<Rightarrow> bool" where
  "op_ok p \<longleftrightarrow> (op_type p = PUT) = (op_val p \<noteq> None) \<and> (op_type p = PUT \<longrightarrow> has_prefix PREFIX_USER (op_key p))"

lemma apply_ops_append: "apply_ops (ps @ qs) m = apply_ops qs (apply_ops ps m)"
  by (induction ps arbitrary: m) simp_all

lemma apply_ops_other:
  "\<forall>p \<in> set ops. op_ok p \<Longrightarrow> \<not> has_prefix PREFIX_USER k \<Longrightarrow> apply_ops ops m k = m k"
proof (induction ops arbitrary: m)
  case (Cons p ops)
  then have "op_key p \<noteq> k" if "op_type p = PUT" using that by auto
  moreover have "prefix_string PREFIX_USER (op_key p) \<noteq> k" using Cons.prems(2) has_prefix_iff by metis
  ultimately show ?case using Cons by (auto split: op_type.split)
qed simp

text \<open>A tree object on its way through the operations of an intention: it stands for \<open>m\<close>, its heap conforms, and nil
  is not recorded among the new nodes.\<close>

definition replaying :: "(string, string) ptree \<Rightarrow> (string \<rightharpoonup> string) \<Rightarrow> bool" where
  "replaying T m \<longleftrightarrow> represents T m \<and> conf T \<and> Nil_id \<notin> set (fresh_nodes T)"

lemma other_key_left:
  assumes "map_of ps q \<noteq> None" and "q \<noteq> k"
  shows "del_list k ps \<noteq> []"
proof
  assume "del_list k ps = []"
  then show False using assms map_of_del_list [of k ps] by (metis fun_upd_other map_of.simps(1))
qed

text \<open>As long as some other key is bound, no write takes the last entry away.\<close>

lemma replaying_put:
  assumes "replaying T m" and "m q \<noteq> None" and "q \<noteq> k"
  shows "\<exists>T'. Put k v T = Some T' \<and> replaying T' (m(k \<mapsto> v)) \<and> cow T T'"
proof -
  obtain t where t: "denotes T t" "map_of (inorder t) = m" "conf T" "Nil_id \<notin> set (fresh_nodes T)"
    using assms(1) by (auto simp: replaying_def represents_def)
  obtain T' where T': "Put k v T = Some T'" "represents T' (m(k \<mapsto> v))" "cow T T'"
    using tree.put_law [of T m k v] assms(1) by (auto simp: replaying_def)
  have "step T T'" using Put_conf(2) [OF t(1,3) T'(1)] other_key_left [of "inorder t" q k] t(2) assms(2,3) by blast
  then show ?thesis using T' t(4) by (auto simp: replaying_def step_def ext_def)
qed

lemma replaying_del:
  assumes "replaying T m" and "m q \<noteq> None" and "q \<noteq> k"
  shows "\<exists>T'. Delete k T = Some T' \<and> replaying T' (m(k := None)) \<and> cow T T'"
proof -
  obtain t where t: "denotes T t" "map_of (inorder t) = m" "conf T" "Nil_id \<notin> set (fresh_nodes T)"
    using assms(1) by (auto simp: replaying_def represents_def)
  obtain T' where T': "Delete k T = Some T'" "represents T' (m(k := None))" "cow T T'"
    using tree.del_law [of T m k] assms(1) by (auto simp: replaying_def)
  have "step T T'" using Delete_conf(2) [OF t(1,3) T'(1)] other_key_left [of "inorder t" q k] t(2) assms(2,3) by blast
  then show ?thesis using T' t(4) by (auto simp: replaying_def step_def ext_def)
qed

lemma replaying_copy:
  assumes "replaying T m"
  shows "\<exists>T'. Copy k T = Some T' \<and> replaying T' m \<and> cow T T'"
proof -
  obtain t where t: "denotes T t" "conf T" "Nil_id \<notin> set (fresh_nodes T)"
    using assms(1) by (auto simp: replaying_def represents_def)
  obtain T' where T': "Copy k T = Some T'" "represents T' m" "cow T T'"
    using tree.cpy_law [of T m k] assms(1) by (auto simp: replaying_def)
  then show ?thesis using Copy_conf [OF t(1,2) T'(1)] t(3) by (auto simp: replaying_def step_def ext_def)
qed

lemma replay_step:
  assumes "represents T m" and "op_ok p"
  shows "\<exists>T'. replay_ops [p] T = Some T' \<and> represents T' (apply_ops [p] m)"
proof (cases "op_type p")
  case GET
  then show ?thesis using assms by simp
next
  case PUT
  then obtain v where "op_val p = Some v" using assms(2) by auto
  then show ?thesis using PUT tree.put_law [OF assms(1), of "op_key p" v] by auto
next
  case DELETE
  then show ?thesis using assms(2) tree.del_law [OF assms(1), of "prefix_string PREFIX_USER (op_key p)"] by auto
next
  case COPY
  then show ?thesis using assms(2) tree.cpy_law [OF assms(1), of "op_key p"] by auto
qed

lemma replaying_step:
  assumes "replaying T m" and "op_ok p" and "m q \<noteq> None" and "\<not> has_prefix PREFIX_USER q"
  shows "\<exists>T'. replay_ops [p] T = Some T' \<and> replaying T' (apply_ops [p] m) \<and> cow T T'"
proof (cases "op_type p")
  case GET
  then show ?thesis using assms by simp
next
  case PUT
  then obtain v where v: "op_val p = Some v" "q \<noteq> op_key p" using assms(2,4) by auto
  then show ?thesis using PUT replaying_put [OF assms(1,3) v(2), of v] by auto
next
  case DELETE
  have "q \<noteq> prefix_string PREFIX_USER (op_key p)" using assms(4) has_prefix_iff by metis
  from replaying_del [OF assms(1,3) this] show ?thesis using DELETE assms(2) by auto
next
  case COPY
  then show ?thesis using assms(2) replaying_copy [OF assms(1), of "op_key p"] by auto
qed

lemma replay_Cons: "replay_ops (p # ps) T = do { T \<leftarrow> replay_ops [p] T; replay_ops ps T }"
  by (simp del: Option.bind_rzero)

lemma replay_represents:
  assumes "represents T m" and "\<forall>p \<in> set ps. op_ok p"
  shows "\<exists>T'. replay_ops ps T = Some T' \<and> represents T' (apply_ops ps m)"
  using assms
proof (induction ps arbitrary: T m)
  case (Cons p ps)
  obtain T1 where T1: "replay_ops [p] T = Some T1" "represents T1 (apply_ops [p] m)"
    using replay_step [OF Cons.prems(1), of p] Cons.prems(2) by (meson list.set_intros(1))
  obtain T2 where T2: "replay_ops ps T1 = Some T2" "represents T2 (apply_ops ps (apply_ops [p] m))"
    using Cons.IH [OF T1(2)] Cons.prems(2) by (meson list.set_intros(2))
  have "replay_ops (p # ps) T = Some T2" unfolding replay_Cons [of p ps] T1(1) using T2(1) by simp
  moreover have "apply_ops (p # ps) m = apply_ops ps (apply_ops [p] m)" by simp
  ultimately show ?case using T2(2) by (simp only:) blast
qed simp

lemma replaying_all:
  assumes "replaying T m" and "\<forall>p \<in> set ps. op_ok p" and "m q \<noteq> None" and "\<not> has_prefix PREFIX_USER q"
  shows "\<exists>T'. replay_ops ps T = Some T' \<and> replaying T' (apply_ops ps m) \<and> cow T T'"
  using assms
proof (induction ps arbitrary: T m)
  case (Cons p ps)
  obtain T1 where T1: "replay_ops [p] T = Some T1" "replaying T1 (apply_ops [p] m)" "cow T T1"
    using replaying_step [OF Cons.prems(1) _ Cons.prems(3,4)] Cons.prems(2) by (meson list.set_intros(1))
  have "apply_ops [p] m q \<noteq> None" using apply_ops_other [of "[p]" q m] Cons.prems by simp
  from Cons.IH [OF T1(2) _ this Cons.prems(4)] Cons.prems(2) obtain T2 where T2: "replay_ops ps T1 = Some T2"
    "replaying T2 (apply_ops ps (apply_ops [p] m))" "cow T1 T2"
    by (meson list.set_intros(2))
  have "replay_ops (p # ps) T = Some T2" unfolding replay_Cons [of p ps] T1(1) using T2(1) by simp
  moreover have "apply_ops (p # ps) m = apply_ops ps (apply_ops [p] m)" by simp
  moreover have "cow T T2" by (rule rtranclp_trans [OF T1(3) T2(3)])
  ultimately show ?case using T2(2) by (simp only:) blast
qed simp

section \<open>Transactions record what they do\<close>

datatype call = CGet string | CPut string string | CDelete string

fun run_call :: "call \<Rightarrow> txn \<Rightarrow> txn option" where
  "run_call (CGet k) x = map_option snd (txn_Get k x)"
| "run_call (CPut k v) x = txn_Put k v x"
| "run_call (CDelete k) x = txn_Delete k x"

fun run_calls :: "call list \<Rightarrow> txn \<Rightarrow> txn option" where
  "run_calls [] x = Some x"
| "run_calls (a # as) x = do { x \<leftarrow> run_call a x; run_calls as x }"

text \<open>What a call leaves in the intention.\<close>

fun recorded :: "call \<Rightarrow> tx_op" where
  "recorded (CGet k) = \<lparr>op_type = GET, op_key = k, op_val = None\<rparr>"
| "recorded (CPut k v) = \<lparr>op_type = PUT, op_key = prefix_string PREFIX_USER k, op_val = Some v\<rparr>"
| "recorded (CDelete k) = \<lparr>op_type = DELETE, op_key = k, op_val = None\<rparr>"

text \<open>\<open>live m ops x\<close>: the transaction is open, has recorded \<open>ops\<close> and its tree stands for their effect on \<open>m\<close>.\<close>

definition live :: "(string \<rightharpoonup> string) \<Rightarrow> tx_op list \<Rightarrow> txn \<Rightarrow> bool" where
  "live m ops x \<longleftrightarrow>
     \<not> committed x \<and>
     (\<exists>T i. tree x = Some T \<and> txn_intention x = Some i \<and> int_pos i = None \<and> i_ops (int_msg i) = ops \<and>
        represents T (apply_ops ops m))"

lemma run_call_live:
  assumes "live m ops x"
  shows "\<exists>x'. run_call a x = Some x' \<and> live m (ops @ [recorded a]) x'"
proof -
  obtain T i where x: "\<not> committed x" "tree x = Some T" "txn_intention x = Some i" "int_pos i = None"
    "i_ops (int_msg i) = ops" "represents T (apply_ops ops m)"
    using assms by (auto simp: live_def)
  show ?thesis
  proof (cases a)
    case (CGet k)
    then show ?thesis
      using x tree.get_law [OF x(6), of "prefix_string PREFIX_USER k"]
      by (auto simp: live_def txn_Get_def int_Get_def add_op_def apply_ops_append)
  next
    case (CPut k v)
    obtain T' where "Put (prefix_string PREFIX_USER k) v T = Some T'"
      "represents T' ((apply_ops ops m)(prefix_string PREFIX_USER k \<mapsto> v))"
      using tree.put_law [OF x(6)] by blast
    then show ?thesis
      using x CPut
      by (auto simp: live_def txn_Put_def txn_Put_prefix_def int_Put_def add_op_def apply_ops_append Let_def)
  next
    case (CDelete k)
    obtain T' where "Delete (prefix_string PREFIX_USER k) T = Some T'"
      "represents T' ((apply_ops ops m)(prefix_string PREFIX_USER k := None))"
      using tree.del_law [OF x(6)] by blast
    then show ?thesis
      using x CDelete
      by (auto simp: live_def txn_Delete_def int_Delete_def add_op_def apply_ops_append)
  qed
qed

lemma run_calls_live:
  assumes "live m ops x"
  shows "\<exists>x'. run_calls as x = Some x' \<and> live m (ops @ map recorded as) x'"
  using assms
proof (induction as arbitrary: x ops)
  case (Cons a as)
  obtain x1 where x1: "run_call a x = Some x1" "live m (ops @ [recorded a]) x1"
    using run_call_live [OF Cons.prems] by blast
  from Cons.IH [OF x1(2)] x1(1) show ?case by auto
qed simp

lemma recorded_ok: "op_ok (recorded a)"
  by (cases a) (auto simp: has_prefix_iff)


section \<open>Conflict zones\<close>

abbreviation C_prefix :: string where
  "C_prefix \<equiv> PREFIX_COMMITTED_INTENTION"

definition ci_entry :: "u64 \<Rightarrow> string \<times> string" where
  "ci_entry p = (prefix_string PREFIX_COMMITTED_INTENTION (setw20 p), [])"

text \<open>The entries of the committed-intention index are the positions \<open>cs\<close>, and they are a block of the tree.\<close>

definition committed_in ::
  "(string \<times> string) list \<Rightarrow> (string \<times> string) list \<Rightarrow> u64 list \<Rightarrow> (string \<times> string) list \<Rightarrow> bool" where
  "committed_in ps A cs B \<longleftrightarrow>
     ps = A @ map ci_entry cs @ B \<and> (\<forall>q \<in> set A \<union> set B. \<not> has_prefix PREFIX_COMMITTED_INTENTION (fst q))"

lemma prefix_string_less: "prefix_string p x < prefix_string p y \<longleftrightarrow> x < y"
  unfolding prefix_string_def by (induction p) auto

lemma committed_sorted:
  assumes "committed_in ps A cs B" and "skeys ps"
  shows "sorted_wrt (<) cs"
proof -
  have "skeys (map ci_entry cs)" using assms by (auto simp: committed_in_def sorted_wrt_append)
  then show ?thesis by (simp add: sorted_wrt_map ci_entry_def prefix_string_less setw20_less)
qed

lemma committed_nth:
  assumes "committed_in (inorder t) A cs B" and "j < length cs"
  shows "length A + j < length (inorder t)" "inorder t ! (length A + j) = ci_entry (cs ! j)"
  using assms by (auto simp: committed_in_def nth_append)

lemma committed_end:
  assumes "committed_in (inorder t) A cs B" and "length A + length cs < length (inorder t)"
  shows "\<not> has_prefix PREFIX_COMMITTED_INTENTION (fst (inorder t ! (length A + length cs)))"
proof -
  have "B \<noteq> []" using assms by (auto simp: committed_in_def)
  then have "inorder t ! (length A + length cs) = hd B" "hd B \<in> set B"
    using assms by (auto simp: committed_in_def nth_append hd_conv_nth)
  then show ?thesis using assms(1) by (simp add: committed_in_def)
qed

lemma lower_bound_split: "skeys (xs @ (k, v) # ys) \<Longrightarrow> lower_bound k (xs @ (k, v) # ys) = length xs"
proof -
  assume s: "skeys (xs @ (k, v) # ys)"
  then have "filter (\<lambda>p. fst p < k) xs = xs" "filter (\<lambda>p. fst p < k) ys = []"
    by (auto simp: sorted_wrt_append filter_id_conv filter_empty_conv dest: order_less_asym)
  then show ?thesis by (simp add: lower_bound_def)
qed

lemma scan_committed_ok:
  assumes "snap H rt t" and "committed_in (inorder t) A cs B" and "at H t it (length A + j)" and "j \<le> length cs"
  shows "scan_committed f rt H it acc = Some (acc @ takeWhile (\<lambda>p. p \<noteq> f) (drop j cs))"
  using assms(3,4)
proof (induction "length cs - j" arbitrary: j it acc)
  case 0
  then have "j = length cs" by simp
  then have "prefix_Valid C_prefix H it = Some False"
    using prefix_Valid_at [OF 0(2), of C_prefix] committed_end [OF assms(2)] by auto
  then show ?case using \<open>j = length cs\<close> by (subst scan_committed.simps) simp
next
  case (Suc n)
  then have j: "j < length cs" by simp
  note e = committed_nth [OF assms(2) j]
  have k: "it_key H it = Some (prefix_string C_prefix (setw20 (cs ! j)))"
    using at_entry [OF Suc.prems(1) e(1)] e(2) by (simp add: ci_entry_def)
  have v: "prefix_Valid C_prefix H it = Some True"
    using prefix_Valid_at [OF Suc.prems(1), of C_prefix] e by (auto simp: ci_entry_def has_prefix_iff)
  have fk: "filtered_key C_prefix H it = Some (setw20 (cs ! j))"
    using k by (simp add: filtered_key_def prefix_string_def)
  have d: "drop j cs = cs ! j # drop (Suc j) cs" using j by (simp add: Cons_nth_drop_Suc)
  show ?case
  proof (cases "cs ! j = f")
    case True
    then show ?thesis using v fk by (subst scan_committed.simps) (simp add: d)
  next
    case False
    obtain it' where it': "Next rt H it = Some it'" "at H t it' (length A + Suc j)"
      using Next_at [OF assms(1) Suc.prems(1) e(1)] by auto
    have "scan_committed f rt H it' (acc @ [cs ! j]) =
        Some ((acc @ [cs ! j]) @ takeWhile (\<lambda>p. p \<noteq> f) (drop (Suc j) cs))"
      using Suc.hyps(1) [of "Suc j"] Suc.hyps(2) it'(2) j by simp
    then show ?thesis using v fk it'(1) False by (subst scan_committed.simps) (simp add: d)
  qed
qed

lemma takeWhile_neq_sorted:
  "sorted_wrt (<) xs \<Longrightarrow> y \<in> set xs \<Longrightarrow> takeWhile (\<lambda>x. x \<noteq> y) xs = filter (\<lambda>x. x < (y :: 'a::linorder)) xs"
proof (induction xs)
  case (Cons a xs)
  show ?case
  proof (cases "a = y")
    case True
    then have "filter (\<lambda>x. x < y) xs = []"
      using Cons.prems(1) by (auto simp: filter_empty_conv dest: order_less_asym)
    then show ?thesis using True by simp
  next
    case False
    then show ?thesis using Cons by auto
  qed
qed simp

lemma drop_sorted:
  assumes "sorted_wrt (<) xs" and "j < length xs"
  shows "drop (Suc j) xs = filter (\<lambda>x. xs ! j < (x :: 'a::linorder)) xs"
proof -
  have "\<forall>x \<in> set (take (Suc j) xs). \<not> xs ! j < x"
    unfolding all_set_conv_all_nth
    using assms by (auto simp: not_less order_le_less less_Suc_eq sorted_wrt_nth_less)
  moreover have "\<forall>x \<in> set (drop (Suc j) xs). xs ! j < x"
    unfolding all_set_conv_all_nth using assms by (auto intro: sorted_wrt_nth_less)
  ultimately have "filter (\<lambda>x. xs ! j < x) (take (Suc j) xs @ drop (Suc j) xs) = drop (Suc j) xs"
    unfolding filter_append by (simp add: filter_empty_conv filter_id_conv)
  then show ?thesis by simp
qed


text \<open>The database as far as conflict detection is concerned: the tree holds the committed positions \<open>cs\<close>, the newest
  is the root's, and the index holds the newest of those committed since the database was opened.\<close>

definition conflict_view :: "db \<Rightarrow> (string, string) ntree \<Rightarrow> u64 list \<Rightarrow> u64 list \<Rightarrow> bool" where
  "conflict_view D t old new \<longleftrightarrow>
     (\<exists>rt. np_ref (db_root D) = Some rt \<and> snap (db_heap D) rt t) \<and>
     (\<exists>A B. committed_in (inorder t) A (old @ new) B) \<and> old @ new \<noteq> [] \<and>
     root_snapshot D = last (old @ new) \<and> indexed new (committed_intentions D)"

lemma range_view:
  assumes "indexed new index" and "sorted_wrt (<) (old @ new)" and "old @ new \<noteq> []" and "s < last (old @ new)"
  shows "\<exists>ps complete. index_range s (last (old @ new)) index = Some (ps, complete) \<and> ps \<noteq> [] \<and> sorted_wrt (<) ps \<and>
    set ps = {x \<in> set (old @ new). hd ps \<le> x} \<and> hd ps \<in> set (old @ new) \<and>
    (complete \<longleftrightarrow> s \<in> set index) \<and> (complete \<longrightarrow> hd ps = s) \<and> (\<not> complete \<longrightarrow> s < hd ps)"
proof (cases "new = []")
  case True
  then have i: "index = []" using assms(1) by (simp add: indexed_def)
  have "\<forall>x \<in> set old. x \<le> last old"
    using assms(2,3) True by (cases old rule: rev_cases) (auto simp: sorted_wrt_append)
  then have "set [last old] = {x \<in> set old. last old \<le> x}" using assms(3) True by (auto intro: order_antisym)
  then show ?thesis using i assms(3,4) True by (auto simp: index_range_def)
next
  case False
  let ?ps = "filter (\<lambda>x. s \<le> x) index"
  have l: "last (old @ new) = last new" using False by simp
  note r = index_range_eq [OF assms(1) False, of s]
  have ne: "index \<noteq> []" "last index = last new"
    using assms(1) False length_greater_0_conv [of new]
    by (auto simp: indexed_def index_limit_def last_drop simp del: length_greater_0_conv)
  then have "last new \<in> set ?ps" using assms(4) l last_in_set by fastforce
  then obtain y ys where ps: "?ps = y # ys" by (cases ?ps) auto
  note h = filter_ge_head [OF indexed_sorted [OF assms(1)] ps]
  have sub: "set index \<subseteq> set new" using assms(1) by (auto simp: indexed_def dest: in_set_dropD)
  have "x \<in> set ?ps" if "x \<in> set (old @ new)" "y \<le> x" for x
  proof -
    have "y \<in> set new" using h(1) sub by blast
    then have "x \<in> set new" using that assms(2) by (auto simp: sorted_wrt_append dest: leD)
    then show ?thesis using indexed_suffix [OF assms(1) h(1)] that(2) h(2) by simp
  qed
  moreover have "x \<in> set (old @ new) \<and> y \<le> x" if "x \<in> set ?ps" for x
    using that sub h(3) unfolding ps [symmetric] by auto
  ultimately have "set ?ps = {x \<in> set (old @ new). y \<le> x}" by blast
  moreover have "s < y" if "s \<notin> set index" using that h(1,2) by (metis order_le_less)
  moreover have "y = s" if "s \<in> set index"
    using that h(2,3) unfolding ps [symmetric] by (auto intro: order_antisym)
  moreover have "sorted_wrt (<) ?ps" by (rule sorted_wrt_filter [OF indexed_sorted [OF assms(1)]])
  moreover have "y \<in> set (old @ new)" using h(1) sub by auto
  ultimately show ?thesis using r assms(4) l ps by auto
qed

text \<open>The conflict zone reaches from the snapshot to the root. The intention that made the snapshot is part of it exactly
  when the index still has it.\<close>

definition in_zone :: "u64 \<Rightarrow> u64 list \<Rightarrow> u64 \<Rightarrow> bool" where
  "in_zone s index p \<longleftrightarrow> s < p \<or> p = s \<and> s \<in> set index"

lemma conflict_zone_ok:
  assumes "conflict_view D t old new" and "s \<in> set (old @ new)" and "s < root_snapshot D"
  shows "\<exists>ps. conflict_zone s D = Some ps \<and> distinct ps \<and>
    set ps = {x \<in> set (old @ new). in_zone s (committed_intentions D) x}"
proof -
  let ?cs = "old @ new" and ?H = "db_heap D"
  obtain rt A B where v: "np_ref (db_root D) = Some rt" "snap ?H rt t" "committed_in (inorder t) A ?cs B"
    "?cs \<noteq> []" "root_snapshot D = last ?cs" "indexed new (committed_intentions D)"
    using assms(1) by (auto simp: conflict_view_def)
  have sk: "skeys (inorder t)" using v(2) by (simp add: snap_def)
  have srt: "sorted_wrt (<) ?cs" by (rule committed_sorted [OF v(3) sk])
  obtain ps complete where r: "index_range s (root_snapshot D) (committed_intentions D) = Some (ps, complete)"
    "ps \<noteq> []" "sorted_wrt (<) ps" "set ps = {x \<in> set ?cs. hd ps \<le> x}" "hd ps \<in> set ?cs"
    "complete \<longrightarrow> hd ps = s" "\<not> complete \<longrightarrow> s < hd ps" "complete \<longleftrightarrow> s \<in> set (committed_intentions D)"
    using range_view [OF v(6) srt v(4), of s] assms(3) unfolding v(5) by blast
  have dps: "distinct ps" using r(3) by (simp add: strict_sorted_iff)
  show ?thesis
  proof (cases complete)
    case True
    then have "conflict_zone s D = Some ps" "hd ps = s" using r(1,6) by (simp_all add: conflict_zone_def)
    moreover have "set ps = {x \<in> set ?cs. in_zone s (committed_intentions D) x}"
      using r(4) \<open>hd ps = s\<close> True r(8) by (auto simp: in_zone_def order_le_less)
    ultimately show ?thesis using dps by blast
  next
    case False
    obtain j where j: "j < length ?cs" "?cs ! j = s" using assms(2) by (metis in_set_conv_nth)
    have jl: "Suc j < length ?cs"
    proof (rule ccontr)
      assume "\<not> Suc j < length ?cs"
      then have "j = length ?cs - 1" using j(1) by simp
      then have "s = last ?cs" using j(2) v(4) by (simp add: last_conv_nth del: last_append)
      then show False using assms(3) v(5) by simp
    qed
    note e = committed_nth [OF v(3) j(1)]
    have in1: "inorder t = (A @ map ci_entry (take j ?cs)) @ ci_entry s # (map ci_entry (drop (Suc j) ?cs) @ B)"
      using v(3) id_take_nth_drop [OF j(1)] j(2) unfolding committed_in_def
      by (metis append.assoc append_Cons list.simps(9) map_append)
    have "lower_bound (prefix_string C_prefix (setw20 s)) (inorder t) = length A + j"
      using lower_bound_split [of "A @ map ci_entry (take j ?cs)" "prefix_string C_prefix (setw20 s)" "[]"] sk j(1)
      unfolding in1 by (simp add: ci_entry_def)
    then obtain it where it: "prefix_Seek C_prefix (setw20 s) rt ?H new_iter = Some it" "at ?H t it (length A + j)"
      using Seek_at [OF v(2), of "prefix_string C_prefix (setw20 s)" new_iter] by (auto simp: prefix_Seek_def)
    obtain it' where it': "Next rt ?H it = Some it'" "at ?H t it' (length A + Suc j)"
      using Next_at [OF v(2) it(2) e(1)] by auto
    note e' = committed_nth [OF v(3) jl]
    have vs: "prefix_Valid C_prefix ?H it = Some True" "prefix_Valid C_prefix ?H it' = Some True"
      "filtered_key C_prefix ?H it = Some (setw20 s)"
      using prefix_Valid_at [OF it(2), of C_prefix] prefix_Valid_at [OF it'(2), of C_prefix] e e' j(2)
        at_entry [OF it(2) e(1)]
      by (auto simp: ci_entry_def has_prefix_iff filtered_key_def prefix_string_def)
    let ?mid = "takeWhile (\<lambda>p. p \<noteq> hd ps) (drop (Suc j) ?cs)"
    have z: "conflict_zone s D = Some (ps @ ?mid)"
      using r(1,2) False v(1) it(1) it'(1) vs scan_committed_ok [OF v(2,3) it'(2), of "hd ps" ps] jl
      by (cases ps) (simp_all add: conflict_zone_def)
    have d: "drop (Suc j) ?cs = filter (\<lambda>x. s < x) ?cs" using drop_sorted [OF srt j(1)] j(2) by simp
    have m: "?mid = filter (\<lambda>x. x < hd ps) (filter (\<lambda>x. s < x) ?cs)"
      unfolding d using r(5,7) False by (intro takeWhile_neq_sorted sorted_wrt_filter srt) simp
    have "distinct ?cs" using srt by (simp add: strict_sorted_iff)
    then have "distinct (ps @ ?mid)" unfolding m using dps r(4) by auto
    moreover have "set (ps @ ?mid) = {x \<in> set ?cs. in_zone s (committed_intentions D) x}"
      unfolding m set_append r(4) using r(7,8) False by (auto simp: in_zone_def not_less)
    ultimately show ?thesis using z by blast
  qed
qed


section \<open>Committing a tree\<close>

text \<open>The rids of the nodes of other versions are those of nil and of intentions before \<open>hi\<close>.\<close>

definition rids_below :: "int \<Rightarrow> (string, string) ptree \<Rightarrow> bool" where
  "rids_below hi T \<longleftrightarrow>
     (\<forall>i nd. nodes T i = Some nd \<longrightarrow> nd_rid nd = rid T \<or> nd_rid nd = int64_min \<or> 0 \<le> nd_rid nd \<and> nd_rid nd < hi)"

text \<open>A tree object from which the intention at \<open>pos\<close> can be committed: it stands for the map \<open>m\<close>, carries the rid
  that \<^verbatim>\<open>infect_self_pointers\<close> expects, its heap conforms, and its new nodes are recorded once and without nil.\<close>

definition tree_ready :: "bool \<Rightarrow> u64 \<Rightarrow> (string \<rightharpoonup> string) \<Rightarrow> (string, string) ptree \<Rightarrow> bool" where
  "tree_ready expect pos m T \<longleftrightarrow>
     replaying T m \<and> (if expect then rid T = sint pos else rid T < 0) \<and> 0 \<le> sint pos \<and>
     rids_below (sint pos) T \<and> distinct (fresh_nodes T)"

lemma sint_nonneg: "0 \<le> sint (p :: u64) \<Longrightarrow> sint p \<noteq> int64_min"
  by (simp add: int64_min_def)

lemma rid_unused_all:
  "tree_at N t \<Longrightarrow> \<forall>i nd. N i = Some nd \<longrightarrow> nd_rid nd = r \<or> nd_rid nd \<noteq> r' \<Longrightarrow> rid_unused r r' t"
  by (induction t) auto

lemma same_tree_trans: "same_tree a b \<Longrightarrow> same_tree b c \<Longrightarrow> same_tree a c"
proof (induction a b arbitrary: c rule: same_tree.induct)
  case (2 i nd l r t)
  then show ?case by (cases t; cases c) auto
qed simp

lemma rids_below_cow: "cow T T' \<Longrightarrow> rids_below hi T \<Longrightarrow> rids_below hi T'"
  unfolding rids_below_def using cow_new [of T T'] cow_members [of T T'] by metis

lemma nil_unrecorded_distinct:
  assumes "cow T T'" and "wft T" and "distinct (fresh_nodes T)" and "Nil_id \<notin> set (fresh_nodes T')"
  shows "distinct (fresh_nodes T')"
proof -
  have "distinct (filter (\<lambda>i. i \<noteq> Nil_id) (fresh_nodes T'))" by (rule cow_distinct [OF assms(1,2)]) (simp add: assms(3))
  moreover have "filter (\<lambda>i. i \<noteq> Nil_id) (fresh_nodes T') = fresh_nodes T'" using assms(4) by (intro filter_True) metis
  ultimately show ?thesis by simp
qed

lemma heap_ok_denotes: "denotes T t \<Longrightarrow> conf T \<Longrightarrow> heap_ok (heap.truncate T)"
  using conf_child [of T] by (simp add: denotes_def wft_def heap_ok_def heap.defs del: not_None_eq) blast

lemma commit_tree:
  assumes "tree_ready expect pos m T" and "m q \<noteq> None" and "q \<noteq> k"
  shows "\<exists>T1 off T2 t2. Put k [] T = Some T1 \<and> infect_self_pointers pos expect T1 = Some (Some off, T2) \<and>
    root T2 = Some (tid t2) \<and> tid t2 \<noteq> Nil_id \<and> tree_at (nodes T2) t2 \<and> skeys (inorder t2) \<and> rbt t2 \<and>
    map_of (inorder t2) = m(k \<mapsto> []) \<and> heap_ok (heap.truncate T2) \<and>
    (\<forall>i nd. nodes T2 i = Some nd \<longrightarrow> nd_rid nd = int64_min \<or> 0 \<le> nd_rid nd \<and> nd_rid nd \<le> sint pos)"
proof -
  have R: "replaying T m" "if expect then rid T = sint pos else rid T < 0" "0 \<le> sint pos"
    "rids_below (sint pos) T" "distinct (fresh_nodes T)"
    using assms(1) by (simp_all add: tree_ready_def)
  obtain t where t: "denotes T t" "map_of (inorder t) = m"
    using R(1) by (auto simp: replaying_def represents_def)
  have wf: "wft T" using t(1) by (simp add: denotes_def)
  obtain T1 t1 where P: "Put k [] T = Some T1" "cow T T1" "denotes T1 t1" "root T1 = Some (tid t1)"
    "inorder t1 = put_list k [] (inorder t)"
    by (rule Put_denotes [OF t(1), of k "[]"])
  have c1: "conf T1" "Nil_id \<notin> set (fresh_nodes T1)"
    using replaying_put [OF R(1) assms(2,3), of "[]"] P(1) by (auto simp: replaying_def)
  have rid1: "rid T1 = rid T" using cow_members [OF P(2)] by simp
  have dist: "distinct (fresh_nodes T1)" by (rule nil_unrecorded_distinct [OF P(2) wf R(5) c1(2)])
  have D1: "tree_at (nodes T1) t1" "skeys (inorder t1)" "rbt t1" using P(3) by (simp_all add: denotes_def)
  have "inorder t1 \<noteq> []" using P(5) by (simp add: put_list_def)
  then have ne: "t1 \<noteq> Lf" by auto
  have below: "rids_below (sint pos) T1" by (rule rids_below_cow [OF P(2) R(4)])
  have "ready T1 t1" using P(3,4) ne dist c1(2) by (simp add: ready_def)
  moreover have "\<forall>i nd. nodes T1 i = Some nd \<longrightarrow> nd_rid nd = rid T1 \<or> nd_rid nd \<noteq> sint pos"
    using below sint_nonneg [OF R(3)] unfolding rids_below_def by force
  then have "rid_switch_ok expect pos T1 t1"
    using rid_unused_all [OF D1(1)] R(2) sint_nonneg [OF R(3)] rid1 by (simp add: rid_switch_ok_def)
  ultimately obtain T2 where I:
    "infect_self_pointers pos expect T1 = Some (Some (int (osize (rid T1) t1) - 1), T2)"
    "root T2 = Some (tid t1)" "tree_at (nodes T2) (infect_tree (sint pos) pos 0 (rerid (rid T1) (sint pos) t1))"
    using infect_ready by blast
  note H = infect_self_pointers_heap [OF I(1) P(4) heap_ok_denotes [OF P(3) c1(1)]]
  have rids: "nd_rid nd = int64_min \<or> 0 \<le> nd_rid nd \<and> nd_rid nd \<le> sint pos" if i: "nodes T2 i = Some nd" for i nd
  proof (cases "i \<in> set (fresh_nodes T1)")
    case True
    then show ?thesis using H(2) [OF i] R(3) by simp
  next
    case False
    then obtain nd1 where nd1: "nodes T1 i = Some nd1" "nd_rid nd = nd_rid nd1" using H(2) [OF i] by auto
    have "nd_rid nd1 \<noteq> rid T1" using wf_fresh [OF _ nd1(1)] P(3) False by (auto simp: denotes_def)
    then show ?thesis using below nd1 unfolding rids_below_def by force
  qed
  let ?t2 = "infect_tree (sint pos) pos 0 (rerid (rid T1) (sint pos) t1)"
  have st: "same_tree ?t2 t1" by (rule same_tree_trans [of _ "rerid (rid T1) (sint pos) t1"]) simp_all
  have "tid ?t2 = tid t1" "tid t1 \<noteq> Nil_id" using tid_zero_iff [OF D1(1)] ne by simp_all
  moreover have "map_of (inorder t1) = m(k \<mapsto> [])" using P(5) t(2) by (simp add: map_of_put_list)
  ultimately show ?thesis
    using P(1) I D1(2,3) H(1) rids same_tree_inorder [OF st] same_tree_rbt [OF st]
    by (intro exI [of _ T1] exI [of _ "int (osize (rid T1) t1) - 1"] exI [of _ T2] exI [of _ ?t2]) auto
qed

section \<open>The state of the database\<close>

abbreviation ci_key :: "u64 \<Rightarrow> string" where
  "ci_key p \<equiv> prefix_string PREFIX_COMMITTED_INTENTION (setw20 p)"

lemma ci_key_inj: "ci_key p = ci_key q \<longleftrightarrow> p = q"
  by (simp add: prefix_string_def setw20_inj)

lemma ci_key_not_user: "\<not> has_prefix PREFIX_USER (ci_key p)"
  by (simp add: has_prefix_def prefix_string_def PREFIX_USER_def PREFIX_COMMITTED_INTENTION_def)

text \<open>\<open>db_inv D t\<close>: the root of the database is the red-black search tree \<open>t\<close>, the intention that made it is in the
  catalog of committed intentions, every reference of the heap resolves, and the rids of all nodes are those of nil
  or of committed intentions.\<close>

definition db_inv :: "db \<Rightarrow> (string, string) ntree \<Rightarrow> bool" where
  "db_inv D t \<longleftrightarrow>
     heap_ok (db_heap D) \<and> np_ref (db_root D) = Some (tid t) \<and> tree_at (nodes (db_heap D)) t \<and>
     skeys (inorder t) \<and> rbt t \<and> map_of (inorder t) (ci_key (root_snapshot D)) \<noteq> None \<and>
     (\<forall>i nd. nodes (db_heap D) i = Some nd \<longrightarrow>
        nd_rid nd = int64_min \<or> 0 \<le> nd_rid nd \<and> nd_rid nd \<le> sint (root_snapshot D))"

text \<open>A tree object made from the root, for a new intention or a transaction.\<close>

lemma new_ptree_replaying:
  assumes "db_inv D t" and "sint (root_snapshot D) < r \<or> r < 0" and "r \<noteq> int64_min" and "sint (root_snapshot D) < hi"
  shows "replaying (new_ptree (db_heap D) (db_root D) r i) (map_of (inorder t))"
    "rids_below hi (new_ptree (db_heap D) (db_root D) r i)" "wft (new_ptree (db_heap D) (db_root D) r i)"
proof -
  have I: "heap_ok (db_heap D)" "np_ref (db_root D) = Some (tid t)" "tree_at (nodes (db_heap D)) t"
    "skeys (inorder t)" "rbt t"
    "\<forall>i nd. nodes (db_heap D) i = Some nd \<longrightarrow>
        nd_rid nd = int64_min \<or> 0 \<le> nd_rid nd \<and> nd_rid nd \<le> sint (root_snapshot D)"
    using assms(1) by (auto simp: db_inv_def)
  have free: "rid_free r (db_heap D)" using I(6) assms(2,3) by (fastforce simp: rid_free_def)
  have den: "denotes (new_ptree (db_heap D) (db_root D) r i) t" by (rule new_ptree_denotes [OF I(1) free I(2-5)])
  then show "replaying (new_ptree (db_heap D) (db_root D) r i) (map_of (inorder t))"
    using heap_ok_conf [OF I(1)] by (auto simp: replaying_def represents_def conf_new_ptree)
  show "rids_below hi (new_ptree (db_heap D) (db_root D) r i)"
    using I(6) assms(4) by (fastforce simp: rids_below_def)
  show "wft (new_ptree (db_heap D) (db_root D) r i)" using den by (simp add: denotes_def)
qed

lemma replay_tree_ready:
  assumes "db_inv D t" and "sint (root_snapshot D) < sint pos" and "0 \<le> sint pos" and "\<forall>p \<in> set ops. op_ok p"
  shows "\<exists>T. replay_ops ops (new_ptree (db_heap D) (db_root D) (sint pos) (Some pos)) = Some T \<and>
    tree_ready True pos (apply_ops ops (map_of (inorder t))) T"
proof -
  let ?T = "new_ptree (db_heap D) (db_root D) (sint pos) (Some pos)"
  note n = new_ptree_replaying [OF assms(1) disjI1 [OF assms(2)] sint_nonneg [OF assms(3)] assms(2), of "Some pos"]
  have "map_of (inorder t) (ci_key (root_snapshot D)) \<noteq> None" using assms(1) by (simp add: db_inv_def)
  from replaying_all [OF n(1) assms(4) this ci_key_not_user] obtain T where T: "replay_ops ops ?T = Some T"
    "replaying T (apply_ops ops (map_of (inorder t)))" "cow ?T T" by blast
  have "distinct (fresh_nodes T)"
    by (rule nil_unrecorded_distinct [OF T(3) n(3)]) (use T(2) in \<open>simp_all add: replaying_def\<close>)
  moreover have "rid T = sint pos" using cow_members [OF T(3)] by simp
  ultimately show ?thesis using T rids_below_cow [OF T(3) n(2)] assms(3) by (auto simp: tree_ready_def)
qed

text \<open>The database level of a commit, for a tree from either source.\<close>

lemma commit_tree_effect:
  assumes "index_push pos (committed_intentions D) = Some index"
    and "next_tree serial pos i (D\<lparr>committed_intentions := index\<rparr>) = Some (expect, T, D1)"
    and "tree_ready expect pos m T" and "m (ci_key s) \<noteq> None" and "s \<noteq> pos"
    and "last_intention_processed D < pos" and "Notify (Token i) pos True (txn_finder D) = Some F"
  shows "\<exists>D' t'. commit_intention serial pos i D = Some D' \<and> db_inv D' t' \<and>
    map_of (inorder t') = m(ci_key pos \<mapsto> []) \<and> root_snapshot D' = pos \<and>
    last_intention_processed D' = pos \<and> committed_intentions D' = index \<and> txn_finder D' = F \<and>
    service D' = service D \<and> finished_txns D' = finished_txns D1"
proof -
  let ?k = "ci_key pos"
  have "ci_key s \<noteq> ?k" using assms(5) by (simp add: ci_key_inj)
  from commit_tree [OF assms(3,4) this] obtain T1 off T2 t2 where c:
    "Put ?k [] T = Some T1" "infect_self_pointers pos expect T1 = Some (Some off, T2)"
    "root T2 = Some (tid t2)" "tid t2 \<noteq> Nil_id" "tree_at (nodes T2) t2" "skeys (inorder t2)" "rbt t2"
    "map_of (inorder t2) = m(?k \<mapsto> [])" "heap_ok (heap.truncate T2)"
    "\<forall>i nd. nodes T2 i = Some nd \<longrightarrow> nd_rid nd = int64_min \<or> 0 \<le> nd_rid nd \<and> nd_rid nd \<le> sint pos"
    by blast
  have D1: "D1 = D\<lparr>committed_intentions := index, finished_txns := finished_txns D1\<rparr>"
    using assms(2) by (auto simp: next_tree_def Let_def split: prod.splits option.splits)
  have f: "last_intention_processed D1 = last_intention_processed D" "txn_finder D1 = txn_finder D"
    "committed_intentions D1 = index" "service D1 = service D"
    by (subst D1, simp)+
  let ?D = "D1\<lparr>db_heap := heap.truncate T2,
      db_root := SetIntentionAddress pos (word_of_int off) \<lparr>np_ref = Some (tid t2), np_addr = None\<rparr>,
      root_snapshot := pos, last_intention_processed := pos, lcs_trees := lcs_trees D1 @ [T2]\<rparr>"
  have "commit_intention serial pos i D = NotifyTransaction (Token i) pos True ?D"
    using assms(1,2,6) c(1-4) f(1) by (simp add: commit_intention_def)
  also have "\<dots> = Some ((NotifyIntention pos ?D)\<lparr>txn_finder := F\<rparr>)"
    using assms(7) f(2) by (simp add: NotifyTransaction_def NotifyIntention_def Let_def)
  finally have D': "commit_intention serial pos i D = Some ((NotifyIntention pos ?D)\<lparr>txn_finder := F\<rparr>)" .
  have "nodes (heap.truncate T2) = nodes T2" by (simp add: heap.defs)
  then have "db_inv ((NotifyIntention pos ?D)\<lparr>txn_finder := F\<rparr>) t2"
    using c by (simp add: db_inv_def NotifyIntention_def SetIntentionAddress_def)
  then show ?thesis
    using D' f(3,4) c(8) by (intro exI [of _ "(NotifyIntention pos ?D)\<lparr>txn_finder := F\<rparr>"] exI [of _ t2])
      (simp add: NotifyIntention_def)
qed


section \<open>Validation and scans of the tree\<close>

lemma root_key_in: "tree_at N t \<Longrightarrow> t \<noteq> Lf \<Longrightarrow> N (tid t) = Some nd \<Longrightarrow> (nd_key nd, nd_val nd) \<in> set (inorder t)"
  by (cases t) auto

lemma Validate_ok:
  assumes "nodes H Nil_id = Some nn" and "\<not> nd_red nn"
    and "tree_at (nodes H) t" and "skeys (inorder t)" and "invc t" and "hb t n"
  shows "Validate (tid t) H = Some (Suc n)"
  using assms(3-6)
proof (induction t arbitrary: n)
  case Lf
  then show ?case by (subst Validate.simps) simp
next
  case (Nd i nd l r)
  have N: "i \<noteq> 0" "nodes H i = Some nd" "np_ref (nd_left nd) = Some (tid l)" "np_ref (nd_right nd) = Some (tid r)"
    "tree_at (nodes H) l" "tree_at (nodes H) r"
    using Nd.prems(1) by auto
  have sk: "skeys (inorder l)" "skeys (inorder r)" "\<forall>p \<in> set (inorder l). fst p < nd_key nd"
    "\<forall>p \<in> set (inorder r). nd_key nd < fst p"
    using Nd.prems(2) by (auto simp: sorted_wrt_append)
  obtain m where h: "hb l m" "hb r m" "n = (if nd_red nd then m else Suc m)"
    using Nd.prems(4) by (cases n) (auto split: if_splits)
  have ex: "\<exists>cd. nodes H (tid c) = Some cd \<and> nd_red cd = is_red c" if "tree_at (nodes H) c" for c
    using that assms(1,2) by (cases c) auto
  obtain ld rd where c: "nodes H (tid l) = Some ld" "nd_red ld = is_red l"
    "nodes H (tid r) = Some rd" "nd_red rd = is_red r"
    using ex [OF N(5)] ex [OF N(6)] by blast
  have inv: "invc l" "invc r" "nd_red nd \<longrightarrow> \<not> is_red l \<and> \<not> is_red r" using Nd.prems(3) by auto
  have k: "nd_key ld < nd_key nd" if "tid l \<noteq> Nil_id"
  proof -
    have "l \<noteq> Lf" using that by auto
    from bspec [OF sk(3) root_key_in [OF N(5) this c(1)]] show ?thesis by simp
  qed
  have k': "nd_key nd < nd_key rd" if "tid r \<noteq> Nil_id"
  proof -
    have "r \<noteq> Lf" using that by auto
    from bspec [OF sk(4) root_key_in [OF N(6) this c(3)]] show ?thesis by simp
  qed
  have "Validate (tid l) H = Some (Suc m)" "Validate (tid r) H = Some (Suc m)"
    using Nd.IH N(5,6) sk(1,2) inv(1,2) h(1,2) by auto
  then show ?case
    using N c inv(3) k k' h(3) unfolding tid.simps
    by (subst Validate.simps) (auto dest: leD)
qed

lemma addr_emplace_take:
  assumes "addr_emplace a k as = Some as'"
  shows "\<exists>y. addr_emplace a k (take m as) = Some y \<and> (if length y > m then butlast y else y) = take m as'"
  using assms
proof (induction a k as arbitrary: m as' rule: addr_emplace.induct)
  case (1 a k)
  then show ?case by (cases m) auto
next
  case (2 a k b k' ps)
  show ?case
  proof (cases m)
    case 0
    then show ?thesis by simp
  next
    case (Suc n)
    consider (lt) "address_less a b" | (gt) "\<not> address_less a b" "address_less b a"
      using 2(2) by (auto split: if_splits)
    then show ?thesis
    proof cases
      case lt
      have "butlast ((b, k') # take n ps) = take n ((b, k') # ps)" if "n \<le> length ps"
        using that by (metis butlast_take diff_Suc_1 length_Cons Suc_le_mono take_Suc_Cons)
      then show ?thesis using lt 2(2) Suc by (auto simp: min_def)
    next
      case gt
      then obtain qs where qs: "addr_emplace a k ps = Some qs" "as' = (b, k') # qs" using 2(2) by auto
      obtain y where y: "addr_emplace a k (take n ps) = Some y" "(if length y > n then butlast y else y) = take n qs"
        using 2(1) [OF gt qs(1), of n] by blast
      have "y \<noteq> [] \<or> \<not> length y > n" by (cases y) auto
      then show ?thesis using gt qs(2) y Suc by (cases "length y > n") auto
    qed
  qed
qed

lemma addr_emplace_sorted:
  assumes "addr_emplace a k as = Some as'" and "sorted_wrt address_less (map fst as)"
  shows "sorted_wrt address_less (map fst as') \<and> set as' = insert (a, k) (set as)"
  using assms
proof (induction a k as arbitrary: as' rule: addr_emplace.induct)
  case (2 a k b k' ps)
  have tr: "address_less x y \<Longrightarrow> address_less y z \<Longrightarrow> address_less x z" for x y z
    by (auto simp: address_less_def split: if_splits)
  consider (lt) "address_less a b" | (gt) "\<not> address_less a b" "address_less b a"
    using 2(2) by (auto split: if_splits)
  then show ?case
  proof cases
    case lt
    then show ?thesis using 2(2,3) tr [OF lt] by auto
  next
    case gt
    then obtain qs where qs: "addr_emplace a k ps = Some qs" "as' = (b, k') # qs" using 2(2) by auto
    have "sorted_wrt address_less (map fst qs)" "set qs = insert (a, k) (set ps)"
      using 2(1) [OF gt qs(1)] 2(3) by auto
    then show ?thesis using qs(2) 2(3) gt(2) by auto
  qed
qed auto

lemma note_child_limit:
  assumes "note_child None p H as = Some as'" and "sorted_wrt address_less (map fst as)"
  shows "note_child (Some m) p H (take m as) = Some (take m as') \<and> sorted_wrt address_less (map fst as')"
proof -
  obtain n where n: "np_ref p = Some n" using assms(1) by (auto simp: note_child_def)
  show ?thesis
  proof (cases "n = Nil_id")
    case True
    then show ?thesis using assms n by (simp add: note_child_def)
  next
    case False
    then obtain nd a where e: "nodes H n = Some nd" "np_addr p = Some a" "addr_emplace a (nd_key nd) as = Some as'"
      using assms(1) n by (auto simp: note_child_def)
    then show ?thesis
      using n False addr_emplace_take [OF e(3), of m] addr_emplace_sorted [OF e(3) assms(2)]
      by (auto simp: note_child_def)
  qed
qed

lemma scan_nodes_limit:
  fixes H :: "('k, 'v, 'b) heap_scheme"
  assumes "scan_nodes None n st H as = Some r" and "sorted_wrt address_less (map fst as)"
  shows "scan_nodes (Some m) n st H (take m as) = Some (take m r) \<and> sorted_wrt address_less (map fst r)"
proof -
  let ?P = "\<lambda>(limit :: nat option) n st (H :: ('k, 'v, 'b) heap_scheme) as r. limit = None \<longrightarrow> sorted_wrt address_less (map fst as) \<longrightarrow>
    scan_nodes (Some m) n st H (take m as) = Some (take m r) \<and> sorted_wrt address_less (map fst r)"
  have "?P None n st H as r"
  proof (rule scan_nodes.raw_induct [where P = ?P, OF _ assms(1)])
    fix f limit n st as r and H :: "('k, 'v, 'b) heap_scheme"
    assume IH: "\<And>limit n st H as r. f limit n st H as = Some r \<Longrightarrow> ?P limit n st H as r"
      and eq: "(if st = [] \<and> n = Nil_id then Some as
        else if n \<noteq> Nil_id then do { l \<leftarrow> child_ref DL n H; f limit l (n # st) H as }
        else do { (n, st) \<leftarrow> pop_front st; nd \<leftarrow> nodes H n; as \<leftarrow> note_child limit (nd_left nd) H as;
          as \<leftarrow> note_child limit (nd_right nd) H as; r \<leftarrow> np_ref (nd_right nd); f limit r st H as }) = Some r"
    show "?P limit n st H as r"
    proof (intro impI)
      assume lim: "limit = None" and s: "sorted_wrt address_less (map fst as)"
      consider (finish) "st = []" "n = Nil_id" | (down) "n \<noteq> Nil_id" | (up) "st \<noteq> []" "n = Nil_id" by blast
      then show "scan_nodes (Some m) n st H (take m as) = Some (take m r) \<and> sorted_wrt address_less (map fst r)"
      proof cases
        case finish
        then show ?thesis using eq s by (subst scan_nodes.simps) simp
      next
        case down
        then obtain l where "child_ref DL n H = Some l" "f limit l (n # st) H as = Some r" using eq by auto
        with IH [OF this(2)] show ?thesis using lim s down by (subst scan_nodes.simps) simp
      next
        case up
        then obtain i st' nd as1 as2 q where u: "st = i # st'" "nodes H i = Some nd"
          "note_child None (nd_left nd) H as = Some as1" "note_child None (nd_right nd) H as1 = Some as2"
          "np_ref (nd_right nd) = Some q" "f limit q st' H as2 = Some r"
          using eq lim by (cases st) auto
        note c1 = note_child_limit [OF u(3) s, of m]
        note c2 = note_child_limit [OF u(4) conjunct2 [OF c1], of m]
        from IH [OF u(6)] c1 c2 lim u(1,2,5) up show ?thesis by (subst scan_nodes.simps) simp
      qed
    qed
  qed
  then show ?thesis using assms(2) by simp
qed


text \<open>The addresses of the nodes below the root with their keys, in the order in which the traversal notes them.\<close>

definition loc :: "node_address \<Rightarrow> u64 \<times> u16" where
  "loc a = (position a, offset a)"

fun child_note :: "node_ptr \<Rightarrow> ('k, 'v) ntree \<Rightarrow> (node_address \<times> 'k) list" where
  "child_note p Lf = []"
| "child_note p (Nd i nd l r) = [(the (np_addr p), nd_key nd)]"

fun node_list :: "('k, 'v) ntree \<Rightarrow> (node_address \<times> 'k) list" where
  "node_list Lf = []"
| "node_list (Nd i nd l r) =
     node_list l @ child_note (nd_left nd) l @ child_note (nd_right nd) r @ node_list r"

fun addressed :: "('k, 'v) ntree \<Rightarrow> bool" where
  "addressed Lf \<longleftrightarrow> True"
| "addressed (Nd i nd l r) \<longleftrightarrow>
     (l = Lf \<or> np_addr (nd_left nd) \<noteq> None) \<and> (r = Lf \<or> np_addr (nd_right nd) \<noteq> None) \<and> addressed l \<and> addressed r"

fun emplace_all ::
  "(node_address \<times> 'k) list \<Rightarrow> (node_address \<times> 'k) list \<Rightarrow> (node_address \<times> 'k) list option" where
  "emplace_all [] as = Some as"
| "emplace_all ((a, k) # ps) as = do { as \<leftarrow> addr_emplace a k as; emplace_all ps as }"

lemma emplace_all_append: "emplace_all (xs @ ys) as = do { as \<leftarrow> emplace_all xs as; emplace_all ys as }"
proof (induction xs as rule: emplace_all.induct)
  case (2 a k ps as)
  then show ?case by (cases "addr_emplace a k as") simp_all
qed simp

lemma note_child_note:
  assumes "np_ref p = Some (tid c)" and "tree_at (nodes H) c" and "c = Lf \<or> np_addr p \<noteq> None"
  shows "note_child None p H as = emplace_all (child_note p c) as"
  using assms by (cases c; cases "addr_emplace (the (np_addr p)) (nd_key (the (nodes H (tid c)))) as")
    (auto simp: note_child_def)

lemma scan_nodes_tree:
  assumes "tree_at (nodes H) t" and "addressed t"
  shows "scan_nodes None (tid t) st H as = do { as \<leftarrow> emplace_all (node_list t) as; scan_nodes None Nil_id st H as }"
  using assms
proof (induction t arbitrary: st as)
  case (Nd i nd l r)
  have N: "i \<noteq> Nil_id" "nodes H i = Some nd" "np_ref (nd_left nd) = Some (tid l)" "np_ref (nd_right nd) = Some (tid r)"
    "tree_at (nodes H) l" "tree_at (nodes H) r"
    using Nd.prems(1) by auto
  have A: "l = Lf \<or> np_addr (nd_left nd) \<noteq> None" "r = Lf \<or> np_addr (nd_right nd) \<noteq> None" "addressed l" "addressed r"
    using Nd.prems(2) by auto
  have "scan_nodes None i st H as = scan_nodes None (tid l) (i # st) H as"
    using N(1-3) by (subst scan_nodes.simps) (simp add: child_ref_def)
  moreover have "scan_nodes None Nil_id (i # st) H as' =
      do { as \<leftarrow> emplace_all (child_note (nd_left nd) l) as';
           as \<leftarrow> emplace_all (child_note (nd_right nd) r) as; scan_nodes None (tid r) st H as }" for as'
    using N(2,4) note_child_note [OF N(3,5) A(1)] note_child_note [OF N(4,6) A(2)]
    by (subst scan_nodes.simps) simp
  ultimately show ?case
    using Nd.IH(1) [OF N(5) A(3)] Nd.IH(2) [OF N(6) A(4)] by (simp add: emplace_all_append)
qed simp

lemma address_total: "loc a \<noteq> loc b \<Longrightarrow> \<not> address_less a b \<Longrightarrow> address_less b a"
  by (auto simp: loc_def address_less_def split: if_splits)

lemma addr_emplace_defined: "loc a \<notin> loc ` fst ` set as \<Longrightarrow> \<exists>as'. addr_emplace a k as = Some as'"
proof (induction a k as rule: addr_emplace.induct)
  case (2 a k b k' ps)
  have "loc a \<noteq> loc b" "loc a \<notin> loc ` fst ` set ps" using 2(2) by auto
  then consider "address_less a b" | as' where "\<not> address_less a b" "address_less b a" "addr_emplace a k ps = Some as'"
    using 2(1) address_total [of a b] by blast
  then show ?case by cases simp_all
qed simp

lemma emplace_all_ok:
  assumes "distinct (map (loc \<circ> fst) ps)" and "loc ` fst ` set ps \<inter> loc ` fst ` set as = {}"
    and "sorted_wrt address_less (map fst as)"
  shows "\<exists>r. emplace_all ps as = Some r \<and> sorted_wrt address_less (map fst r) \<and> set r = set ps \<union> set as"
  using assms
proof (induction ps as rule: emplace_all.induct)
  case (2 a k ps as)
  have "loc a \<notin> loc ` fst ` set as" using 2(3) by auto
  then obtain as' where as': "addr_emplace a k as = Some as'" using addr_emplace_defined [of a as k] by auto
  note s = addr_emplace_sorted [OF as' 2(4)]
  have "loc a \<notin> (loc \<circ> fst) ` set ps" using 2(2) by simp
  then have "loc a \<notin> loc ` fst ` set ps" unfolding image_comp .
  moreover have "set as' = insert (a, k) (set as)" using s by simp
  ultimately have "loc ` fst ` set ps \<inter> loc ` fst ` set as' = {}" using 2(3) by simp
  from 2(1) [OF as' _ this] s 2(2) as' show ?case by auto
qed simp

lemma scan_nodes_ok:
  assumes "tree_at (nodes H) t" and "addressed t" and "distinct (map (loc \<circ> fst) (node_list t))"
  shows "\<exists>all. scan_nodes None (tid t) [] H [] = Some all \<and> scan_nodes (Some m) (tid t) [] H [] = Some (take m all) \<and>
    sorted_wrt address_less (map fst all) \<and> set all = set (node_list t)"
proof -
  obtain all where r: "emplace_all (node_list t) [] = Some all" "sorted_wrt address_less (map fst all)"
    "set all = set (node_list t)"
    using emplace_all_ok [OF assms(3), of "[]"] by auto
  have "scan_nodes None (tid t) [] H [] = Some all"
    using scan_nodes_tree [OF assms(1,2), of "[]" "[]"] r(1) by (simp add: scan_nodes.simps [of None Nil_id "[]"])
  with scan_nodes_limit [OF this, of m] r(2,3) show ?thesis by simp
qed

end
