(* ===== verification/DBTheorems.thy ===== *)
theory DBTheorems
  imports DBProps
begin

text \<open>
  The properties of the database: replaying an intention agrees with running the transaction, the
  transaction processor commits and detects conflicts as an abstract database does, and what validation,
  garbage collection and waiting guarantee.
\<close>

section \<open>A sample database\<close>

text \<open>A tree of three entries: the committed intention at position 7, an entry given by \<open>k\<close> and \<open>v\<close>, and a user entry.
  The first database has a user entry in the middle, the second one the committed intention at position 8.\<close>

definition db_tree :: "string \<Rightarrow> string \<Rightarrow> (string, string) ntree" where
  "db_tree k v =
     Nd 2 (pfx_node 1 3 k v False)
       (Nd 1 (pfx_node 0 0 (prefix_string ''C'' (setw20 7)) [] True) Lf Lf)
       (Nd 3 (pfx_node 0 0 (prefix_string ''U'' ''b'') ''y'' True) Lf Lf)"

definition db_heap_sample :: "string \<Rightarrow> string \<Rightarrow> (string, string) heap" where
  "db_heap_sample k v =
     \<lparr>nodes = [0 \<mapsto> \<lparr>nd_left = \<lparr>np_ref = None, np_addr = None\<rparr>, nd_right = \<lparr>np_ref = None, np_addr = None\<rparr>,
                 nd_key = [], nd_val = [], nd_red = False, nd_rid = int64_min, nd_read_only = True\<rparr>,
               1 \<mapsto> pfx_node 0 0 (prefix_string ''C'' (setw20 7)) [] True,
               2 \<mapsto> pfx_node 1 3 k v False,
               3 \<mapsto> pfx_node 0 0 (prefix_string ''U'' ''b'') ''y'' True],
      next_node = 4\<rparr>"

definition db_at :: "string \<Rightarrow> string \<Rightarrow> u64 \<Rightarrow> db" where
  "db_at k v s =
     \<lparr>db_heap = db_heap_sample k v, db_root = \<lparr>np_ref = Some 2, np_addr = None\<rparr>, root_snapshot = s,
      last_intention_processed = s, in_flight_txn_rid = -1, transactions_started = 0,
      committed_intentions = [], finished_txns = [], lcs_trees = [], txn_finder = new_finder,
      waiting_on_log_entry = [], woken = [], service = new_entry_service 9\<rparr>"

definition db_sample :: db where
  "db_sample = db_at (prefix_string ''U'' ''a'') ''x'' 7"

definition tree_sample :: "(string, string) ntree" where
  "tree_sample = db_tree (prefix_string ''U'' ''a'') ''x''"

definition db_sample2 :: db where
  "db_sample2 = db_at (prefix_string ''C'' (setw20 8)) [] 8"

definition tree_sample2 :: "(string, string) ntree" where
  "tree_sample2 = db_tree (prefix_string ''C'' (setw20 8)) []"

lemma setw20_7: "setw20 7 = ''00000000000000000007''"
  by code_simp

lemma setw20_8: "setw20 8 = ''00000000000000000008''"
  by code_simp

lemma heap_ok_sample: "heap_ok (db_heap_sample k v)"
  unfolding heap_ok_def
proof (intro conjI allI impI)
  have n: "nodes (db_heap_sample k v) i \<noteq> None \<Longrightarrow> i < 4" for i
    by (auto simp: db_heap_sample_def split: if_splits)
  show "\<exists>nd. nodes (db_heap_sample k v) Nil_id = Some nd \<and> is_nil_node nd"
    by (simp add: db_heap_sample_def is_nil_node_def)
  show "nodes (db_heap_sample k v) i = None" if "next_node (db_heap_sample k v) \<le> i" for i
    using n [of i] that by (force simp: db_heap_sample_def)
  show "nodes (db_heap_sample k v) q \<noteq> None"
    if "nodes (db_heap_sample k v) i = Some nd \<and> np_ref (child d nd) = Some q" for i nd d q
    using that by (cases d) (auto simp: db_heap_sample_def pfx_node_def split: if_splits)
qed (simp add: db_heap_sample_def)

lemma db_inv_at:
  assumes "prefix_string ''C'' (setw20 7) < k" and "k < prefix_string ''U'' ''b''" and "7 \<le> sint s"
    and "s = 7 \<or> k = ci_key s"
  shows "db_inv (db_at k v s) (db_tree k v)"
proof -
  have "tree_at (nodes (db_heap_sample k v)) (db_tree k v)"
    by (simp add: db_heap_sample_def db_tree_def pfx_node_def)
  moreover have "skeys (inorder (db_tree k v))"
    using assms(1,2) order_less_trans [OF assms(1,2)] by (simp add: db_tree_def pfx_node_def)
  moreover have "map_of (inorder (db_tree k v)) (ci_key s) \<noteq> None"
    using assms(4) by (auto simp: db_tree_def pfx_node_def PREFIX_COMMITTED_INTENTION_def)
  moreover have "rbt (db_tree k v)"
    unfolding rbt_def by (auto simp: db_tree_def pfx_node_def intro!: exI [of _ 1])
  moreover have "nd_rid nd = int64_min \<or> 0 \<le> nd_rid nd \<and> nd_rid nd \<le> sint s"
    if "nodes (db_heap_sample k v) i = Some nd" for i nd
    using that assms(3) by (auto simp: db_heap_sample_def pfx_node_def split: if_splits)
  ultimately show ?thesis using heap_ok_sample by (simp add: db_inv_def db_at_def db_tree_def)
qed

lemma db_inv_sample: "db_inv db_sample tree_sample"
  unfolding db_sample_def tree_sample_def
  by (rule db_inv_at) (simp_all add: prefix_string_def less_char_def)

lemma db_inv_sample2: "db_inv db_sample2 tree_sample2"
  unfolding db_sample2_def tree_sample2_def
  by (rule db_inv_at) (simp_all add: prefix_string_def less_char_def setw20_less PREFIX_COMMITTED_INTENTION_def)

section \<open>Processing the next intention\<close>

lemma sint_less:
  assumes "(r :: u64) < p" and "0 \<le> sint p"
  shows "sint r < sint p"
proof -
  have s: "sint w = uint w - 2 ^ 64 * of_bool (bit (uint w) 63)" for w :: u64
    using signed_take_bit_eq_take_bit_minus [of 63 "uint w"]
    by (simp add: sint_uint take_bit_int_eq_self uint_bounded [where 'a = 64, simplified])
  have "uint p < 2 ^ 64" using uint_bounded [of p] by simp
  then have "sint p = uint p" using assms(2) s [of p] by (cases "bit (uint p) 63") simp_all
  moreover have "sint r \<le> uint r" using s [of r] by simp
  moreover have "uint r < uint p" using assms(1) by (simp add: word_less_def)
  ultimately show ?thesis by simp
qed

text \<open>The abstract database is a map; committing the intention at \<open>pos\<close> applies its operations and enters \<open>pos\<close>
  into the index of committed intentions.\<close>

definition commit_spec :: "u64 \<Rightarrow> intention \<Rightarrow> (string \<rightharpoonup> string) \<Rightarrow> (string \<rightharpoonup> string)" where
  "commit_spec pos i m = (apply_ops (i_ops (int_msg i)) m)(prefix_string PREFIX_COMMITTED_INTENTION (setw20 pos) \<mapsto> [])"

text \<open>\<open>next_intention D t new pos i\<close>: the database with the tree \<open>t\<close>, which has committed \<open>new\<close> since it was opened, has
  processed the log up to the intention \<open>i\<close> at \<open>pos\<close>.\<close>

definition next_intention ::
  "db \<Rightarrow> (string, string) ntree \<Rightarrow> u64 list \<Rightarrow> u64 \<Rightarrow> intention \<Rightarrow> bool" where
  "next_intention D t new pos i \<longleftrightarrow>
     db_inv D t \<and> indexed new (committed_intentions D) \<and> (\<forall>p \<in> set new. p < pos) \<and>
     root_snapshot D < pos \<and> last_intention_processed D < pos \<and> 0 \<le> sint pos \<and>
     Position i = Some pos \<and> (\<forall>p \<in> set (i_ops (int_msg i)). op_ok p)"

text \<open>A tree that a finished transaction left behind stands for the effect of its intention.\<close>

definition finished_ok :: "db \<Rightarrow> (string, string) ntree \<Rightarrow> u64 \<Rightarrow> intention \<Rightarrow> bool" where
  "finished_ok D t pos i \<longleftrightarrow>
     (\<forall>T. map_of (finished_txns D) pos = Some (Some T) \<longrightarrow>
        tree_ready False pos (apply_ops (i_ops (int_msg i)) (map_of (inorder t))) T)"

lemma next_tree_index:
  "next_tree serial pos i (D\<lparr>committed_intentions := x\<rparr>) =
    map_option (\<lambda>(e, T, D1). (e, T, D1\<lparr>committed_intentions := x\<rparr>)) (next_tree serial pos i D)"
  by (cases "ReplayIntention i (new_ptree (db_heap D) (db_root D) (sint pos) (Some pos))")
    (auto simp: next_tree_def Let_def split: prod.splits option.splits)

lemma next_tree_ready:
  assumes "next_intention D t new pos i" and "serial \<longrightarrow> finished_ok D t pos i"
  shows "\<exists>e T D1. next_tree serial pos i D = Some (e, T, D1) \<and>
    finished_txns D1 = (if serial then snd (fin_Find pos (finished_txns D)) else finished_txns D) \<and>
    tree_ready e pos (apply_ops (i_ops (int_msg i)) (map_of (inorder t))) T"
proof -
  have I: "db_inv D t" "root_snapshot D < pos" "0 \<le> sint pos" "int_pos i = Some pos"
    "\<forall>p \<in> set (i_ops (int_msg i)). op_ok p"
    using assms(1) by (auto simp: next_intention_def Position_def)
  obtain T where T: "ReplayIntention i (new_ptree (db_heap D) (db_root D) (sint pos) (Some pos)) = Some T"
    "tree_ready True pos (apply_ops (i_ops (int_msg i)) (map_of (inorder t))) T"
    using replay_tree_ready [OF I(1) sint_less [OF I(2,3)] I(3,5)] I(4)
    by (auto simp: ReplayIntention_def int_ops_def)
  show ?thesis
  proof (cases "serial \<and> fst (fin_Find pos (finished_txns D)) \<noteq> None")
    case True
    then show ?thesis
      using assms(2) by (auto simp: next_tree_def fin_Find_def finished_ok_def split: option.splits)
  next
    case False
    then show ?thesis
      using T by (cases serial; cases "fin_Find pos (finished_txns D)") (auto simp: next_tree_def)
  qed
qed

text \<open>The state after the intention at \<open>pos\<close> has been committed.\<close>

definition committed_state :: "db \<Rightarrow> (string, string) ntree \<Rightarrow> u64 list \<Rightarrow> u64 \<Rightarrow> intention \<Rightarrow> db \<Rightarrow> (string, string) ntree \<Rightarrow> bool" where
  "committed_state D t new pos i D' t' \<longleftrightarrow>
     db_inv D' t' \<and> map_of (inorder t') = commit_spec pos i (map_of (inorder t)) \<and>
     root_snapshot D' = pos \<and> last_intention_processed D' = pos \<and> indexed (new @ [pos]) (committed_intentions D') \<and>
     Notify (Token i) pos True (txn_finder D) = Some (txn_finder D')"

lemma commit_effect:
  assumes "next_intention D t new pos i" and "serial \<longrightarrow> finished_ok D t pos i"
    and "Notify (Token i) pos True (txn_finder D) \<noteq> None"
  shows "\<exists>D' t'. commit_intention serial pos i D = Some D' \<and> committed_state D t new pos i D' t' \<and> service D' = service D \<and>
    finished_txns D' = (if serial then snd (fin_Find pos (finished_txns D)) else finished_txns D)"
proof -
  obtain index where x: "index_push pos (committed_intentions D) = Some index" "indexed (new @ [pos]) index"
    using indexed_push assms(1) unfolding next_intention_def by blast
  obtain F where F: "Notify (Token i) pos True (txn_finder D) = Some F" using assms(3) by blast
  obtain e T D1 where n: "next_tree serial pos i D = Some (e, T, D1)"
    "finished_txns D1 = (if serial then snd (fin_Find pos (finished_txns D)) else finished_txns D)"
    "tree_ready e pos (apply_ops (i_ops (int_msg i)) (map_of (inorder t))) T"
    using next_tree_ready [OF assms(1,2)] by blast
  have n': "next_tree serial pos i (D\<lparr>committed_intentions := index\<rparr>) =
      Some (e, T, D1\<lparr>committed_intentions := index\<rparr>)"
    using n(1) by (simp add: next_tree_index)
  have I: "last_intention_processed D < pos" "root_snapshot D \<noteq> pos" "db_inv D t" "\<forall>p \<in> set (i_ops (int_msg i)). op_ok p"
    using assms(1) by (auto simp: next_intention_def)
  have "apply_ops (i_ops (int_msg i)) (map_of (inorder t)) (ci_key (root_snapshot D)) \<noteq> None"
    using apply_ops_other [OF I(4) ci_key_not_user] I(3) by (simp add: db_inv_def)
  from commit_tree_effect [OF x(1) n' n(3) this I(2,1) F] show ?thesis
    using x(2) n(2) F unfolding committed_state_def commit_spec_def by auto
qed

lemma db_inv_Get:
  assumes "db_inv D t"
  shows "db_Get k D = Some (case map_of (inorder t) (prefix_string PREFIX_USER k) of None \<Rightarrow> Inl ENOENT | Some v \<Rightarrow> Inr v)"
  using assms Get_loop_tree [of "db_heap D" t "prefix_string PREFIX_USER k"]
  by (simp add: db_Get_def GetSnapshot_def db_inv_def)

section \<open>Properties\<close>

text \<open>C22: what a transaction did to its own tree is what replaying its intention does. A transaction begun on the
  database completes any list of calls and records one operation per call; on every tree object that
  stands for the same map as the snapshot, replaying the recorded operations completes and gives a tree
  that stands for the same map as the transaction's own tree.\<close>

theorem replay_equals_transaction:
  assumes "db_inv D t" and "in_flight_txn_rid D < 0" and "in_flight_txn_rid D \<noteq> int64_min"
  shows "\<exists>x D' x' T i m'. BeginTransaction tok D = Some (x, D') \<and> run_calls as x = Some x' \<and>
    tree x' = Some T \<and> txn_intention x' = Some i \<and> i_ops (int_msg i) = map recorded as \<and> represents T m' \<and>
    (\<forall>T0. represents T0 (map_of (inorder t)) \<longrightarrow>
       (\<exists>T1. ReplayIntention (i\<lparr>int_pos := Some pos\<rparr>) T0 = Some T1 \<and> represents T1 m'))"
proof -
  let ?m = "map_of (inorder t)"
  have "represents (new_ptree (db_heap D) (db_root D) (in_flight_txn_rid D) None) ?m"
    using new_ptree_replaying(1) [OF assms(1) disjI2 [OF assms(2)] assms(3), of "sint (root_snapshot D) + 1"]
    by (simp add: replaying_def)
  then obtain x D' where x: "BeginTransaction tok D = Some (x, D')" "live ?m [] x"
    using assms(2) by (auto simp: BeginTransaction_def new_txn_def live_def new_intention_def)
  obtain x' where x': "run_calls as x = Some x'" "live ?m (map recorded as) x'"
    using run_calls_live [OF x(2), of as] by auto
  then obtain T i where T: "tree x' = Some T" "txn_intention x' = Some i" "i_ops (int_msg i) = map recorded as"
    "represents T (apply_ops (map recorded as) ?m)"
    by (auto simp: live_def)
  have "\<exists>T1. ReplayIntention (i\<lparr>int_pos := Some pos\<rparr>) T0 = Some T1 \<and> represents T1 (apply_ops (map recorded as) ?m)"
    if "represents T0 ?m" for T0
    using replay_represents [OF that, of "map recorded as"] recorded_ok T(3)
    by (auto simp: ReplayIntention_def int_ops_def)
  with x(1) x'(1) T show ?thesis by blast
qed

theorem replay_equals_transaction_witness:
  "\<exists>x D' x' T i m'. BeginTransaction 3 db_sample = Some (x, D') \<and>
    run_calls [CPut ''k'' ''v'', CGet ''k'', CDelete ''a''] x = Some x' \<and>
    tree x' = Some T \<and> txn_intention x' = Some i \<and>
    i_ops (int_msg i) = map recorded [CPut ''k'' ''v'', CGet ''k'', CDelete ''a''] \<and> represents T m' \<and>
    (\<forall>T0. represents T0 (map_of (inorder tree_sample)) \<longrightarrow>
       (\<exists>T1. ReplayIntention (i\<lparr>int_pos := Some 8\<rparr>) T0 = Some T1 \<and> represents T1 m'))"
  by (rule replay_equals_transaction [OF db_inv_sample]) (simp_all add: db_sample_def db_at_def int64_min_def)

text \<open>C23: a serial intention, one whose snapshot is the current root or that only copies, is committed. The
  transaction processor completes its turn and reports the commit; the invariant of the database holds again, its
  tree stands for the map with the operations of the intention applied and its position entered in the catalog of
  committed intentions, the snapshot and the last processed position are the intention's, the index has it, and
  user lookups see the new map. This holds whether the tree comes from the finished transaction or from
  replaying the intention.\<close>

theorem serial_commit_refines:
  assumes "next_intention D t new pos i" and "root_snapshot D = Snapshot i \<or> Flush i"
    and "finished_ok D t pos i" and "Notify (Token i) pos True (txn_finder D) \<noteq> None"
  shows "\<exists>D' t'. process_intention z c i D l = Some (True, D', l) \<and> committed_state D t new pos i D' t' \<and>
    (\<forall>k. db_Get k D' = Some (case commit_spec pos i (map_of (inorder t)) (prefix_string PREFIX_USER k) of
       None \<Rightarrow> Inl ENOENT | Some v \<Rightarrow> Inr v))"
proof -
  obtain D' t' where D': "commit_intention True pos i D = Some D'" "committed_state D t new pos i D' t'"
    using commit_effect [OF assms(1) _ assms(4)] assms(3) by blast
  have "root_snapshot D < pos" "Position i = Some pos" using assms(1) by (simp_all add: next_intention_def)
  moreover have "root_snapshot D \<noteq> Snapshot i \<Longrightarrow> Flush i" using assms(2) by blast
  ultimately have "process_intention z c i D l = Some (True, D', l)"
    using D'(1) assms(2) by (auto simp: process_intention_def)
  moreover have "db_inv D' t'" "map_of (inorder t') = commit_spec pos i (map_of (inorder t))"
    using D'(2) by (simp_all add: committed_state_def)
  ultimately show ?thesis using D'(2) db_inv_Get [of D' t'] by auto
qed

definition get_intention :: intention where
  "get_intention = intention_at \<lparr>i_snapshot = 7, i_token = 5, i_flush = False, i_ops = [recorded (CGet ''a'')]\<rparr> 9"

lemma next_intention_sample: "next_intention db_sample tree_sample [] 9 get_intention"
  using db_inv_sample
  by (simp add: next_intention_def db_sample_def db_at_def indexed_def get_intention_def intention_at_def Position_def)

theorem serial_commit_refines_witness:
  "\<exists>D' t'. process_intention zlog_sample codec_sample get_intention db_sample log3 = Some (True, D', log3) \<and>
    committed_state db_sample tree_sample [] 9 get_intention D' t' \<and>
    (\<forall>k. db_Get k D' = Some (case commit_spec 9 get_intention (map_of (inorder tree_sample)) (prefix_string PREFIX_USER k) of
       None \<Rightarrow> Inl ENOENT | Some v \<Rightarrow> Inr v))"
  by (rule serial_commit_refines [OF next_intention_sample])
    (simp_all add: db_sample_def db_at_def finished_ok_def get_intention_def intention_at_def Snapshot_def Notify_def new_finder_def)

text \<open>The keys that an intention touches meet the keys that the committed intention at \<open>p\<close> updates.\<close>

definition conflicts_at :: "(u64 \<Rightarrow> pb_intention) \<Rightarrow> intention \<Rightarrow> u64 \<Rightarrow> bool" where
  "conflicts_at f i p \<longleftrightarrow> OpKeys i \<inter> UpdateOpKeys (intention_at (f p) p) \<noteq> {}"

definition zone_conflict :: "(u64 \<Rightarrow> pb_intention) \<Rightarrow> intention \<Rightarrow> u64 list \<Rightarrow> u64 list \<Rightarrow> bool" where
  "zone_conflict f i cs index \<longleftrightarrow> (\<exists>p \<in> set cs. in_zone (Snapshot i) index p \<and> conflicts_at f i p)"

lemma concurrent_ok:
  assumes "conflict_view D t old new" and "Snapshot i \<in> set (old @ new)" and "Snapshot i < root_snapshot D"
    and "log_spec z slots" and "reliable z slots" and "coherent c slots (service D) l"
    and "\<forall>p \<in> set (old @ new). Snapshot i \<le> p \<longrightarrow> holds_intention c slots l p (f p)"
    and "room (service D) P" and "set (old @ new) \<subseteq> P"
  shows "\<exists>S l'. ProcessConcurrentIntention z c i D l =
      Some (zone_conflict f i (old @ new) (committed_intentions D), D\<lparr>service := S\<rparr>, l') \<and>
    coherent c slots S l' \<and> grows slots l l' \<and> room S P"
proof -
  obtain ps where ps: "conflict_zone (Snapshot i) D = Some ps" "distinct ps"
    "set ps = {x \<in> set (old @ new). in_zone (Snapshot i) (committed_intentions D) x}"
    using conflict_zone_ok [OF assms(1-3)] by blast
  have sub: "set ps \<subseteq> P" using ps(3) assms(9) by blast
  have "skeys (entry_cache (service D))" using assms(6) by (simp add: coherent_def)
  note r = room_missing [OF this ps(2) sub assms(8)]
  have "\<forall>p \<in> set ps. holds_intention c slots l p (f p)" using assms(7) ps(3) by (auto simp: in_zone_def order_le_less)
  from ReadIntentions_ok [OF assms(4-6) ps(2) this r] obtain others S l' where r:
    "ReadIntentions z c ps (service D) l = Some (others, S, l')"
    "mset others = mset (map (\<lambda>p. intention_at (f p) p) ps)" "coherent c slots S l'" "grows slots l l'"
    "cache_size S = cache_size (service D)"
    "dom (map_of (entry_cache S)) = dom (map_of (entry_cache (service D))) \<union> set ps"
    by blast
  have "set others = (\<lambda>p. intention_at (f p) p) ` set ps" using mset_eq_setD [OF r(2)] by simp
  then have "conflicts i others \<longleftrightarrow> (\<exists>p \<in> set ps. conflicts_at f i p)"
    unfolding conflicts_def conflicts_at_def by auto
  then have "conflicts i others = zone_conflict f i (old @ new) (committed_intentions D)"
    using ps(3) by (auto simp: zone_conflict_def)
  moreover have "ProcessConcurrentIntention z c i D l = Some (conflicts i others, D\<lparr>service := S\<rparr>, l')"
    using ps(1) r(1) by (simp add: ProcessConcurrentIntention_def)
  moreover have "room S P" using assms(8) sub unfolding room_def r(5,6) by (simp add: Un_absorb1 Un_assoc)
  ultimately show ?thesis using r(3,4) by auto
qed

lemma concurrent_turn:
  assumes "next_intention D t new pos i" and "conflict_view D t old new"
    and "Snapshot i \<in> set (old @ new)" and "Snapshot i < root_snapshot D" and "\<not> Flush i"
    and "log_spec z slots" and "reliable z slots" and "coherent c slots (service D) l"
    and "\<forall>p \<in> set (old @ new). Snapshot i \<le> p \<longrightarrow> holds_intention c slots l p (f p)"
    and "room (service D) P" and "set (old @ new) \<subseteq> P" and "\<forall>ok. Notify (Token i) pos ok (txn_finder D) \<noteq> None"
  shows "\<exists>D' t' l'. process_intention z c i D l =
      Some (\<not> zone_conflict f i (old @ new) (committed_intentions D), D', l') \<and>
    coherent c slots (service D') l' \<and> grows slots l l' \<and> room (service D') P \<and> finished_txns D' = finished_txns D \<and>
    (if zone_conflict f i (old @ new) (committed_intentions D)
     then db_inv D' t \<and> db_heap D' = db_heap D \<and> db_root D' = db_root D \<and> root_snapshot D' = root_snapshot D \<and>
       committed_intentions D' = committed_intentions D \<and> last_intention_processed D' = pos \<and>
       Notify (Token i) pos False (txn_finder D) = Some (txn_finder D')
     else committed_state D t new pos i D' t')"
proof -
  let ?b = "zone_conflict f i (old @ new) (committed_intentions D)"
  obtain S l' where r: "ProcessConcurrentIntention z c i D l = Some (?b, D\<lparr>service := S\<rparr>, l')"
    "coherent c slots S l'" "grows slots l l'" "room S P"
    using concurrent_ok [OF assms(2-4) assms(6-11)] by blast
  let ?D = "D\<lparr>service := S\<rparr>"
  have I: "root_snapshot D < pos" "Position i = Some pos" "last_intention_processed D < pos" "db_inv D t"
    using assms(1) by (simp_all add: next_intention_def)
  have "root_snapshot D \<noteq> Snapshot i" using assms(4) by auto
  then have p: "process_intention z c i D l =
      (if ?b then do { D \<leftarrow> abort_intention pos i ?D; Some (False, D, l') }
       else do { D \<leftarrow> commit_intention False pos i ?D; Some (True, D, l') })"
    using I(1,2) assms(5) r(1) by (simp add: process_intention_def)
  show ?thesis
  proof (cases ?b)
    case True
    obtain F where F: "Notify (Token i) pos False (txn_finder D) = Some F" using assms(12) by blast
    let ?D' = "(NotifyIntention pos ?D)\<lparr>txn_finder := F, last_intention_processed := pos\<rparr>"
    have "abort_intention pos i ?D = Some ?D'"
      using F I(3) by (simp add: abort_intention_def NotifyTransaction_def NotifyIntention_def Let_def)
    moreover have "db_inv ?D' t" using I(4) by (simp add: db_inv_def NotifyIntention_def)
    ultimately show ?thesis using True p r(2-4) F by (auto simp: NotifyIntention_def)
  next
    case False
    have n: "next_intention ?D t new pos i" using assms(1) by (simp add: next_intention_def db_inv_def)
    have "Notify (Token i) pos True (txn_finder ?D) \<noteq> None" using assms(12) by simp
    from commit_effect [OF n _ this, of False] obtain D' t' where D': "commit_intention False pos i ?D = Some D'"
      "committed_state ?D t new pos i D' t'" "service D' = S" "finished_txns D' = finished_txns D"
      by auto
    then have "committed_state D t new pos i D' t'" by (simp add: committed_state_def)
    then show ?thesis using False p r(2-4) D' by auto
  qed
qed


definition log9 :: "slot list" where
  "log9 = replicate 9 (Written ''i'')"

lemma conflict_view_sample: "conflict_view db_sample2 tree_sample2 [7, 8] []"
proof -
  have "committed_in (inorder tree_sample2) [] [7, 8] [(prefix_string ''U'' ''b'', ''y'')]"
    by (auto simp: committed_in_def tree_sample2_def db_tree_def pfx_node_def ci_entry_def
        PREFIX_COMMITTED_INTENTION_def has_prefix_iff prefix_string_def)
  moreover have "snap (db_heap db_sample2) 2 tree_sample2"
    using db_inv_sample2 by (simp add: db_inv_def snap_def tree_sample2_def db_tree_def)
  moreover have "np_ref (db_root db_sample2) = Some 2" "root_snapshot db_sample2 = 8"
    "committed_intentions db_sample2 = []"
    by (simp_all add: db_sample2_def db_at_def)
  ultimately show ?thesis unfolding conflict_view_def by (auto simp: indexed_def)
qed




text \<open>Validation accepts the tree of every database in good order: it completes from the root and returns a
  black height that is not zero.\<close>

lemma Validate_accepts:
  assumes "db_inv D t"
  shows "\<exists>rt h. np_ref (db_root D) = Some rt \<and> Validate rt (db_heap D) = Some h \<and> 0 < h"
proof -
  obtain nn where nn: "nodes (db_heap D) Nil_id = Some nn" "is_nil_node nn"
    using assms by (auto simp: db_inv_def heap_ok_def)
  obtain n where n: "hb t n" using assms by (auto simp: db_inv_def rbt_def)
  have "Validate (tid t) (db_heap D) = Some (Suc n)"
    using assms nn by (intro Validate_ok [OF nn(1) _ _ _ _ n]) (auto simp: db_inv_def rbt_def is_nil_node_def)
  then show ?thesis using assms by (auto simp: db_inv_def)
qed

text \<open>Validation compares a node only with its children, so it also accepts a tree that is not a search tree: here
  25 is in the left subtree of 20.\<close>

definition bad_node :: "nat \<Rightarrow> nat \<Rightarrow> int \<Rightarrow> bool \<Rightarrow> (int, string) node" where
  "bad_node l r k c =
     \<lparr>nd_left = sptr l, nd_right = sptr r, nd_key = k, nd_val = [], nd_red = c, nd_rid = 7, nd_read_only = True\<rparr>"

definition bad_heap :: "(int, string) heap" where
  "bad_heap =
     \<lparr>nodes = [0 \<mapsto> bad_node 0 0 0 False, 1 \<mapsto> bad_node 2 3 20 False, 2 \<mapsto> bad_node 0 4 10 False,
               3 \<mapsto> bad_node 0 0 30 False, 4 \<mapsto> bad_node 0 0 25 True],
      next_node = 5\<rparr>"

lemma Validate_accepts_unordered:
  "Validate 1 bad_heap = Some 3 \<and> Get_loop 25 1 bad_heap = Some (Inl ENOENT)"
proof -
  have v4: "Validate 0 bad_heap = Some 1" "Validate 4 bad_heap = Some 1"
    by (simp_all add: Validate.simps [of 0] Validate.simps [of 4] bad_heap_def bad_node_def)
  then have "Validate 2 bad_heap = Some 2" "Validate 3 bad_heap = Some 2"
    by (simp_all add: Validate.simps [of 2] Validate.simps [of 3] bad_heap_def bad_node_def)
  with v4 have "Validate 1 bad_heap = Some 3"
    by (subst Validate.simps) (simp add: bad_heap_def bad_node_def)
  moreover have "Get_loop 25 1 bad_heap = Some (Inl ENOENT)"
    by (subst Get_loop.simps) (simp add: Get_loop.simps [of _ 3] Get_loop.simps [of _ 0] bad_heap_def bad_node_def)
  ultimately show ?thesis ..
qed

text \<open>Garbage collection works on the oldest nodes. On a tree whose nodes have distinct addresses, the
  traversal completes; the full traversal collects every node below the root in the order of the addresses,
  and the one of \<^verbatim>\<open>gc\<close>, which keeps at most five entries on the way, ends with the first five of them. The
  intention made from them copies exactly these keys and has no effect on the map.\<close>

lemma gc_copies_oldest_nodes:
  assumes "tree_at (nodes (db_heap D)) t" and "addressed t" and "distinct (map (loc \<circ> fst) (node_list t))"
  shows "\<exists>all i. scan_nodes None (tid t) [] (db_heap D) [] = Some all \<and>
    sorted_wrt address_less (map fst all) \<and> set all = set (node_list t) \<and>
    scan_nodes (Some 5) (tid t) [] (db_heap D) [] = Some (take 5 all) \<and>
    copy_ops (map snd (take 5 all)) (new_intention 0 0) = Some i \<and>
    map op_key (i_ops (int_msg i)) = map snd (take 5 all) \<and> apply_ops (i_ops (int_msg i)) m = m"
proof -
  have c: "\<exists>i'. copy_ops ks i = Some i' \<and> map op_key (i_ops (int_msg i')) = map op_key (i_ops (int_msg i)) @ ks \<and>
      apply_ops (i_ops (int_msg i')) m = apply_ops (i_ops (int_msg i)) m" if "int_pos i = None" for ks i
    using that
  proof (induction ks arbitrary: i)
    case (Cons k ks)
    then show ?case
      using Cons.IH [of "i\<lparr>int_msg := (int_msg i)\<lparr>i_ops := i_ops (int_msg i) @ [\<lparr>op_type = COPY, op_key = k, op_val = None\<rparr>]\<rparr>\<rparr>"]
      by (auto simp: int_Copy_def add_op_def apply_ops_append)
  qed simp
  obtain all where "scan_nodes None (tid t) [] (db_heap D) [] = Some all"
    "scan_nodes (Some 5) (tid t) [] (db_heap D) [] = Some (take 5 all)"
    "sorted_wrt address_less (map fst all)" "set all = set (node_list t)"
    using scan_nodes_ok [OF assms, of 5] by blast
  moreover have "int_pos (new_intention 0 0) = None" "i_ops (int_msg (new_intention 0 0)) = []"
    by (simp_all add: new_intention_def)
  ultimately show ?thesis using c [of "new_intention 0 0" "map snd (take 5 all)"] by auto
qed

text \<open>The first thread that waits for a position is woken by the first notification that reaches it; a second
  thread that waits for the same position is not registered, and no sequence of notifications wakes it.\<close>

theorem second_waiter_never_woken:
  assumes "last_intention_processed D < pos" and "map_of (waiting_on_log_entry D) pos = None" and "w \<noteq> w'"
    and "w' \<notin> snd ` set (waiting_on_log_entry D)" and "w' \<notin> set (woken D)" and "pos \<le> p"
  shows "\<exists>D1 D2. WaitOnIntention w pos D = (False, D1) \<and> WaitOnIntention w' pos D1 = (False, D2) \<and>
    w \<in> set (woken (NotifyIntention p D2)) \<and> w' \<notin> set (woken (fold NotifyIntention ps D2))"
proof -
  let ?D = "D\<lparr>waiting_on_log_entry := put_list pos w (waiting_on_log_entry D)\<rparr>"
  have f: "w' \<notin> set (woken (fold NotifyIntention ps E))"
    if "w' \<notin> snd ` set (waiting_on_log_entry E)" "w' \<notin> set (woken E)" for E
    using that by (induction ps arbitrary: E) (auto simp: NotifyIntention_def image_iff)
  have m: "map_of (put_list pos w (waiting_on_log_entry D)) pos = Some w" by (simp add: map_of_put_list)
  have "WaitOnIntention w pos D = (False, ?D)" using assms(1,2) by (simp add: WaitOnIntention_def not_le)
  moreover have "WaitOnIntention w' pos ?D = (False, ?D)" using assms(1) m by (simp add: WaitOnIntention_def not_le)
  moreover have "w \<in> set (woken (NotifyIntention p ?D))"
    using map_of_SomeD [OF m] assms(6) by (force simp: NotifyIntention_def)
  moreover have "w' \<notin> set (woken (fold NotifyIntention ps ?D))"
    by (rule f) (use assms(3-5) in \<open>auto simp: put_list_def\<close>)
  ultimately show ?thesis by blast
qed

end
