(* ===== verification/DBRun.thy ===== *)
theory DBRun
  imports DBTheorems
begin

text \<open>
  Whole runs of the database. The transaction processor works through the intentions of the log in their order; over
  any number of them it refines an abstract database, which is a map together with the positions committed so far.
  A transaction from its start to the decision is such a run too: its own tree is committed, and the thread that
  waits for it learns the decision.
\<close>

section \<open>The catalog of committed intentions\<close>

text \<open>The keys with the prefix of the catalog are exactly those of the positions \<open>cs\<close>.\<close>

definition catalog :: "(string \<rightharpoonup> string) \<Rightarrow> u64 list \<Rightarrow> bool" where
  "catalog m cs \<longleftrightarrow> (\<forall>k. has_prefix PREFIX_COMMITTED_INTENTION k \<longrightarrow> m k = (if k \<in> ci_key ` set cs then Some [] else None))"

lemma prefix_below: "prefix_string ''C'' x < k \<Longrightarrow> k < prefix_string ''C'' y \<Longrightarrow> has_prefix ''C'' k"
  by (cases k; cases "tl k") (auto simp: prefix_string_def has_prefix_def less_char_def)

text \<open>Keys with a common prefix are a block of a sorted list.\<close>

lemma sorted_block:
  assumes "skeys ps" and "\<And>x y k. P x \<Longrightarrow> P y \<Longrightarrow> x < k \<Longrightarrow> k < y \<Longrightarrow> P k"
  shows "\<exists>A B. ps = A @ filter (\<lambda>p. P (fst p)) ps @ B \<and> (\<forall>q \<in> set A \<union> set B. \<not> P (fst q))"
  using assms(1)
proof (induction ps)
  case (Cons p ps)
  obtain A B where I: "ps = A @ filter (\<lambda>p. P (fst p)) ps @ B" "\<forall>q \<in> set A \<union> set B. \<not> P (fst q)"
    using Cons by auto
  show ?case
  proof (cases "P (fst p)")
    case False
    then show ?thesis using I by (intro exI [of _ "p # A"] exI [of _ B]) auto
  next
    case True
    show ?thesis
    proof (cases "filter (\<lambda>p. P (fst p)) ps")
      case Nil
      then have "\<forall>q \<in> set ps. \<not> P (fst q)" by (simp add: filter_empty_conv)
      then show ?thesis using True Nil by (intro exI [of _ "[]"] exI [of _ ps]) simp
    next
      case (Cons y ys)
      have y: "P (fst y)" "y \<in> set ps" using Cons filter_eq_ConsD [OF Cons] by auto
      have "A = []"
      proof (rule ccontr)
        assume "A \<noteq> []"
        then obtain a A' where a: "A = a # A'" by (cases A) auto
        have "fst p < fst a" "fst a < fst y" 
          using Cons.prems I(1) unfolding a \<open>filter (\<lambda>p. P (fst p)) ps = y # ys\<close> by (auto simp: sorted_wrt_append) 
        then have "P (fst a)" using assms(2) [OF True y(1)] by blast
        then show False using I(2) a by auto
      qed
      then show ?thesis using True I by (intro exI [of _ "[]"] exI [of _ B]) simp
    qed
  qed
qed simp

lemma sorted_lists_eq:
  fixes xs ys :: "('k::linorder \<times> 'v) list"
  assumes "skeys xs" and "skeys ys" and "set xs = set ys"
  shows "xs = ys"
proof (rule map_sorted_distinct_set_unique [of fst])
  show "inj_on fst (set xs \<union> set ys)"
    using assms(1,3) unfolding strict_sorted_iff distinct_map by simp
qed (use assms in \<open>simp_all add: strict_sorted_iff\<close>)

lemma catalog_committed_in:
  assumes "skeys ps" and "catalog (map_of ps) cs" and "sorted_wrt (<) cs"
  shows "\<exists>A B. committed_in ps A cs B"
proof -
  let ?P = "has_prefix PREFIX_COMMITTED_INTENTION"
  have "\<exists>A B. ps = A @ filter (\<lambda>p. ?P (fst p)) ps @ B \<and> (\<forall>q \<in> set A \<union> set B. \<not> ?P (fst q))"
    by (rule sorted_block [OF assms(1)])
      (use prefix_below in \<open>unfold PREFIX_COMMITTED_INTENTION_def has_prefix_iff, blast\<close>)
  then obtain A B where
    ab: "ps = A @ filter (\<lambda>p. ?P (fst p)) ps @ B" "\<forall>q \<in> set A \<union> set B. \<not> ?P (fst q)"
    by blast
  have d: "distinct (map fst ps)" using assms(1) by (simp add: strict_sorted_iff)
  have "filter (\<lambda>p. ?P (fst p)) ps = map ci_entry cs"
  proof (rule sorted_lists_eq)
    show "skeys (filter (\<lambda>p. ?P (fst p)) ps)"
      using assms(1) by (simp add: sorted_wrt_map sorted_wrt_filter)
    show "skeys (map ci_entry cs)"
      using assms(3) by (simp add: sorted_wrt_map ci_entry_def prefix_string_less setw20_less)
    have h: "(k, v) \<in> set ps \<and> ?P k \<longleftrightarrow> v = [] \<and> k \<in> ci_key ` set cs" for k v
      using assms(2) map_of_eq_Some_iff [OF d, of k v] by (auto simp: catalog_def has_prefix_iff split: if_splits)
    show "set (filter (\<lambda>p. ?P (fst p)) ps) = set (map ci_entry cs)"
    proof (rule set_eqI)
      fix p
      show "p \<in> set (filter (\<lambda>p. ?P (fst p)) ps) \<longleftrightarrow> p \<in> set (map ci_entry cs)"
        using h [of "fst p" "snd p"] by (cases p) (auto simp: ci_entry_def image_iff)
    qed
  qed
  then show ?thesis using ab unfolding committed_in_def by metis
qed

lemma catalog_commit:
  assumes "catalog m cs" and "\<forall>p \<in> set (i_ops (int_msg i)). op_ok p"
  shows "catalog (commit_spec pos i m) (cs @ [pos])"
proof -
  have "\<not> has_prefix PREFIX_USER k" if "has_prefix PREFIX_COMMITTED_INTENTION k" for k
    using that by (auto simp: has_prefix_def PREFIX_USER_def PREFIX_COMMITTED_INTENTION_def take_Suc split: list.splits)
  then have "apply_ops (i_ops (int_msg i)) m k = m k" if "has_prefix PREFIX_COMMITTED_INTENTION k" for k
    using that apply_ops_other [OF assms(2)] by blast
  then show ?thesis using assms(1) by (auto simp: catalog_def commit_spec_def)
qed

section \<open>The abstract database\<close>

text \<open>The map, and the positions of the committed intentions: those found when the database was opened, and those
  committed since.\<close>

record adb =
  a_map :: "string \<rightharpoonup> string"
  a_old :: "u64 list"
  a_new :: "u64 list"

abbreviation a_committed :: "adb \<Rightarrow> u64 list" where
  "a_committed A \<equiv> a_old A @ a_new A"

text \<open>The decision on the intention at \<open>p\<close>, where \<open>f\<close> gives the messages of the log: it commits when its snapshot is the
  newest state, when it only copies, or when nothing in its conflict zone updates one of its keys.\<close>

definition a_decide :: "(u64 \<Rightarrow> pb_intention) \<Rightarrow> u64 \<Rightarrow> adb \<Rightarrow> bool" where
  "a_decide f p A \<longleftrightarrow>
     last (a_committed A) = i_snapshot (f p) \<or> i_flush (f p) \<or>
     \<not> zone_conflict f (intention_at (f p) p) (a_committed A) (drop (length (a_new A) - index_limit) (a_new A))"

definition a_step :: "(u64 \<Rightarrow> pb_intention) \<Rightarrow> u64 \<Rightarrow> adb \<Rightarrow> adb" where
  "a_step f p A =
     (if a_decide f p A
      then A\<lparr>a_map := commit_spec p (intention_at (f p) p) (a_map A), a_new := a_new A @ [p]\<rparr> else A)"

fun a_run :: "(u64 \<Rightarrow> pb_intention) \<Rightarrow> u64 list \<Rightarrow> adb \<Rightarrow> bool list \<times> adb" where
  "a_run f [] A = ([], A)"
| "a_run f (p # ps) A = (let (oks, A') = a_run f ps (a_step f p A) in (a_decide f p A # oks, A'))"

lemma a_run_Cons [simp]:
  "a_run f (p # ps) A = (a_decide f p A # fst (a_run f ps (a_step f p A)), snd (a_run f ps (a_step f p A)))"
  by (simp add: case_prod_beta)

declare a_run.simps(2) [simp del]

text \<open>The intentions at \<open>ps\<close> as transactions make them: each one has the snapshot of an intention that is committed when
  it is decided, unless it only copies.\<close>

fun a_valid :: "(u64 \<Rightarrow> pb_intention) \<Rightarrow> u64 list \<Rightarrow> adb \<Rightarrow> bool" where
  "a_valid f [] A \<longleftrightarrow> True"
| "a_valid f (p # ps) A \<longleftrightarrow>
     (i_flush (f p) \<or> i_snapshot (f p) \<in> set (a_committed A)) \<and> (\<forall>q \<in> set (i_ops (f p)). op_ok q) \<and>
     a_valid f ps (a_step f p A)"

text \<open>\<open>db_abs D A\<close>: the database implements \<open>A\<close>.\<close>

definition db_abs :: "db \<Rightarrow> adb \<Rightarrow> bool" where
  "db_abs D A \<longleftrightarrow>
     (\<exists>t. db_inv D t \<and> map_of (inorder t) = a_map A) \<and>
     sorted_wrt (<) (a_committed A) \<and> a_committed A \<noteq> [] \<and> catalog (a_map A) (a_committed A) \<and>
     root_snapshot D = last (a_committed A) \<and> indexed (a_new A) (committed_intentions D)"

lemma db_abs_view:
  assumes "db_abs D A"
  obtains t where "db_inv D t" "map_of (inorder t) = a_map A" "conflict_view D t (a_old A) (a_new A)"
proof -
  obtain t where t: "db_inv D t" "map_of (inorder t) = a_map A" using assms by (auto simp: db_abs_def)
  have "skeys (inorder t)" "np_ref (db_root D) = Some (tid t)" "snap (db_heap D) (tid t) t"
    using t(1) by (auto simp: db_inv_def snap_def)
  then have "conflict_view D t (a_old A) (a_new A)"
    using assms t(2) catalog_committed_in [of "inorder t" "a_committed A"] unfolding db_abs_def conflict_view_def by auto
  then show thesis using that t by blast
qed

lemma db_abs_Get:
  "db_abs D A \<Longrightarrow> db_Get k D = Some (case a_map A (prefix_string PREFIX_USER k) of None \<Rightarrow> Inl ENOENT | Some v \<Rightarrow> Inr v)"
  using db_inv_Get by (auto simp: db_abs_def)

lemma db_abs_same:
  assumes "db_abs D A" and "db_heap D' = db_heap D" and "db_root D' = db_root D" and "root_snapshot D' = root_snapshot D"
    and "committed_intentions D' = committed_intentions D"
  shows "db_abs D' A"
  using assms(1) unfolding db_abs_def db_inv_def assms(2-5) .

lemma db_abs_commit:
  assumes "db_abs D A" and "committed_state D t (a_new A) p (intention_at (f p) p) D' t'" and "map_of (inorder t) = a_map A"
    and "\<forall>x \<in> set (a_committed A). x < p" and "\<forall>q \<in> set (i_ops (f p)). op_ok q" and "a_decide f p A"
  shows "db_abs D' (a_step f p A)"
proof -
  have "catalog (commit_spec p (intention_at (f p) p) (a_map A)) (a_committed A @ [p])"
    using assms(1,5) by (intro catalog_commit) (simp_all add: db_abs_def intention_at_def)
  moreover have "sorted_wrt (<) (a_committed A @ [p])" using assms(1,4) by (simp add: db_abs_def sorted_wrt_append)
  ultimately show ?thesis
    using assms(2,3,6) by (auto simp: db_abs_def a_step_def committed_state_def)
qed

lemma a_step_committed: "set (a_committed (a_step f p A)) \<subseteq> insert p (set (a_committed A))"
  by (auto simp: a_step_def)

section \<open>Runs of the transaction processor\<close>

text \<open>The loop of \<^verbatim>\<open>TransactionProcessorEntry\<close> over the intentions that the iterator delivers, with the decisions.\<close>

fun process_all :: "'l zlog \<Rightarrow> codec \<Rightarrow> intention list \<Rightarrow> db \<Rightarrow> 'l \<Rightarrow> (bool list \<times> db \<times> 'l) option" where
  "process_all z c [] D l = Some ([], D, l)"
| "process_all z c (i # is) D l = do {
     (ok, D, l) \<leftarrow> process_intention z c i D l;
     (oks, D, l) \<leftarrow> process_all z c is D l;
     Some (ok # oks, D, l) }"

text \<open>No thread of this instance waits for the intentions at \<open>ps\<close>, and none of its transactions made them.\<close>

definition follows :: "(u64 \<Rightarrow> pb_intention) \<Rightarrow> u64 list \<Rightarrow> db \<Rightarrow> bool" where
  "follows f ps D \<longleftrightarrow>
     (\<forall>p \<in> set ps. token_waiters (txn_finder D) (i_token (f p)) = None \<and> map_of (finished_txns D) p = None)"

text \<open>What the processor relies on when it goes on with the intentions at \<open>ps\<close>.\<close>

definition can_process ::
  "codec \<Rightarrow> ('l \<Rightarrow> u64 \<Rightarrow> slot) \<Rightarrow> u64 set \<Rightarrow> (u64 \<Rightarrow> pb_intention) \<Rightarrow> u64 list \<Rightarrow> adb \<Rightarrow> db \<Rightarrow> 'l \<Rightarrow> bool" where
  "can_process c slots P f ps A D l \<longleftrightarrow>
     db_abs D A \<and> a_valid f ps A \<and> sorted_wrt (<) ps \<and>
     (\<forall>p \<in> set ps. (\<forall>x \<in> set (a_committed A). x < p) \<and> last_intention_processed D < p \<and> 0 \<le> sint p) \<and>
     (\<forall>p \<in> set (a_committed A) \<union> set ps. holds_intention c slots l p (f p)) \<and>
     coherent c slots (service D) l \<and> room (service D) P \<and> set (a_committed A) \<union> set ps \<subseteq> P"

lemma Notify_unknown: "token_waiters F tok = None \<Longrightarrow> Notify tok pos ok F = Some F"
  by (simp add: Notify_def)

lemma can_process_next:
  assumes "can_process c slots P f (p # ps) A D l" and "db_abs D' (a_step f p A)" and "last_intention_processed D' = p"
    and "coherent c slots (service D') l'" and "grows slots l l'" and "room (service D') P"
  shows "can_process c slots P f ps (a_step f p A) D' l'"
proof -
  have c: "a_valid f ps (a_step f p A)" "sorted_wrt (<) (p # ps)" "\<forall>q \<in> set ps. (\<forall>x \<in> set (a_committed A). x < q) \<and> 0 \<le> sint q"
    "\<forall>q \<in> set (a_committed A) \<union> set (p # ps). holds_intention c slots l q (f q)" "set (a_committed A) \<union> set (p # ps) \<subseteq> P"
    using assms(1) by (auto simp: can_process_def)
  note s = a_step_committed [of f p A]
  have "\<forall>q \<in> set ps. (\<forall>x \<in> set (a_committed (a_step f p A)). x < q) \<and> last_intention_processed D' < q \<and> 0 \<le> sint q"
    using s c(2,3) assms(3) by auto
  moreover have "\<forall>q \<in> set (a_committed (a_step f p A)) \<union> set ps. holds_intention c slots l' q (f q)"
    using s c(4) holds_intention_grows [OF _ assms(5)] by auto
  moreover have "set (a_committed (a_step f p A)) \<union> set ps \<subseteq> P" using s c(5) by auto
  ultimately show ?thesis using assms(2,4,6) c(1,2) by (simp add: can_process_def)
qed

text \<open>One intention. The tree of a transaction of this instance, if there is one, has to be the one that replaying
  would give.\<close>

lemma process_next:
  assumes "can_process c slots P f (p # ps) A D l" and "log_spec z slots" and "reliable z slots"
    and "\<forall>ok. Notify (i_token (f p)) p ok (txn_finder D) \<noteq> None"
    and "\<And>t. db_inv D t \<Longrightarrow> map_of (inorder t) = a_map A \<Longrightarrow> root_snapshot D = i_snapshot (f p) \<or> i_flush (f p) \<Longrightarrow>
      finished_ok D t p (intention_at (f p) p)"
  shows "\<exists>D' l'. process_intention z c (intention_at (f p) p) D l = Some (a_decide f p A, D', l') \<and>
    can_process c slots P f ps (a_step f p A) D' l' \<and>
    last_intention_processed D' = p \<and> Notify (i_token (f p)) p (a_decide f p A) (txn_finder D) = Some (txn_finder D') \<and>
    (finished_txns D' = finished_txns D \<or> finished_txns D' = snd (fin_Find p (finished_txns D))) \<and> grows slots l l'"
proof -
  let ?i = "intention_at (f p) p"
  have c: "db_abs D A" "coherent c slots (service D) l" "room (service D) P" "\<forall>x \<in> set (a_committed A). x < p"
    "last_intention_processed D < p" "0 \<le> sint p" "\<forall>q \<in> set (i_ops (f p)). op_ok q"
    "i_flush (f p) \<or> i_snapshot (f p) \<in> set (a_committed A)" "set (a_committed A) \<subseteq> P"
    "\<forall>q \<in> set (a_committed A). holds_intention c slots l q (f q)"
    using assms(1) by (auto simp: can_process_def)
  have i: "Snapshot ?i = i_snapshot (f p)" "Flush ?i = i_flush (f p)" "Token ?i = i_token (f p)" "Position ?i = Some p"
    "i_ops (int_msg ?i) = i_ops (f p)"
    by (simp_all add: intention_at_def Snapshot_def Flush_def Token_def Position_def)
  obtain t where t: "db_inv D t" "map_of (inorder t) = a_map A" "conflict_view D t (a_old A) (a_new A)"
    by (rule db_abs_view [OF c(1)])
  have rt: "root_snapshot D = last (a_committed A)" "a_committed A \<noteq> []" "sorted_wrt (<) (a_committed A)"
    "indexed (a_new A) (committed_intentions D)"
    using c(1) by (simp_all add: db_abs_def)
  have n: "next_intention D t (a_new A) p ?i"
    using t(1) rt c(4-7) i last_in_set [OF rt(2)] by (simp add: next_intention_def)
  have notify: "\<forall>ok. Notify (Token ?i) p ok (txn_finder D) \<noteq> None" using assms(4) i(3) by simp
  show ?thesis
  proof (cases "root_snapshot D = Snapshot ?i \<or> Flush ?i")
    case True
    then have d: "a_decide f p A" using rt(1) i by (auto simp: a_decide_def)
    obtain D' t' where D': "commit_intention True p ?i D = Some D'" "committed_state D t (a_new A) p ?i D' t'"
      "service D' = service D" "finished_txns D' = snd (fin_Find p (finished_txns D))"
      using commit_effect [OF n, of True] assms(5) [OF t(1,2)] True i notify by auto
    have p: "process_intention z c ?i D l = Some (True, D', l)"
      using D'(1) True n i(4) by (auto simp: process_intention_def next_intention_def)
    have "db_abs D' (a_step f p A)" by (rule db_abs_commit [where f = f, OF c(1) D'(2) t(2) c(4,7) d])
    then have "can_process c slots P f ps (a_step f p A) D' l"
      by (rule can_process_next [OF assms(1)]) (use D'(2,3) c(2,3) in \<open>simp_all add: committed_state_def\<close>)
    then show ?thesis using p d D'(2,4) i(3) by (auto simp: committed_state_def)
  next
    case False
    then have s: "Snapshot ?i \<in> set (a_committed A)" "\<not> Flush ?i" using c(8) i by auto
    have "x \<le> last (a_committed A)" if "x \<in> set (a_committed A)" for x
      using that rt(2,3) by (cases "a_committed A" rule: rev_cases) (auto simp: sorted_wrt_append)
    then have lt: "Snapshot ?i < root_snapshot D" using s(1) False rt(1) by (metis order_le_neq_trans)
    let ?b = "zone_conflict f ?i (a_committed A) (committed_intentions D)"
    have index: "committed_intentions D = drop (length (a_new A) - index_limit) (a_new A)"
      using rt(4) by (simp add: indexed_def)
    then have d: "a_decide f p A \<longleftrightarrow> \<not> ?b" using False rt(1) i by (auto simp: a_decide_def)
    obtain D' t' l' where D': "process_intention z c ?i D l = Some (\<not> ?b, D', l')" "coherent c slots (service D') l'"
      "grows slots l l'" "room (service D') P" "finished_txns D' = finished_txns D"
      "if ?b then db_inv D' t \<and> db_heap D' = db_heap D \<and> db_root D' = db_root D \<and> root_snapshot D' = root_snapshot D \<and>
         committed_intentions D' = committed_intentions D \<and> last_intention_processed D' = p \<and>
         Notify (Token ?i) p False (txn_finder D) = Some (txn_finder D')
       else committed_state D t (a_new A) p ?i D' t'"
      using concurrent_turn [OF n t(3) s(1) lt s(2) assms(2,3) c(2) _ c(3,9) notify, of f] c(10) by blast
    have "db_abs D' (a_step f p A) \<and> last_intention_processed D' = p \<and>
      Notify (i_token (f p)) p (a_decide f p A) (txn_finder D) = Some (txn_finder D')"
    proof (cases ?b)
      case True
      then have "db_abs D' A" using D'(6) c(1) t(2) by (auto simp: db_abs_def)
      then show ?thesis using True D'(6) d i(3) by (simp add: a_step_def)
    next
      case False
      then have "committed_state D t (a_new A) p ?i D' t'" using D'(6) by simp
      from db_abs_commit [where f = f, OF c(1) this t(2) c(4,7)] this show ?thesis
        using False d i(3) by (simp add: committed_state_def)
    qed
    then show ?thesis using can_process_next [OF assms(1) _ _ D'(2-4)] D'(1,3,5) d by auto
  qed
qed

lemma process_follows:
  assumes "can_process c slots P f (p # ps) A D l" and "log_spec z slots" and "reliable z slots" and "follows f [p] D"
  shows "\<exists>D' l'. process_intention z c (intention_at (f p) p) D l = Some (a_decide f p A, D', l') \<and>
    can_process c slots P f ps (a_step f p A) D' l' \<and> txn_finder D' = txn_finder D \<and> finished_txns D' = finished_txns D \<and>
    grows slots l l' \<and> last_intention_processed D' = p"
proof -
  have u: "token_waiters (txn_finder D) (i_token (f p)) = None" "map_of (finished_txns D) p = None"
    using assms(4) by (simp_all add: follows_def)
  show ?thesis
    using process_next [OF assms(1-3)] unfolding Notify_unknown [OF u(1)] finished_ok_def fin_Find_def u(2) by force
qed

lemma process_all_ok:
  assumes "can_process c slots P f (ps @ rs) A D l" and "log_spec z slots" and "reliable z slots" and "follows f ps D"
  shows "\<exists>D' l'. process_all z c (map (\<lambda>p. intention_at (f p) p) ps) D l = Some (fst (a_run f ps A), D', l') \<and>
    can_process c slots P f rs (snd (a_run f ps A)) D' l' \<and> txn_finder D' = txn_finder D \<and>
    last_intention_processed D' \<in> insert (last_intention_processed D) (set ps) \<and>
    finished_txns D' = finished_txns D \<and> grows slots l l'"
  using assms(1,4)
proof (induction ps arbitrary: A D l)
  case (Cons p ps)
  have "follows f [p] D" using Cons.prems(2) by (simp add: follows_def)
  from process_follows [OF Cons.prems(1) [unfolded append_Cons] assms(2,3) this] obtain D1 l1 where
    1: "process_intention z c (intention_at (f p) p) D l = Some (a_decide f p A, D1, l1)"
    "can_process c slots P f (ps @ rs) (a_step f p A) D1 l1" "txn_finder D1 = txn_finder D" "finished_txns D1 = finished_txns D"
    "grows slots l l1" "last_intention_processed D1 = p"
    by blast
  have "follows f ps D1" using Cons.prems(2) 1(3,4) by (simp add: follows_def)
  from Cons.IH [OF 1(2) this] obtain D2 l2 where
    2: "process_all z c (map (\<lambda>p. intention_at (f p) p) ps) D1 l1 = Some (fst (a_run f ps (a_step f p A)), D2, l2)"
    "can_process c slots P f rs (snd (a_run f ps (a_step f p A))) D2 l2" "txn_finder D2 = txn_finder D1"
    "last_intention_processed D2 \<in> insert (last_intention_processed D1) (set ps)"
    "finished_txns D2 = finished_txns D1" "grows slots l1 l2"
    by blast
  have "grows slots l l2" by (rule grows_trans [OF 1(5) 2(6)])
  then show ?case
    using 1(1,3,4,6) 2(1-5) by (intro exI [of _ D2] exI [of _ l2]) simp
qed simp

text \<open>The abstract run only adds positions, and none if the newest one stays.\<close>

lemma a_run_append: "snd (a_run f (ps @ qs) A) = snd (a_run f qs (snd (a_run f ps A)))"
  by (induction ps arbitrary: A) simp_all

lemma a_valid_append: "a_valid f (ps @ qs) A \<longleftrightarrow> a_valid f ps A \<and> a_valid f qs (snd (a_run f ps A))"
  by (induction ps arbitrary: A) auto

lemma a_run_committed:
  "\<exists>xs. a_committed (snd (a_run f ps A)) = a_committed A @ xs \<and> set xs \<subseteq> set ps \<and> (xs = [] \<longrightarrow> snd (a_run f ps A) = A)"
proof (induction ps arbitrary: A)
  case (Cons p ps)
  obtain xs where xs: "a_committed (snd (a_run f ps (a_step f p A))) = a_committed (a_step f p A) @ xs" "set xs \<subseteq> set ps"
    "xs = [] \<longrightarrow> snd (a_run f ps (a_step f p A)) = a_step f p A"
    using Cons.IH [of "a_step f p A"] by blast
  have s: "snd (a_run f (p # ps) A) = snd (a_run f ps (a_step f p A))" by simp
  show ?case
  proof (cases "a_decide f p A")
    case True
    then show ?thesis using xs(1,2) unfolding s by (intro exI [of _ "p # xs"]) (auto simp: a_step_def)
  next
    case False
    then have "a_step f p A = A" by (simp add: a_step_def)
    then show ?thesis using xs unfolding s by (intro exI [of _ xs]) auto
  qed
qed simp

lemma a_run_same_root:
  assumes "\<forall>p \<in> set ps. \<forall>x \<in> set (a_committed A). x < p" and "a_committed A \<noteq> []"
    and "last (a_committed (snd (a_run f ps A))) = last (a_committed A)"
  shows "snd (a_run f ps A) = A"
proof -
  obtain xs where xs: "a_committed (snd (a_run f ps A)) = a_committed A @ xs" "set xs \<subseteq> set ps"
    "xs = [] \<longrightarrow> snd (a_run f ps A) = A" using a_run_committed [of f ps A] by blast
  have "xs = []"
  proof (rule ccontr)
    assume ne: "xs \<noteq> []"
    then have "last xs = last (a_committed A)" using assms(3) xs(1) by simp
    then show False using assms(1,2) xs(2) ne by (metis last_in_set order_less_irrefl subsetD)
  qed
  then show ?thesis using xs(3) by simp
qed

section \<open>A transaction from its start to the decision\<close>

text \<open>\<open>running T0 m ops x\<close>: the transaction began with the tree \<open>T0\<close> and the map \<open>m\<close>, is open, and has recorded \<open>ops\<close>.\<close>

definition running :: "(string, string) ptree \<Rightarrow> (string \<rightharpoonup> string) \<Rightarrow> u64 \<Rightarrow> u64 \<Rightarrow> tx_op list \<Rightarrow> txn \<Rightarrow> bool" where
  "running T0 m s tok ops x \<longleftrightarrow>
     \<not> committed x \<and> token x = tok \<and>
     txn_intention x = Some \<lparr>int_msg = \<lparr>i_snapshot = s, i_token = tok, i_flush = False, i_ops = ops\<rparr>, int_pos = None\<rparr> \<and>
     (\<exists>T. tree x = Some T \<and> replaying T (apply_ops ops m) \<and> cow T0 T)"

lemma run_call_running:
  assumes "running T0 m s tok ops x" and "\<forall>p \<in> set ops. op_ok p" and "m q \<noteq> None" and "\<not> has_prefix PREFIX_USER q"
  shows "\<exists>x'. run_call a x = Some x' \<and> running T0 m s tok (ops @ [recorded a]) x'"
proof -
  obtain T where x: "\<not> committed x" "token x = tok" "tree x = Some T" "replaying T (apply_ops ops m)" "cow T0 T"
    "txn_intention x = Some \<lparr>int_msg = \<lparr>i_snapshot = s, i_token = tok, i_flush = False, i_ops = ops\<rparr>, int_pos = None\<rparr>"
    using assms(1) by (auto simp: running_def)
  have q: "apply_ops ops m q \<noteq> None" using apply_ops_other [OF assms(2,4), of m] assms(3) by simp
  have qu: "q \<noteq> prefix_string PREFIX_USER k" for k using assms(4) has_prefix_iff by metis
  show ?thesis
  proof (cases a)
    case (CGet k)
    have "represents T (apply_ops ops m)" using x(4) by (simp add: replaying_def)
    then show ?thesis
      using x CGet tree.get_law [of T "apply_ops ops m" "prefix_string PREFIX_USER k"]
      by (auto simp: running_def txn_Get_def int_Get_def add_op_def apply_ops_append)
  next
    case (CPut k v)
    obtain T' where "Put (prefix_string PREFIX_USER k) v T = Some T'" "cow T T'"
      "replaying T' ((apply_ops ops m)(prefix_string PREFIX_USER k \<mapsto> v))"
      using replaying_put [OF x(4) q qu] by blast
    then show ?thesis
      using x CPut
      by (auto simp: running_def txn_Put_def txn_Put_prefix_def int_Put_def add_op_def apply_ops_append Let_def
          intro: rtranclp_trans)
  next
    case (CDelete k)
    obtain T' where "Delete (prefix_string PREFIX_USER k) T = Some T'" "cow T T'"
      "replaying T' ((apply_ops ops m)(prefix_string PREFIX_USER k := None))"
      using replaying_del [OF x(4) q qu] by blast
    then show ?thesis
      using x CDelete
      by (auto simp: running_def txn_Delete_def int_Delete_def add_op_def apply_ops_append intro: rtranclp_trans)
  qed
qed

lemma run_calls_running:
  assumes "running T0 m s tok ops x" and "\<forall>p \<in> set ops. op_ok p" and "m q \<noteq> None" and "\<not> has_prefix PREFIX_USER q"
  shows "\<exists>x'. run_calls as x = Some x' \<and> running T0 m s tok (ops @ map recorded as) x'"
  using assms(1,2)
proof (induction as arbitrary: x ops)
  case (Cons a as)
  obtain x1 where x1: "run_call a x = Some x1" "running T0 m s tok (ops @ [recorded a]) x1"
    using run_call_running [OF Cons.prems assms(3,4)] by blast
  have "\<forall>p \<in> set (ops @ [recorded a]). op_ok p" using Cons.prems(2) recorded_ok by auto
  from Cons.IH [OF x1(2) this] x1(1) show ?case by auto
qed simp

lemma begin_running:
  assumes "db_inv D t" and "in_flight_txn_rid D < 0" and "in_flight_txn_rid D \<noteq> int64_min"
  shows "\<exists>x. BeginTransaction tok D = Some (x, D\<lparr>transactions_started := transactions_started D + 1,
      in_flight_txn_rid := in_flight_txn_rid D - 1\<rparr>) \<and>
    running (new_ptree (db_heap D) (db_root D) (in_flight_txn_rid D) None) (map_of (inorder t)) (root_snapshot D) tok [] x"
  using new_ptree_replaying(1) [OF assms(1) disjI2 [OF assms(2)] assms(3), of "sint (root_snapshot D) + 1"] assms(2)
  by (auto simp: BeginTransaction_def new_txn_def running_def new_intention_def)

lemma set_intention_same: "replaying (T\<lparr>intention := i\<rparr>) m = replaying T m"
proof -
  have "base_root (T\<lparr>intention := i\<rparr>) = base_root T" by (simp add: base_root_def split: option.split)
  moreover have "wft (T\<lparr>intention := i\<rparr>) = wft T" by (simp add: wft_def)
  moreover have "owns (T\<lparr>intention := i\<rparr>) n = owns T n" for n by (simp add: owns_def)
  ultimately show ?thesis by (simp add: replaying_def represents_def denotes_def conf_def)
qed

text \<open>The tree that the transaction leaves behind, for the time when its intention is decided, if the root has not
  changed.\<close>

lemma running_ready:
  assumes "db_inv D t" and "in_flight_txn_rid D < 0" and "in_flight_txn_rid D \<noteq> int64_min"
    and "root_snapshot D < pos" and "0 \<le> sint pos"
    and "replaying T m" and "cow (new_ptree (db_heap D) (db_root D) (in_flight_txn_rid D) None) T"
  shows "tree_ready False pos m (T\<lparr>intention := i\<rparr>)"
proof -
  let ?T = "new_ptree (db_heap D) (db_root D) (in_flight_txn_rid D) None"
  note n = new_ptree_replaying [OF assms(1) disjI2 [OF assms(2)] assms(3) sint_less [OF assms(4,5)], of None]
  have "distinct (fresh_nodes T)"
    by (rule nil_unrecorded_distinct [OF assms(7) n(3)]) (use assms(6) in \<open>simp_all add: replaying_def\<close>)
  moreover have "rid T < 0" using cow_members [OF assms(7)] assms(2) by simp
  moreover have "replaying (T\<lparr>intention := i\<rparr>) m"
    using assms(6) by (simp add: set_intention_same)
  moreover have "rids_below (sint pos) (T\<lparr>intention := i\<rparr>)"
    using rids_below_cow [OF assms(7) n(2)] by (simp add: rids_below_def)
  ultimately show ?thesis using assms(5) by (simp add: tree_ready_def)
qed

lemma copying_recorded: "copying_loop (map recorded as) (Some False) = Some (Some False)"
proof (induction as)
  case (Cons a as)
  then show ?case by (cases a) (simp_all add: Let_def)
qed simp

lemma copying_recorded_none: "as \<noteq> [] \<Longrightarrow> copying_loop (map recorded as) None = Some (Some False)"
  using copying_recorded by (cases as; cases "hd as") (simp_all add: Let_def)

text \<open>The intention that the transaction with the calls \<open>as\<close> appends.\<close>

definition txn_msg :: "u64 \<Rightarrow> u64 \<Rightarrow> call list \<Rightarrow> pb_intention" where
  "txn_msg s tok as = \<lparr>i_snapshot = s, i_token = tok, i_flush = False, i_ops = map recorded as\<rparr>"

text \<open>The database after the hand over: the thread waits at \<open>w\<close>, the intention is in the cache, and the tree is kept.\<close>

definition handed_over :: "nat \<Rightarrow> u64 \<Rightarrow> pb_intention \<Rightarrow> (string, string) ptree \<Rightarrow> db \<Rightarrow> db" where
  "handed_over w pos m T D =
     D\<lparr>txn_finder := put_waiter w (new_waiter\<lparr>w_pos := Some pos\<rparr>)
          (put_rendezvous (i_token m) (new_rendezvous w) (put_waiter w new_waiter (txn_finder D))),
       service := raise_max_pos pos (entry_cache_gc (cache_emplace pos (CIntention (intention_at m pos)) (service D))),
       finished_txns := (pos, Some (T\<lparr>intention := Some pos\<rparr>)) # finished_txns D\<rparr>"

text \<open>\<^verbatim>\<open>CompleteTransaction\<close> up to the wait.\<close>

lemma complete_ok:
  assumes "running T0 m s tok (map recorded as) x" and "as \<noteq> []" and "intention T0 = None"
    and "waiter_mem (txn_finder D) w = None" and "token_waiters (txn_finder D) tok = None"
    and "map_of (finished_txns D) pos = None"
    and "z_append z (enc c (INTENTION (txn_msg s tok as))) l = (Inr pos, l')"
  shows "\<exists>x' T. CompleteTransaction z c w x D l = Some (pos, x', handed_over w pos (txn_msg s tok as) T D, l') \<and>
    replaying T (apply_ops (map recorded as) m) \<and> cow T0 T"
proof -
  let ?m = "txn_msg s tok as"
  obtain T where x: "tree x = Some T" "replaying T (apply_ops (map recorded as) m)" "cow T0 T" "token x = tok"
    "txn_intention x = Some \<lparr>int_msg = ?m, int_pos = None\<rparr>"
    using assms(1) by (auto simp: running_def txn_msg_def)
  have "intention T = None" using cow_members [OF x(3)] assms(3) by simp
  then have T: "SetIntention pos T = Some (T\<lparr>intention := Some pos\<rparr>)" by (simp add: SetIntention_def)
  have w: "AddTokenWaiter w tok (txn_finder D) =
      Some (put_rendezvous tok (new_rendezvous w) (put_waiter w new_waiter (txn_finder D)))"
    using assms(4,5) by (simp add: AddTokenWaiter_def put_waiter_def Let_def)
  have b: "wait_begin w pos (put_rendezvous tok (new_rendezvous w) (put_waiter w new_waiter (txn_finder D))) =
      Some (put_waiter w (new_waiter\<lparr>w_pos := Some pos\<rparr>)
        (put_rendezvous tok (new_rendezvous w) (put_waiter w new_waiter (txn_finder D))))"
    by (simp add: wait_begin_def put_rendezvous_def put_waiter_def new_waiter_def)
  have "Append_data z (enc c (INTENTION ?m)) l = Some (pos, l')" using assms(7) by (subst Append_data.simps) simp
  then have "Append_intention z c \<lparr>int_msg = ?m, int_pos = None\<rparr> (service D) l =
      Some (pos, raise_max_pos pos (entry_cache_gc (cache_emplace pos (CIntention (intention_at ?m pos)) (service D))), l')"
    using copying_recorded_none [OF assms(2)]
    by (simp add: Append_intention_def Serialize_def SetPosition_def intention_at_def txn_msg_def Let_def)
  then show ?thesis
    using x w b T assms(6)
    by (intro exI [of _ "x\<lparr>txn_intention := None, tree := None\<rparr>"] exI [of _ T])
      (simp add: CompleteTransaction_def GetIntention_def txn_Tree_def fin_Insert_def handed_over_def txn_msg_def Let_def)
qed

lemma decision_delivered:
  assumes "F = put_waiter w (new_waiter\<lparr>w_pos := Some pos\<rparr>) (put_rendezvous tok (new_rendezvous w) (put_waiter w new_waiter F0))"
  shows "\<exists>F' F''. Notify tok pos ok F = Some F' \<and> wait_check w tok pos F' = Some (Some ok, F'') \<and>
    waiter_mem F'' w = None \<and> token_waiters F'' tok = None"
  by (simp add: assms Notify_def wait_check_def wait_end_def put_waiter_def put_rendezvous_def new_waiter_def
      new_rendezvous_def)

text \<open>The state of the database after a transaction has been handed over.\<close>

lemma appended_service:
  assumes "coherent c slots S l" and "log_spec z slots" and "z_append z (enc c (INTENTION m)) l = (Inr pos, l')"
    and "dec c (enc c (INTENTION m)) = Some (INTENTION m)" and "room S P" and "pos \<in> P"
  shows "coherent c slots (raise_max_pos pos (entry_cache_gc (cache_emplace pos (CIntention (intention_at m pos)) S))) l'"
    "room (raise_max_pos pos (entry_cache_gc (cache_emplace pos (CIntention (intention_at m pos)) S))) P"
    "holds_intention c slots l' pos m" "grows slots l l'"
proof -
  show g: "grows slots l l'" by (rule log_spec_append(1) [OF assms(2,3)])
  have w: "slots l' pos = Written (enc c (INTENTION m))" by (rule log_spec_append(2) [OF assms(2,3)])
  then show "holds_intention c slots l' pos m" using assms(4) by (simp add: holds_intention_def)
  have "coherent c slots S l'" by (rule coherent_grows [OF assms(1) g])
  then have "coherent c slots (entry_cache_gc (cache_emplace pos (CIntention (intention_at m pos)) S)) l'"
    by (rule emplace_coherent) (simp add: log_entry_at_def w assms(4))
  then show "coherent c slots (raise_max_pos pos (entry_cache_gc (cache_emplace pos (CIntention (intention_at m pos)) S))) l'"
    by (simp add: raise_max_pos_def)
  let ?S = "cache_emplace pos (CIntention (intention_at m pos)) S"
  have "dom (map_of (entry_cache ?S)) \<subseteq> insert pos (dom (map_of (entry_cache S)))"
    by (auto simp: cache_emplace_def map_of_put_list split: option.splits if_splits)
  moreover have "dom (map_of (entry_cache (entry_cache_gc ?S))) \<subseteq> dom (map_of (entry_cache ?S))"
    by (auto simp: entry_cache_gc_def cache_gc_loop_eq dom_map_of_conv_image_fst dest: in_set_dropD)
  ultimately have "card (dom (map_of (entry_cache (entry_cache_gc ?S))) \<union> P) \<le> card (dom (map_of (entry_cache S)) \<union> P)"
    using assms(6) by (intro card_mono) (use assms(5) in \<open>simp add: room_def finite_dom_map_of\<close>, blast)
  moreover have "cache_size (entry_cache_gc ?S) = cache_size S"
    by (simp add: entry_cache_gc_def cache_emplace_def split: option.split)
  ultimately show "room (raise_max_pos pos (entry_cache_gc ?S)) P"
    using assms(5) by (simp add: room_def raise_max_pos_def)
qed

section \<open>Replicas\<close>


text \<open>A log whose intentions at 7 and 9 store the same key; the one at 9 has the snapshot of the one at 7. The
  intention that is appended next, at 10, has the snapshot 8.\<close>

definition run_msg :: "u64 \<Rightarrow> pb_intention" where
  "run_msg p =
     (if p = 10 then txn_msg 8 6 [CPut ''b'' ''w'']
      else if p = 9 then txn_msg 7 5 [CPut ''b'' ''v'']
      else if p = 7 then txn_msg 1 5 [CPut ''b'' ''v''] else txn_msg 7 5 [CPut ''c'' ''v''])"

definition run_codec :: codec where
  "run_codec = \<lparr>enc = (\<lambda>_. replicate 10 CHR ''i''), dec = (\<lambda>s. Some (INTENTION (run_msg (of_nat (length s)))))\<rparr>"

definition run_log :: "slot list" where
  "run_log = map (\<lambda>n. Written (replicate n CHR ''i'')) [0..<10]"

lemma run_log_holds: "p < 10 \<Longrightarrow> holds_intention run_codec slots_sample run_log p (run_msg p)"
proof -
  assume "p < 10"
  then have "unat p < 10" by (simp add: word_less_nat_alt)
  then show ?thesis by (simp add: holds_intention_def slots_sample_def run_log_def run_codec_def)
qed

definition run_adb :: "u64 list \<Rightarrow> u64 list \<Rightarrow> adb" where
  "run_adb old new = \<lparr>a_map = map_of (inorder tree_sample2), a_old = old, a_new = new\<rparr>"

lemma catalog_sample2: "catalog (map_of (inorder tree_sample2)) [7, 8]"
  by (auto simp: catalog_def tree_sample2_def db_tree_def pfx_node_def PREFIX_COMMITTED_INTENTION_def has_prefix_iff
      prefix_string_def)

lemma can_process_sample:
  assumes "old @ new = [7, 8]"
  shows "can_process run_codec slots_sample {7, 8, 9, 10} run_msg [9] (run_adb old new)
    (db_sample2\<lparr>committed_intentions := new\<rparr>) run_log"
proof -
  have "length new \<le> 2" using arg_cong [OF assms, of length] by simp
  moreover have "sorted_wrt (<) new" 
    using sorted_wrt_append [of "(<)" old new] unfolding assms by simp
  ultimately have "indexed new new" by (simp add: indexed_def index_limit_def)
  moreover have "db_inv (db_sample2\<lparr>committed_intentions := new\<rparr>) tree_sample2"
    using db_inv_sample2 by (simp add: db_inv_def)
  ultimately have "db_abs (db_sample2\<lparr>committed_intentions := new\<rparr>) (run_adb old new)"
    using assms catalog_sample2 by (auto simp: db_abs_def run_adb_def db_sample2_def db_at_def)
  moreover have "coherent run_codec slots_sample (service db_sample2) run_log"
    using coherent_new by (simp add: db_sample2_def db_at_def)
  moreover have "a_valid run_msg [9] (run_adb old new)"
    using assms by (auto simp: run_adb_def run_msg_def txn_msg_def has_prefix_iff)
  moreover have "room (service db_sample2) {7, 8, 9, 10}" by (simp add: room_def db_sample2_def db_at_def new_entry_service_def)
  ultimately show ?thesis
    using assms run_log_holds by (simp add: can_process_def run_adb_def) (simp add: db_sample2_def db_at_def)
qed

lemma follows_sample: "follows f ps (db_sample2\<lparr>committed_intentions := new\<rparr>)"
  by (simp add: follows_def db_sample2_def db_at_def new_finder_def)


text \<open>C28: two instances on the same log can take different decisions. They have the same map and the same committed
  positions, but the index of the first one still has the snapshot of the next intention and the index of the
  second one, opened later, does not. If only the intention that made the snapshot updates one of its keys,
  the first instance aborts the intention and keeps its state, and the second one commits it.\<close>

theorem instances_diverge:
  assumes "can_process c slots P f [p] A1 D1 l1" and "can_process c slots P f [p] A2 D2 l2"
    and "log_spec z slots" and "reliable z slots" and "follows f [p] D1" and "follows f [p] D2"
    and "a_committed A1 = a_committed A2" and "i_snapshot (f p) \<in> set (committed_intentions D1)"
    and "i_snapshot (f p) \<notin> set (committed_intentions D2)" and "\<not> i_flush (f p)"
    and "i_snapshot (f p) \<noteq> last (a_committed A1)"
    and "\<forall>x \<in> set (a_committed A1). conflicts_at f (intention_at (f p) p) x \<longleftrightarrow> x = i_snapshot (f p)"
  shows "\<exists>D1' l1' D2' l2'.
    process_intention z c (intention_at (f p) p) D1 l1 = Some (False, D1', l1') \<and> db_abs D1' A1 \<and>
    process_intention z c (intention_at (f p) p) D2 l2 = Some (True, D2', l2') \<and>
    db_abs D2' (A2\<lparr>a_map := commit_spec p (intention_at (f p) p) (a_map A2), a_new := a_new A2 @ [p]\<rparr>)"
proof -
  have i: "Snapshot (intention_at (f p) p) = i_snapshot (f p)" by (simp add: intention_at_def Snapshot_def)
  have x: "committed_intentions D1 = drop (length (a_new A1) - index_limit) (a_new A1)"
    "committed_intentions D2 = drop (length (a_new A2) - index_limit) (a_new A2)"
    "i_snapshot (f p) \<in> set (a_committed A1)"
    using assms(1,2,10) by (simp_all add: can_process_def db_abs_def indexed_def)
  have "zone_conflict f (intention_at (f p) p) (a_committed A1) (committed_intentions D1)"
    using x(3) assms(8,12) i unfolding zone_conflict_def in_zone_def by metis
  then have d1: "\<not> a_decide f p A1" using assms(10,11) x(1) by (simp add: a_decide_def)
  have "\<not> zone_conflict f (intention_at (f p) p) (a_committed A1) (committed_intentions D2)"
    using assms(9,12) i unfolding zone_conflict_def in_zone_def by auto
  then have d2: "a_decide f p A2" using x(2) assms(7) by (simp add: a_decide_def)
  have one: "\<exists>D' l'. process_intention z c (intention_at (f p) p) D l = Some (a_decide f p A, D', l') \<and> db_abs D' (a_step f p A)"
    if "can_process c slots P f [p] A D l" "follows f [p] D" for A D l
    using process_follows [OF that(1) assms(3,4) that(2)] unfolding can_process_def by blast
  show ?thesis
    using one [OF assms(1,5)] one [OF assms(2,6)] d1 d2 by (simp add: a_step_def)
qed

theorem instances_diverge_witness:
  "\<exists>D1' l1' D2' l2'.
    process_intention zlog_sample run_codec (intention_at (run_msg 9) 9) (db_sample2\<lparr>committed_intentions := [7, 8]\<rparr>) run_log =
      Some (False, D1', l1') \<and> db_abs D1' (run_adb [] [7, 8]) \<and>
    process_intention zlog_sample run_codec (intention_at (run_msg 9) 9) (db_sample2\<lparr>committed_intentions := []\<rparr>) run_log =
      Some (True, D2', l2') \<and>
    db_abs D2' ((run_adb [7, 8] [])\<lparr>a_map := commit_spec 9 (intention_at (run_msg 9) 9) (a_map (run_adb [7, 8] [])),
      a_new := a_new (run_adb [7, 8] []) @ [9]\<rparr>)"
  by (rule instances_diverge [OF can_process_sample can_process_sample log_spec_sample reliable_sample follows_sample
        follows_sample])
    (auto simp: run_adb_def run_msg_def txn_msg_def conflicts_at_def OpKeys_def UpdateOpKeys_def intention_at_def
      prefix_string_def)

section \<open>The decision on a transaction of this instance\<close>

abbreviation begun :: "db \<Rightarrow> db" where
  "begun D \<equiv> D\<lparr>transactions_started := transactions_started D + 1, in_flight_txn_rid := in_flight_txn_rid D - 1\<rparr>"

text \<open>What is known of the intentions that follow in the log.\<close>

definition upcoming ::
  "codec \<Rightarrow> ('l \<Rightarrow> u64 \<Rightarrow> slot) \<Rightarrow> u64 set \<Rightarrow> (u64 \<Rightarrow> pb_intention) \<Rightarrow> u64 list \<Rightarrow> adb \<Rightarrow> db \<Rightarrow> 'l \<Rightarrow> bool" where
  "upcoming c slots P f ps A D l \<longleftrightarrow>
     a_valid f ps A \<and> sorted_wrt (<) ps \<and> set ps \<subseteq> P \<and>
     (\<forall>p \<in> set ps. (\<forall>x \<in> set (a_committed A). x < p) \<and> last_intention_processed D < p \<and> 0 \<le> sint p \<and>
        holds_intention c slots l p (f p))"

lemma can_process_upcoming:
  "can_process c slots P f ps A D l \<longleftrightarrow>
     can_process c slots P f [] A D l \<and> upcoming c slots P f ps A D l"
  by (auto simp: can_process_def upcoming_def)

lemma upcoming_append:
  assumes "upcoming c slots P f (qs @ ps) A D l" and "last_intention_processed D' \<in> insert (last_intention_processed D) (set qs)"
  shows "upcoming c slots P f ps (snd (a_run f qs A)) D' l"
proof -
  obtain xs where "a_committed (snd (a_run f qs A)) = a_committed A @ xs" "set xs \<subseteq> set qs"
    using a_run_committed [of f qs A] by blast
  then show ?thesis
    using assms by (auto simp: upcoming_def a_valid_append sorted_wrt_append)
qed

lemma handed_over_can_process:
  assumes "can_process c slots P f [] A D l" and "upcoming c slots P f (ps @ [pos]) A D l'" and "log_spec z slots"
    and "z_append z (enc c (INTENTION (f pos))) l = (Inr pos, l')" and "dec c (enc c (INTENTION (f pos))) = Some (INTENTION (f pos))"
    and "follows f ps D" and "\<forall>p \<in> set ps. i_token (f p) \<noteq> i_token (f pos)"
  shows "can_process c slots P f (ps @ [pos]) A (handed_over w pos (f pos) T D) l' \<and>
    follows f ps (handed_over w pos (f pos) T D)"
proof
  let ?D = "handed_over w pos (f pos) T D"
  have c: "db_abs D A" "coherent c slots (service D) l" "room (service D) P" "set (a_committed A) \<subseteq> P"
    "\<forall>p \<in> set (a_committed A). holds_intention c slots l p (f p)"
    using assms(1) by (simp_all add: can_process_def)
  have u: "pos \<in> P" "\<forall>p \<in> set ps. p \<noteq> pos" using assms(2) by (auto simp: upcoming_def sorted_wrt_append)
  note a = appended_service [OF c(2) assms(3,4,5) c(3) u(1)]
  have "db_abs ?D A" by (rule db_abs_same [OF c(1)]) (simp_all add: handed_over_def)
  then have "can_process c slots P f [] A ?D l'"
    using a c(4,5) holds_intention_grows [OF _ a(4)] by (simp add: can_process_def handed_over_def)
  moreover have "upcoming c slots P f (ps @ [pos]) A ?D l'" using assms(2) by (simp add: upcoming_def handed_over_def)
  ultimately show "can_process c slots P f (ps @ [pos]) A ?D l'"
    by (subst can_process_upcoming) (rule conjI)
  show "follows f ps ?D"
    using assms(6,7) u(2) by (simp add: follows_def handed_over_def put_waiter_def put_rendezvous_def)
qed

text \<open>When the root has not changed since the transaction began, its tree is the one that replaying would give.\<close>

lemma own_tree_ready:
  assumes "db_abs D A" and "in_flight_txn_rid D < 0" and "in_flight_txn_rid D \<noteq> int64_min"
    and "\<forall>p \<in> set (rs @ [pos]). (\<forall>x \<in> set (a_committed A). x < p)" and "0 \<le> sint pos"
    and "replaying T (apply_ops ops (a_map A))" and "cow (new_ptree (db_heap D) (db_root D) (in_flight_txn_rid D) None) T"
    and "last (a_committed (snd (a_run f rs A))) = root_snapshot D"
  shows "tree_ready False pos (apply_ops ops (a_map (snd (a_run f rs A)))) (T\<lparr>intention := i\<rparr>)"
proof -
  obtain t where t: "db_inv D t" "map_of (inorder t) = a_map A" using assms(1) by (auto simp: db_abs_def)
  have r: "root_snapshot D = last (a_committed A)" "a_committed A \<noteq> []" using assms(1) by (simp_all add: db_abs_def)
  then have "root_snapshot D < pos" using assms(4) last_in_set [OF r(2)] by simp
  moreover have "snd (a_run f rs A) = A"
    by (rule a_run_same_root [OF _ r(2)]) (use assms(4,8) r(1) in simp_all)
  ultimately show ?thesis using running_ready [OF t(1) assms(2,3) _ assms(5-7)] by simp
qed

text \<open>Up to the hand over.\<close>

lemma transaction_handed_over:
  assumes "can_process c slots P f qs A D l" and "log_spec z slots" and "reliable z slots"
    and "in_flight_txn_rid D < 0" and "in_flight_txn_rid D \<noteq> int64_min" and "as \<noteq> []"
    and "waiter_mem (txn_finder D) w = None" and "token_waiters (txn_finder D) tok = None"
    and "map_of (finished_txns D) pos = None" and "f pos = txn_msg (root_snapshot D) tok as"
    and "process_all z c (map (\<lambda>p. intention_at (f p) p) qs) (begun D) l = Some (qoks, D1, l1)"
    and "z_append z (enc c (INTENTION (f pos))) l1 = (Inr pos, l2)"
    and "dec c (enc c (INTENTION (f pos))) = Some (INTENTION (f pos))"
    and "upcoming c slots P f (qs @ ps @ [pos]) A D l2" and "follows f (qs @ ps) D"
    and "\<forall>p \<in> set ps. i_token (f p) \<noteq> tok"
  shows "\<exists>x x1 x2 T. BeginTransaction tok D = Some (x, begun D) \<and> run_calls as x = Some x1 \<and>
    CompleteTransaction z c w x1 D1 l1 = Some (pos, x2, handed_over w pos (f pos) T D1, l2) \<and>
    replaying T (apply_ops (map recorded as) (a_map A)) \<and>
    cow (new_ptree (db_heap D) (db_root D) (in_flight_txn_rid D) None) T \<and>
    can_process c slots P f (ps @ [pos]) (snd (a_run f qs A)) (handed_over w pos (f pos) T D1) l2 \<and>
    follows f ps (handed_over w pos (f pos) T D1)"
proof -
  let ?T0 = "new_ptree (db_heap D) (db_root D) (in_flight_txn_rid D) None"
  have abs: "db_abs D A" using assms(1) by (simp add: can_process_def)
  then obtain t where t: "db_inv D t" "map_of (inorder t) = a_map A" by (auto simp: db_abs_def)
  obtain x where x: "BeginTransaction tok D = Some (x, begun D)" "running ?T0 (a_map A) (root_snapshot D) tok [] x"
    using begin_running [OF t(1) assms(4,5)] t(2) by auto
  have q: "a_map A (ci_key (root_snapshot D)) \<noteq> None" "\<not> has_prefix PREFIX_USER (ci_key (root_snapshot D))"
    using t ci_key_not_user by (simp_all add: db_inv_def)
  obtain x1 where x1: "run_calls as x = Some x1" "running ?T0 (a_map A) (root_snapshot D) tok (map recorded as) x1"
    using run_calls_running [OF x(2) _ q, of as] by auto
  have "db_abs (begun D) A" by (rule db_abs_same [OF abs]) simp_all
  then have b: "can_process c slots P f qs A (begun D) l" using assms(1) by (simp add: can_process_def)
  have "follows f qs (begun D)" using assms(15) by (simp add: follows_def)
  from process_all_ok [where rs = "[]", unfolded append_Nil2, OF b assms(2,3) this]
  have D1: "can_process c slots P f [] (snd (a_run f qs A)) D1 l1" "txn_finder D1 = txn_finder D"
    "last_intention_processed D1 \<in> insert (last_intention_processed D) (set qs)" "finished_txns D1 = finished_txns D"
    unfolding assms(11) by auto
  have u: "upcoming c slots P f (ps @ [pos]) (snd (a_run f qs A)) D1 l2"
    by (rule upcoming_append [OF assms(14) D1(3)])
  obtain x2 T where C: "CompleteTransaction z c w x1 D1 l1 = Some (pos, x2, handed_over w pos (f pos) T D1, l2)"
    "replaying T (apply_ops (map recorded as) (a_map A))" "cow ?T0 T"
    using complete_ok [OF x1(2) assms(6), of D1 w pos z c l1 l2] assms(7-10,12) D1(2,4) by auto
  let ?D2 = "handed_over w pos (f pos) T D1"
  have tok: "i_token (f pos) = tok" using assms(10) by (simp add: txn_msg_def)
  have "follows f ps D1" using assms(15) D1(2,4) by (simp add: follows_def)
  with handed_over_can_process [OF D1(1) u assms(2,12,13)] assms(16) tok
  have p: "can_process c slots P f (ps @ [pos]) (snd (a_run f qs A)) ?D2 l2" "follows f ps ?D2"
    by blast+
  with x(1) x1(1) C show ?thesis by blast
qed


lemma upcoming_sample:
  "upcoming run_codec slots_sample {7, 8, 9, 10} run_msg [9, 10] (run_adb [7, 8] []) db_sample2
    (run_log @ [Written (replicate 10 CHR ''i'')])"
proof -
  have "grows slots_sample run_log (run_log @ [Written (replicate 10 CHR ''i'')])"
    by (auto simp: grows_def slots_sample_def nth_append)
  then have "holds_intention run_codec slots_sample (run_log @ [Written (replicate 10 CHR ''i'')]) 9 (run_msg 9)"
    using run_log_holds [of 9] holds_intention_grows by simp
  moreover have "holds_intention run_codec slots_sample (run_log @ [Written (replicate 10 CHR ''i'')]) 10 (run_msg 10)"
    by (simp add: holds_intention_def slots_sample_def run_log_def run_codec_def nth_append)
  moreover have "a_valid run_msg [9, 10] (run_adb [7, 8] [])"
    by (auto simp: run_adb_def run_msg_def txn_msg_def has_prefix_iff a_step_def)
  ultimately show ?thesis by (simp add: upcoming_def run_adb_def) (simp add: db_sample2_def db_at_def)
qed


end
