(* ===== verification/DBCreate.thy ===== *)
theory DBCreate
  imports DBOpen DBRun
begin

text \<open>
  Creating a database. \<^verbatim>\<open>DB::Open\<close> on an empty log writes the first intention and its after image, finds them
  again as the restore point and starts from there. The database it returns satisfies the invariant from
  which the runs of \<open>DBRun\<close> start.
\<close>

section \<open>The first transaction\<close>

definition first_msg :: pb_intention where
  "first_msg = \<lparr>i_snapshot = 0, i_token = 0, i_flush = False,
     i_ops = [\<lparr>op_type = PUT, op_key = ci_key 1, op_val = Some []\<rparr>]\<rparr>"

definition nil_ptr :: pb_ptr where
  "nil_ptr = \<lparr>pb_nil = True, pb_self = False, pb_intention = None, pb_afterimage = None, pb_off = None\<rparr>"

definition first_ai :: "(string, string) after_image" where
  "first_ai = \<lparr>ai_intention = 1,
     ai_tree = [\<lparr>pb_red = False, pb_key = ci_key 1, pb_val = [], pb_left = nil_ptr, pb_right = nil_ptr\<rparr>]\<rparr>"

definition first_node :: "int \<Rightarrow> (string, string) node" where
  "first_node r = (new_leaf (ci_key 1) [] r)\<lparr>nd_red := False\<rparr>"

definition first_heap :: "int \<Rightarrow> (string, string) heap" where
  "first_heap r = \<lparr>nodes = (nodes nil_heap)(1 \<mapsto> first_node r), next_node = 2\<rparr>"

lemma first_Put:
  "Put (ci_key 1) [] (new_ptree nil_heap \<lparr>np_ref = Some Nil_id, np_addr = None\<rparr> (-1) None) =
   Some (heap.extend (first_heap (-1))
     \<lparr>src_root = \<lparr>np_ref = Some Nil_id, np_addr = None\<rparr>, root = Some 1, rid = -1, intention = None,
      afterimage = None, fresh_nodes = [1]\<rparr>)"
  by (simp add: Put_def new_ptree_def base_root_def insert_recursive.simps [of _ _ _ _ Nil_id] alloc_node_def put_node_def
      push_fresh_def nil_heap_def insert_loop.simps [of Nil_id] get_red_def set_red_def upd_node_def
      first_heap_def first_node_def new_leaf_def heap.defs)

lemma first_serialized:
  "SerializeAfterImage i2a 1 (heap.extend (first_heap (-1))
     \<lparr>src_root = p, root = Some 1, rid = -1, intention = i, afterimage = a, fresh_nodes = fs\<rparr>) = Some (first_ai, [1])"
  by (simp add: SerializeAfterImage_def serialize_intention.simps [of _ _ _ "Suc 0"] serialize_intention.simps [of _ _ _ Nil_id]
      serialize_node_def serialize_node_ptr_def get_rid_def child_ref_def first_heap_def first_node_def new_leaf_def
      nil_heap_def first_ai_def nil_ptr_def int64_min_def heap.defs)

lemma Open_create_ok:
  assumes "z_fill z 0 l = (None, l1)" and "z_append z (enc c (INTENTION first_msg)) l1 = (Inr 1, l2)"
    and "z_append z (enc c (AFTER_IMAGE first_ai)) l2 = (Inr 2, l3)"
  shows "Open_create z c S l =
    Some (raise_max_pos 1 (entry_cache_gc (cache_emplace 1 (CIntention (intention_at first_msg 1)) S)), l3)"
proof -
  have "Fill z 0 l = Some l1" using assms(1) by (subst Fill.simps) simp
  moreover have "Append_data z (enc c (INTENTION first_msg)) l1 = Some (1, l2)"
    using assms(2) by (subst Append_data.simps) simp
  moreover have "Append_data z (enc c (AFTER_IMAGE first_ai)) l2 = Some (2, l3)"
    using assms(3) by (subst Append_data.simps) simp
  ultimately show ?thesis
    using first_Put first_serialized
    by (simp add: Open_create_def new_txn_def txn_Put_prefix_def int_Put_def add_op_def GetIntention_def txn_Tree_def
        Append_intention_def Append_after_image_def Serialize_def SetPosition_def intention_at_def first_msg_def
        new_intention_def first_ai_def Let_def)
qed

section \<open>The first root\<close>

lemma first_cached:
  "\<exists>root C. CacheAfterImage hs sz first_ai pos nil_heap (new_node_cache n m) = Some (root, first_heap 1, C) \<and>
    np_ref root = Some 1"
  by (simp add: CacheAfterImage_def first_ai_def nil_ptr_def deserialize_node_def deserialize_ptr_def alloc_node_def
      put_node_def nc_find_def new_node_cache_def num_slots_def key_slot_def insert_entry_def SetAfterImageAddress_def
      first_heap_def first_node_def new_leaf_def nil_heap_def Let_def)

definition first_tree :: "(string, string) ntree" where
  "first_tree = Nd 1 (first_node 1) Lf Lf"

definition first_adb :: adb where
  "first_adb = \<lparr>a_map = [ci_key 1 \<mapsto> []], a_old = [1], a_new = []\<rparr>"

lemma first_heap_node: "nodes (first_heap r) i = Some nd \<longleftrightarrow> i = 1 \<and> nd = first_node r \<or> nodes nil_heap i = Some nd"
  by (auto simp: first_heap_def nil_heap_def split: if_splits)

lemma heap_ok_first: "heap_ok (first_heap r)"
  by (auto simp: heap_ok_def first_heap_def first_node_def new_leaf_def nil_heap_def is_nil_node_def child_if split: if_splits)

lemma db_abs_first:
  assumes "db_heap D = first_heap 1" and "np_ref (db_root D) = Some 1" and "root_snapshot D = 1" and "committed_intentions D = []"
  shows "db_abs D first_adb"
proof -
  have t: "inorder first_tree = [(ci_key 1, [])]" "tid first_tree = 1"
    by (simp_all add: first_tree_def first_node_def new_leaf_def)
  have rb: "rbt first_tree"
    by (simp add: rbt_def first_tree_def first_node_def new_leaf_def) (rule exI [of _ 1], simp)
  have "tree_at (nodes (first_heap 1)) first_tree"
    by (simp add: first_tree_def first_heap_def first_node_def new_leaf_def)
  moreover have "nd_rid nd = int64_min \<or> 0 \<le> nd_rid nd \<and> nd_rid nd \<le> sint (1 :: u64)" if "nodes (first_heap 1) i = Some nd" for i nd
    using that by (auto simp: first_heap_node first_node_def new_leaf_def nil_heap_def split: if_splits)
  ultimately have "db_inv D first_tree" using t rb heap_ok_first assms by (simp add: db_inv_def)
  moreover have "map_of (inorder first_tree) = a_map first_adb" by (simp add: t first_adb_def)
  moreover have "catalog (a_map first_adb) (a_committed first_adb)" by (auto simp: catalog_def first_adb_def)
  ultimately show ?thesis using assms by (auto simp: db_abs_def first_adb_def indexed_def)
qed

section \<open>Opening an empty log\<close>

definition first_entries :: "u64 \<Rightarrow> cache_entry" where
  "first_entries p =
     (if p = 1 then CIntention (intention_at first_msg 1) else if p = 2 then CAfterImage first_ai else CFilled)"

lemma below_3: "(p :: u64) < 3 \<Longrightarrow> p = 0 \<or> p = 1 \<or> p = 2"
  by (simp add: word_less_nat_alt word_unat_eq_iff) linarith

lemma first_found:
  assumes "log_spec z slots" and "reliable z slots" and "reports_filled z slots"
    and "\<forall>p < 3. log_entry_at c slots l p = Some (first_entries p)"
    and "z_tail z l = (Inr 3, l0)" and "z_read z 3 l0 = (Inl ENOENT, l1)" and "z_fill z 3 l1 = (None, l2)"
    and "coherent c slots S l" and "map_of (entry_cache S) 3 = None" and "length (entry_cache S) + 3 < cache_size S"
  shows "\<exists>S' l'. FindRestorePoint z c S l =
      Some (Inr (\<lparr>replay_start_pos = 2, after_image_pos = 2, rp_after_image = first_ai\<rparr>, 1, S', l')) \<and>
    coherent c slots S' l' \<and> grows slots l l'"
proof -
  have e: "is_int first_entries p \<longleftrightarrow> p = 1" "image_for first_entries i p \<longleftrightarrow> p = 2 \<and> i = 1" for p i
    by (auto simp: is_int_def image_for_def first_entries_def first_ai_def)
  have "first_entries 3 = CFilled" "first_entries 1 = CIntention (intention_at first_msg 1)"
    by (simp_all add: first_entries_def)
  from FindRestorePoint_ok [OF assms(1-3,5-7,4) this, where ap = 2, OF _ _ _ _ assms(8,9)] assms(10)
  obtain p ai x S' l' where r: "FindRestorePoint z c S l =
      Some (Inr (\<lparr>replay_start_pos = 1 + 1, after_image_pos = p, rp_after_image = ai\<rparr>, x, S', l'))"
    "first_image first_entries 1 3 1 (Some (p, ai))" "is_int first_entries x" "coherent c slots S' l'" "grows slots l l'"
    by (auto simp: e)
  have "p = 2 \<and> ai = first_ai" using r(2) by (auto simp: first_image_def first_entries_def split: if_splits)
  then show ?thesis using r e by auto
qed

text \<open>C27: creating a database. On an empty log that accepts the writes, \<^verbatim>\<open>DB::Open\<close> completes without waiting; the
  log then holds the first intention at position 1, the transaction processor starts at position 2, the entry cache
  agrees with the log, and the database implements the abstract database that has no user entry and whose only
  committed position is 1.\<close>

theorem created_database_ok:
  assumes "log_spec z slots" and "reliable z slots" and "reports_filled z slots"
    and "z_tail z l = (Inr 0, l0)" and "z_fill z 0 l0 = (None, l1)"
    and "z_append z (enc c (INTENTION first_msg)) l1 = (Inr 1, l2)"
    and "z_append z (enc c (AFTER_IMAGE first_ai)) l2 = (Inr 2, l3)"
    and "z_tail z l3 = (Inr 3, l4)" and "z_read z 3 l4 = (Inl ENOENT, l5)" and "z_fill z 3 l5 = (None, l6)"
    and "dec c (enc c (INTENTION first_msg)) = Some (INTENTION first_msg)"
    and "dec c (enc c (AFTER_IMAGE first_ai)) = Some (AFTER_IMAGE first_ai)" and "4 < n"
  shows "\<exists>D C l'. Open hs sz cs ms n w z c True l = Some (Inr (True, D, C, 2, l')) \<and>
    db_abs D first_adb \<and> (\<forall>k. db_Get k D = Some (Inl ENOENT)) \<and> holds_intention c slots l' 1 first_msg \<and>
    coherent c slots (service D) l' \<and> last_intention_processed D = 1"
proof -
  let ?S = "raise_max_pos 1 (entry_cache_gc (cache_emplace 1 (CIntention (intention_at first_msg 1)) (new_entry_service n)))"
  have S: "entry_cache ?S = [(1, CIntention (intention_at first_msg 1))]" "cache_size ?S = n"
    using assms(13) by (simp_all add: raise_max_pos_def entry_cache_gc_def cache_emplace_def new_entry_service_def
        cache_gc_loop_eq put_list_def)
  have room: "room (new_entry_service n) {1}" using assms(13) by (simp add: room_def new_entry_service_def)
  note a = appended_service [OF coherent_new assms(1,6,11) room insertI1]
  note b = log_spec_append [OF assms(1,7)]
  have "slots l1 0 = Filled" using assms(1,5) unfolding log_spec_def by blast
  then have "slots l3 0 = Filled" using a(4) b(1) by (simp add: grows_def)
  moreover have h: "holds_intention c slots l3 1 first_msg" by (rule holds_intention_grows [OF a(3) b(1)])
  ultimately have log: "\<forall>p < 3. log_entry_at c slots l3 p = Some (first_entries p)"
    using b(2) assms(12)
    by (auto dest!: below_3 simp: first_entries_def log_entry_at_def holds_intention_def)
  have co: "coherent c slots ?S l3" by (rule coherent_grows [OF a(1) b(1)])
  obtain S' l' where r: "FindRestorePoint z c ?S l3 =
      Some (Inr (\<lparr>replay_start_pos = 2, after_image_pos = 2, rp_after_image = first_ai\<rparr>, 1, S', l'))"
    "coherent c slots S' l'" "grows slots l3 l'"
    using first_found [OF assms(1-3) log assms(8-10) co] assms(13) S by auto
  obtain root C where C: "CacheAfterImage hs sz first_ai 2 nil_heap (new_node_cache cs ms) = Some (root, first_heap 1, C)"
    "np_ref root = Some 1"
    using first_cached by blast
  let ?D = "\<lparr>db_heap = first_heap 1, db_root = root, root_snapshot = 1, last_intention_processed = 1,
    in_flight_txn_rid = -1, transactions_started = 0, committed_intentions = [], finished_txns = [],
    lcs_trees = [], txn_finder = new_finder, waiting_on_log_entry = [], woken = [], service = Start 2 S'\<rparr>"
  have "ai_intention first_ai = 1" by (simp add: first_ai_def)
  then have "Open hs sz cs ms n w z c True l = Some (Inr (True, ?D, C, 2, l'))"
    using assms(4) Open_create_ok [OF assms(5-7)] r(1) C(1)
    by (simp add: Open_def CheckTail_def new_DBImpl_def WaitOnIntention_def Let_def)
  moreover have abs: "db_abs ?D first_adb" by (rule db_abs_first) (simp_all add: C(2))
  moreover have "db_Get k ?D = Some (Inl ENOENT)" for k
  proof -
    have "prefix_string PREFIX_USER k \<noteq> ci_key 1" using ci_key_not_user [of 1] has_prefix_iff by metis
    then show ?thesis using db_abs_Get [OF abs, of k] by (simp add: first_adb_def)
  qed
  moreover have "coherent c slots (service ?D) l'" using r(2) by (simp add: Start_def coherent_def)
  ultimately show ?thesis using holds_intention_grows [OF h r(3)] by auto
qed

definition first_codec :: codec where
  "first_codec =
     \<lparr>enc = (\<lambda>e. case e of INTENTION _ \<Rightarrow> ''i'' | AFTER_IMAGE _ \<Rightarrow> ''a''),
      dec = (\<lambda>s. if s = ''i'' then Some (INTENTION first_msg)
                 else if s = ''a'' then Some (AFTER_IMAGE first_ai) else None)\<rparr>"

theorem created_database_ok_witness:
  "\<exists>D C l'. Open (\<lambda>_. 0) 48 1000 10 9 0 zlog_sample first_codec True [] = Some (Inr (True, D, C, 2, l')) \<and>
    db_abs D first_adb \<and> (\<forall>k. db_Get k D = Some (Inl ENOENT)) \<and>
    holds_intention first_codec slots_sample l' 1 first_msg \<and> coherent first_codec slots_sample (service D) l' \<and>
    last_intention_processed D = 1"
proof (rule created_database_ok [OF log_spec_sample reliable_sample])
  let ?l1 = "[Filled]" and ?l2 = "[Filled, Written ''i'']" and ?l3 = "[Filled, Written ''i'', Written ''a'']"
  show "reports_filled zlog_sample slots_sample" by (simp add: reports_filled_def zlog_sample_def)
  show "z_tail zlog_sample [] = (Inr 0, [])" "z_fill zlog_sample 0 [] = (None, ?l1)"
    by (simp_all add: zlog_sample_def slots_sample_def)
  show "z_append zlog_sample (enc first_codec (INTENTION first_msg)) ?l1 = (Inr 1, ?l2)"
    "z_append zlog_sample (enc first_codec (AFTER_IMAGE first_ai)) ?l2 = (Inr 2, ?l3)"
    by (simp_all add: zlog_sample_def first_codec_def)
  show "z_tail zlog_sample ?l3 = (Inr 3, ?l3)" "z_read zlog_sample 3 ?l3 = (Inl ENOENT, ?l3)"
    "z_fill zlog_sample 3 ?l3 = (None, ?l3 @ [Filled])"
    by (simp_all add: zlog_sample_def slots_sample_def)
qed (simp_all add: first_codec_def)

end
