(* ===== verification/RandomGen.thy ===== *)
theory RandomGen
  imports Prelude
begin

text \<open>
  The random number generator of \<^verbatim>\<open>src/util/random.h\<close> and \<^verbatim>\<open>src/util/random.cc\<close>, a multiplicative
  congruential generator modulo \<open>2 ^ 31 - 1\<close> that avoids divisions. The arithmetic is that of the code:
  the seed has 32 bits, the product 64 bits. The lemmas show that one step is a multiplication modulo
  \<open>2 ^ 31 - 1\<close> and that the multiplier has the largest possible order, from which the comment in the
  code follows: the generator runs through all numbers from 1 to \<open>2 ^ 31 - 2\<close>.
\<close>

unbundle bit_operations_syntax

section \<open>The generator\<close>

type_synonym u32 = "32 word"

record Random =
  seed :: u32

definition Random_M :: u32 where
  "Random_M = 2147483647"

definition Random_A :: u64 where
  "Random_A = 16807"

definition GoodSeed :: "u32 \<Rightarrow> u32" where
  "GoodSeed s = (if s AND Random_M \<noteq> 0 then s AND Random_M else 1)"

definition new_Random :: "u32 \<Rightarrow> Random" where
  "new_Random s = \<lparr>seed = GoodSeed s\<rparr>"

definition Random_Reset :: "u32 \<Rightarrow> Random \<Rightarrow> Random" where
  "Random_Reset s r = r\<lparr>seed := GoodSeed s\<rparr>"

definition Random_Next :: "Random \<Rightarrow> u32 \<times> Random" where
  "Random_Next r =
    (let product = (ucast (seed r) :: u64) * Random_A;
         s = ucast (drop_bit 31 product + (product AND ucast Random_M)) :: u32;
         s' = (if Random_M < s then s - Random_M else s)
     in (s', r\<lparr>seed := s'\<rparr>))"

text \<open>The argument is a C++ \<^verbatim>\<open>int\<close> that the remainder converts to 32 unsigned bits; a remainder by 0 is
  undefined.\<close>

definition Random_Uniform :: "u32 \<Rightarrow> Random \<Rightarrow> (u32 \<times> Random) option" where
  "Random_Uniform n r =
    (if n = 0 then None else let (x, r) = Random_Next r in Some (x mod n, r))"

definition Random_OneIn :: "u32 \<Rightarrow> Random \<Rightarrow> (bool \<times> Random) option" where
  "Random_OneIn n r =
    (if n = 0 then None else let (x, r) = Random_Next r in Some (x mod n = 0, r))"

text \<open>A shift by the width of an \<^verbatim>\<open>int\<close> or more is undefined.\<close>

definition Random_Skewed :: "u32 \<Rightarrow> Random \<Rightarrow> (u32 \<times> Random) option" where
  "Random_Skewed max_log r =
    do { (b, r) \<leftarrow> Random_Uniform (max_log + 1) r;
         if b < 32 then Random_Uniform (push_bit (unat b) 1) r else None }"

text \<open>\<^verbatim>\<open>GetTLSInstance\<close>. The build does not define \<^verbatim>\<open>ROCKSDB_SUPPORT_THREAD_LOCAL\<close>, so the instance is a static
  variable. The argument is the hash of the id of the calling thread.\<close>

definition GetTLSInstance :: "u64 \<Rightarrow> Random option \<Rightarrow> Random \<times> Random option" where
  "GetTLSInstance thread_hash tls_instance =
    (case tls_instance of
       None \<Rightarrow> let rv = new_Random (ucast thread_hash) in (rv, Some rv)
     | Some rv \<Rightarrow> (rv, tls_instance))"

section \<open>One step is a multiplication modulo \<open>2 ^ 31 - 1\<close>\<close>

abbreviation RM :: nat where
  "RM \<equiv> 2147483647"

abbreviation RA :: nat where
  "RA \<equiv> 16807"

lemma coprime_RA_RM: "coprime RA RM"
  by (simp add: coprime_iff_gcd_eq_1 gcd_nat.simps gcd_non_0_nat)

lemma reduce_eq:
  fixes p :: nat
  assumes "p < 16807 * 2 ^ 31"
  defines "t \<equiv> p div 2 ^ 31 + p mod 2 ^ 31"
  shows "t < 2 ^ 32" and "t mod RM = p mod RM" and "t \<le> RM + 16807"
proof -
  have *: "p div 2 ^ 31 < 16807" using assms(1) by (simp add: less_mult_imp_div_less)
  moreover have lo: "p mod 2 ^ 31 < 2 ^ 31" by simp
  ultimately show "t < 2 ^ 32" "t \<le> RM + 16807" unfolding t_def by simp_all
  have "p = p div 2 ^ 31 * RM + t"
    using div_mult_mod_eq [of p "2 ^ 31"] by (simp add: t_def)
  then show "t mod RM = p mod RM" by (metis mod_mult_self3)
qed

lemma unat_Next:
  assumes "unat (seed r) \<le> RM"
  defines "t \<equiv> (unat (seed r) * RA) div 2 ^ 31 + (unat (seed r) * RA) mod 2 ^ 31"
  shows "unat (fst (Random_Next r)) = (if RM < t then t - RM else t)"
proof -
  let ?p = "(ucast (seed r) :: u64) * Random_A"
  let ?n = "unat (seed r) * RA"
  have n: "?n < RA * 2 ^ 31" using assms(1) by simp
  have p: "unat ?p = ?n"
  proof -
    have "unat (ucast (seed r) :: u64) = unat (seed r)" using assms(1) by (simp add: unsigned_ucast_eq take_bit_nat_eq_self_iff)
    then show ?thesis using n by (simp add: Random_A_def unat_word_ariths)
  qed
  have M: "(ucast Random_M :: u64) = mask 31" by (simp add: Random_M_def mask_numeral)
  have d: "unat (drop_bit 31 ?p) = ?n div 2 ^ 31"
    by (subst unat_drop_bit_eq) (simp only: p drop_bit_eq_div)
  have a: "unat (?p AND ucast Random_M) = ?n mod 2 ^ 31"
    by (simp only: M flip: take_bit_eq_mask, subst unsigned_take_bit_eq, simp only: p take_bit_eq_mod)
  have t: "t < 2 ^ 32" using reduce_eq(1) [OF n] by (simp add: t_def)
  have "unat (drop_bit 31 ?p + (?p AND ucast Random_M)) = t"
    using t by (simp add: unat_word_ariths d a t_def)
  then have s: "unat (ucast (drop_bit 31 ?p + (?p AND ucast Random_M)) :: u32) = t"
    using t by (simp add: unsigned_ucast_eq take_bit_eq_mod)
  have "unat Random_M = RM" by (simp add: Random_M_def)
  with s show ?thesis
    by (auto simp: Random_Next_def Let_def word_less_nat_alt unat_sub word_le_nat_alt)
qed

lemma Next_mult:
  assumes "unat (seed r) \<in> {1 ..< RM}"
  shows "unat (fst (Random_Next r)) = (unat (seed r) * RA) mod RM"
    and "unat (fst (Random_Next r)) \<in> {1 ..< RM}"
proof -
  let ?n = "unat (seed r) * RA"
  define t where "t = ?n div 2 ^ 31 + ?n mod 2 ^ 31"
  have n: "?n < RA * 2 ^ 31" using assms by simp
  have t: "t mod RM = ?n mod RM" "t \<le> RM + RA"
    using reduce_eq(2,3) [OF n] by (simp_all add: t_def)
  have nz: "?n mod RM \<noteq> 0"
  proof
    assume "?n mod RM = 0"
    then have "RM dvd unat (seed r)"
      using coprime_RA_RM by (simp add: coprime_commute coprime_dvd_mult_left_iff mod_eq_0_iff_dvd)
    then show False using assms by (auto dest: dvd_imp_le)
  qed
  have "unat (fst (Random_Next r)) = t mod RM"
  proof (cases "RM < t")
    case True
    then have "t mod RM = t - RM" using t(2) by (simp add: le_mod_geq)
    then show ?thesis using True assms by (simp add: unat_Next t_def)
  next
    case False
    then have "t \<noteq> RM" using t(1) nz by (metis mod_self)
    then have "t mod RM = t" using False by simp
    then show ?thesis using False assms by (simp add: unat_Next t_def)
  qed
  then show "unat (fst (Random_Next r)) = ?n mod RM" using t(1) by simp
  then show "unat (fst (Random_Next r)) \<in> {1 ..< RM}" using nz by simp
qed

lemma snd_Next [simp]: "seed (snd (Random_Next r)) = fst (Random_Next r)"
  by (simp add: Random_Next_def Let_def)

lemma Next_iterate:
  assumes "unat (seed r) \<in> {1 ..< RM}"
  shows "unat (seed (((\<lambda>r. snd (Random_Next r)) ^^ n) r)) = (unat (seed r) * RA ^ n) mod RM"
    and "unat (seed (((\<lambda>r. snd (Random_Next r)) ^^ n) r)) \<in> {1 ..< RM}"
proof (induction n)
  case 0
  case 1 show ?case using assms by simp
  case 2 show ?case using assms by simp
next
  case (Suc n)
  case 1 show ?case using Next_mult(1) [OF Suc(2)] Suc(1) by (simp add: mod_simps ac_simps)
  case 2 show ?case using Next_mult(2) [OF Suc(2)] by simp
qed

section \<open>The order of the multiplier\<close>

text \<open>Exponentiation by squaring modulo \<open>2 ^ 31 - 1\<close>.\<close>

fun powm :: "int \<Rightarrow> int \<Rightarrow> int \<Rightarrow> int" where
  "powm a b e =
    (if e \<le> 0 then a
     else powm (if odd e then a * b mod 2147483647 else a) (b * b mod 2147483647) (e div 2))"

declare powm.simps [simp del]

lemma powm_eq: "0 \<le> a \<Longrightarrow> a < 2147483647 \<Longrightarrow> powm a b e = a * b ^ nat e mod 2147483647"
proof (induction a b e rule: powm.induct)
  case (1 a b e)
  show ?case
  proof (cases "e \<le> 0")
    case False
    let ?a = "if odd e then a * b mod 2147483647 else a"
    have "0 \<le> ?a" "?a < 2147483647" using 1 by simp_all
    from 1(1) [OF False this] have "powm a b e = ?a * (b * b mod 2147483647) ^ nat (e div 2) mod 2147483647"
      using False by (simp only: powm.simps [of a b e] if_False)
    also have "\<dots> = ?a * (b * b) ^ nat (e div 2) mod 2147483647"
      by (intro mod_mult_cong refl power_mod)
    also have "\<dots> = a * b ^ (nat (e mod 2) + 2 * nat (e div 2)) mod 2147483647"
      by (auto simp: power_add power_mult power2_eq_square odd_iff_mod_2_eq_one even_iff_mod_2_eq_zero
          mod_mult_left_eq mult.assoc)
    also have "nat (e mod 2) + 2 * nat (e div 2) = nat e"
      using False by (simp add: nat_mod_distrib nat_div_distrib)
    finally show ?thesis .
  qed (use 1 in \<open>simp add: powm.simps\<close>)
qed

lemma powm_values:
  "powm 1 16807 2147483646 = 1" "powm 1 16807 1073741823 \<noteq> 1" "powm 1 16807 715827882 \<noteq> 1"
  "powm 1 16807 306783378 \<noteq> 1" "powm 1 16807 195225786 \<noteq> 1" "powm 1 16807 69273666 \<noteq> 1"
  "powm 1 16807 14221746 \<noteq> 1" "powm 1 16807 6487866 \<noteq> 1"
  by code_simp+

lemma RA_power_mod: "RA ^ n mod RM = nat (powm 1 16807 (int n))"
proof -
  have "int (RA ^ n mod RM) = powm 1 16807 (int n)"
    by (subst powm_eq) (simp_all add: zmod_int)
  then show ?thesis by linarith
qed

lemma order_dvd:
  fixes a m d n :: nat
  assumes "a ^ d mod m = 1" and "a ^ n mod m = 1" and "1 < m"
  shows "a ^ gcd d n mod m = 1"
  using assms(1,2)
proof (induction d n rule: gcd_nat_induct)
  case (step d n)
  have "a ^ (d mod n) mod m = 1"
  proof -
    have "a ^ d mod m = ((a ^ n mod m) ^ (d div n) mod m) * (a ^ (d mod n) mod m) mod m"
      by (simp add: mod_mult_eq power_mod flip: power_mult power_add)
    then show ?thesis using step(3,4) assms(3) by simp
  qed
  then have "a ^ gcd n (d mod n) mod m = 1" using step by blast
  then show ?case using step(1) by (simp add: gcd_non_0_nat)
qed simp

text \<open>The prime factors of \<open>2 ^ 31 - 2\<close> are 2, 3, 7, 11, 31, 151 and 331.\<close>

lemma factors_prime:
  fixes d q :: nat
  assumes "q \<in> {2, 3, 7, 11, 31, 151, 331}" and "d dvd q"
  shows "d = 1 \<or> d = q"
proof -
  have "\<forall>q \<in> {2, 3, 7, 11, 31, 151, 331 :: int}. \<forall>d \<in> set [0..331]. d dvd q \<longrightarrow> d = 1 \<or> d = q"
    by code_simp
  moreover have "int q \<in> {2, 3, 7, 11, 31, 151, 331}" "int d dvd int q"
    using assms by auto
  moreover have "d \<le> q" "q \<le> 331" using assms by (auto dest: dvd_imp_le)
  then have "int d \<in> set [0..331]" by simp
  ultimately have "int d = 1 \<or> int d = int q" by blast
  then show ?thesis by simp
qed

lemma divisor_factor:
  fixes k :: nat
  assumes "k dvd 2147483646" and "k \<noteq> 1"
  shows "\<exists>q \<in> {2, 3, 7, 11, 31, 151, 331}. q dvd k"
proof (rule ccontr)
  assume no: "\<not> ?thesis"
  have cp: "coprime k q" if "q \<in> {2, 3, 7, 11, 31, 151, 331}" for q :: nat
    using factors_prime [OF that, of "gcd k q"] no that
    by (metis coprime_iff_gcd_eq_1 gcd_dvd1 gcd_dvd2)
  have "coprime k (2 * 3 * 3 * 7 * 11 * 31 * 151 * 331)"
    unfolding coprime_mult_right_iff by (intro conjI cp) simp_all
  then have "coprime k 2147483646" by simp
  then show False using assms coprime_common_divisor_nat [of k 2147483646 k] by simp
qed

abbreviation RN :: nat where
  "RN \<equiv> 2147483646"

lemma RA_order:
  assumes "RA ^ n mod RM = 1"
  shows "RN dvd n"
proof (rule ccontr)
  assume "\<not> RN dvd n"
  define g where "g = gcd n RN"
  have one: "RA ^ RN mod RM = 1" unfolding RA_power_mod using powm_values(1) by simp
  have g1: "RA ^ g mod RM = 1" unfolding g_def by (rule order_dvd [OF assms one]) simp
  obtain k where k: "RN = g * k" unfolding g_def using gcd_dvd2 by (metis dvdE)
  have "k \<noteq> 1" using \<open>\<not> RN dvd n\<close> k by (metis g_def gcd_dvd1 mult.right_neutral)
  then obtain q where q: "q \<in> {2, 3, 7, 11, 31, 151, 331}" "q dvd k"
    using divisor_factor [of k] k by (metis dvd_triv_right)
  then obtain j where j: "RN = g * j * q" using k by (metis dvdE mult.assoc mult.commute)
  have "0 < q" using q by auto
  then have "RN div q = g * j" using j by (metis nonzero_mult_div_cancel_right not_less_zero)
  then have "RA ^ (RN div q) mod RM = (RA ^ g mod RM) ^ j mod RM"
    by (simp add: power_mult power_mod)
  then have "RA ^ (RN div q) mod RM = 1" using g1 by simp
  then have *: "nat (powm 1 16807 (int (RN div q))) = 1" by (simp only: RA_power_mod)
  from q(1) show False using * powm_values by auto
qed

lemma RA_cancel:
  assumes "(RA ^ k * x) mod RM = (RA ^ k * y) mod RM"
  shows "x mod RM = y mod RM"
proof -
  have "int RM dvd int (RA ^ k * x) - int (RA ^ k * y)"
    using assms by (metis mod_eq_dvd_iff of_nat_mod)
  then have "int RM dvd int (RA ^ k) * (int x - int y)" by (simp add: algebra_simps)
  moreover have "coprime (int RM) (int (RA ^ k))"
    using coprime_RA_RM by (metis coprime_commute coprime_int_iff coprime_power_right_iff)
  ultimately have "int RM dvd int x - int y" by (simp only: coprime_dvd_mult_right_iff)
  then show ?thesis by (metis mod_eq_dvd_iff of_nat_eq_iff of_nat_mod)
qed

lemma RA_powers_inj: "inj_on (\<lambda>i. RA ^ (k + i) mod RM) {..<RN}"
proof -
  have less: False if "i < j" "j < RN" "RA ^ (k + i) mod RM = RA ^ (k + j) mod RM" for i j
  proof -
    have "RA ^ (k + i) * 1 mod RM = RA ^ (k + i) * RA ^ (j - i) mod RM"
      using that(1,3) by (simp only: mult_1_right power_add [symmetric]) simp
    then have "RA ^ (j - i) mod RM = 1" using RA_cancel by (metis mod_less one_less_numeral_iff semiring_norm(77))
    then have "RN dvd j - i" by (rule RA_order)
    then show False using that(1,2) by (auto dest: dvd_imp_le)
  qed
  then show ?thesis by (intro inj_onI) (metis lessThan_iff linorder_neqE_nat)
qed

lemma RA_powers_range: "(\<lambda>i. RA ^ (k + i) mod RM) ` {..<RN} = {1..<RM}"
proof (rule card_subset_eq)
  show "(\<lambda>i. RA ^ (k + i) mod RM) ` {..<RN} \<subseteq> {1..<RM}"
  proof
    fix x assume "x \<in> (\<lambda>i. RA ^ (k + i) mod RM) ` {..<RN}"
    then obtain i where x: "x = RA ^ (k + i) mod RM" by blast
    have "x \<noteq> 0"
    proof
      assume "x = 0"
      then have "RM dvd RA ^ (k + i)" using x by (simp add: mod_eq_0_iff_dvd)
      moreover have "coprime RM (RA ^ (k + i))" using coprime_RA_RM by (metis coprime_commute coprime_power_right_iff)
      ultimately show False using coprime_common_divisor_nat [of RM "RA ^ (k + i)" RM] by simp
    qed
    then show "x \<in> {1..<RM}" using x by simp
  qed
  show "card ((\<lambda>i. RA ^ (k + i) mod RM) ` {..<RN}) = card {1..<RM}"
    by (simp add: card_image RA_powers_inj)
qed simp

lemma cycle_bij:
  assumes "unat (seed r) \<in> {1 ..< RM}"
  shows "bij_betw (\<lambda>i. unat (fst (Random_Next (((\<lambda>r. snd (Random_Next r)) ^^ i) r)))) {..<RN} {1..<RM}"
proof -
  have "unat (seed r) \<in> (\<lambda>i. RA ^ (0 + i) mod RM) ` {..<RN}"
    using assms unfolding RA_powers_range .
  then obtain k where "unat (seed r) = RA ^ (0 + k) mod RM" by (rule imageE)
  then have k: "unat (seed r) = RA ^ k mod RM" by (simp only: add_0)
  have "unat (fst (Random_Next (((\<lambda>r. snd (Random_Next r)) ^^ i) r))) = RA ^ (Suc k + i) mod RM" for i
  proof -
    have "unat (fst (Random_Next (((\<lambda>r. snd (Random_Next r)) ^^ i) r))) = (RA ^ k mod RM) * RA ^ Suc i mod RM"
      using Next_iterate(1) [OF assms, of "Suc i"] by (simp only: k funpow.simps comp_apply snd_Next)
    then show ?thesis
      by (simp only: mod_mult_left_eq power_add [symmetric] add_Suc_right add_Suc)
  qed
  then show ?thesis
    using RA_powers_inj [of "Suc k"] RA_powers_range [of "Suc k"]
    by (simp only: bij_betw_def)
qed

lemma Next_of_M: "seed r = Random_M \<Longrightarrow> fst (Random_Next r) = Random_M"
  by (simp add: Random_Next_def Random_M_def Random_A_def Let_def drop_bit_eq_div)

lemma GoodSeed_range:
  shows "unat (GoodSeed s) \<in> {1..RM}" and "unat (GoodSeed s) = RM \<longleftrightarrow> s AND Random_M = Random_M"
proof -
  have M: "unat (s AND Random_M) \<le> RM" "unat Random_M = RM"
    using word_and_le1 [of s Random_M] by (simp_all add: Random_M_def word_le_nat_alt)
  have "1 \<le> unat x" if "x \<noteq> 0" for x :: u32 using that by (simp add: Suc_leI unat_gt_0)
  then show "unat (GoodSeed s) \<in> {1..RM}" using M by (auto simp: GoodSeed_def)
  show "unat (GoodSeed s) = RM \<longleftrightarrow> s AND Random_M = Random_M"
    using M by (auto simp: GoodSeed_def word_unat_eq_iff)
qed

text \<open>C40: the generator made with any seed runs through every number from 1 to \<open>2 ^ 31 - 2\<close> exactly
  once in \<open>2 ^ 31 - 2\<close> calls of \<^verbatim>\<open>Next\<close>, as its comment says, unless the low 31 bits of the seed are all
  set: \<^verbatim>\<open>GoodSeed\<close> replaces 0 but not this seed, and then \<^verbatim>\<open>Next\<close> returns \<open>2 ^ 31 - 1\<close> for ever.\<close>

theorem Random_full_cycle:
  "if s AND Random_M = Random_M
   then \<forall>n. fst (Random_Next (((\<lambda>r. snd (Random_Next r)) ^^ n) (new_Random s))) = Random_M
   else bij_betw (\<lambda>n. unat (fst (Random_Next (((\<lambda>r. snd (Random_Next r)) ^^ n) (new_Random s)))))
          {..<2147483646} {1..<2147483647}"
proof (cases "s AND Random_M = Random_M")
  case True
  then have "unat (GoodSeed s) = unat Random_M" using GoodSeed_range(2) by (simp add: Random_M_def)
  then have "seed (new_Random s) = Random_M" by (simp add: new_Random_def word_unat_eq_iff)
  then have "seed (((\<lambda>r. snd (Random_Next r)) ^^ n) (new_Random s)) = Random_M" for n
    by (induction n) (simp_all add: Next_of_M)
  then show ?thesis using True by (simp add: Next_of_M)
next
  case False
  then have "unat (seed (new_Random s)) \<in> {1..<RM}"
    using GoodSeed_range [of s] by (simp add: new_Random_def le_neq_implies_less)
  then show ?thesis using False by (simp only: cycle_bij if_False)
qed

end
