(* ===== verification/Autovector.thy ===== *)
theory Autovector
  imports Prelude
begin

text \<open>
  The container of \<^verbatim>\<open>src/util/autovector.h\<close>: a vector whose first \<^verbatim>\<open>kSize\<close> items are in an array inside the
  object and the others in a \<^verbatim>\<open>std::vector\<close>. The template argument \<^verbatim>\<open>kSize\<close> is the first argument of the
  operations. The locale \<open>growable\<close> states what a client relies on: the operations act on a list at its
  end. A failing assertion is \<open>None\<close>.
\<close>

section \<open>State\<close>

text \<open>Of the capacity of the inner vector only whether it is 0 can be seen; it is so until the vector
  first gets an item.\<close>

record 'a autovector =
  num_stack_items :: nat
  values_arr :: "'a list"
  vect :: "'a list"
  vect_reserved :: bool

definition new_autovector :: "'a list \<Rightarrow> 'a autovector" where
  "new_autovector arr = \<lparr>num_stack_items = 0, values_arr = arr, vect = [], vect_reserved = False\<rparr>"

definition only_in_stack :: "'a autovector \<Rightarrow> bool" where
  "only_in_stack v \<longleftrightarrow> \<not> vect_reserved v"

definition av_size :: "'a autovector \<Rightarrow> nat" where
  "av_size v = num_stack_items v + length (vect v)"

definition av_empty :: "'a autovector \<Rightarrow> bool" where
  "av_empty v \<longleftrightarrow> av_size v = 0"

section \<open>Operations\<close>

text \<open>\<^verbatim>\<open>std::vector::resize\<close> with the value that new items are initialized with.\<close>

definition vector_resize :: "'a \<Rightarrow> nat \<Rightarrow> 'a list \<Rightarrow> 'a list" where
  "vector_resize d n xs = take n xs @ replicate (n - length xs) d"

definition av_resize :: "nat \<Rightarrow> 'a \<Rightarrow> nat \<Rightarrow> 'a autovector \<Rightarrow> 'a autovector" where
  "av_resize kSize d n v =
    (if kSize < n
     then v\<lparr>vect := vector_resize d (n - kSize) (vect v), vect_reserved := True, num_stack_items := kSize\<rparr>
     else v\<lparr>vect := [], num_stack_items := n\<rparr>)"

definition av_nth :: "nat \<Rightarrow> 'a autovector \<Rightarrow> nat \<Rightarrow> 'a option" where
  "av_nth kSize v n =
    (if n < av_size v then Some (if n < kSize then values_arr v ! n else vect v ! (n - kSize)) else None)"

definition av_set :: "nat \<Rightarrow> nat \<Rightarrow> 'a \<Rightarrow> 'a autovector \<Rightarrow> 'a autovector option" where
  "av_set kSize n x v =
    (if n < av_size v
     then Some (if n < kSize then v\<lparr>values_arr := (values_arr v)[n := x]\<rparr>
                else v\<lparr>vect := (vect v)[n - kSize := x]\<rparr>)
     else None)"

definition av_at :: "nat \<Rightarrow> 'a autovector \<Rightarrow> nat \<Rightarrow> 'a option" where
  "av_at kSize v n = (if n < av_size v then av_nth kSize v n else None)"

definition push_back :: "nat \<Rightarrow> 'a \<Rightarrow> 'a autovector \<Rightarrow> 'a autovector" where
  "push_back kSize item v =
    (if num_stack_items v < kSize
     then v\<lparr>values_arr := (values_arr v)[num_stack_items v := item], num_stack_items := num_stack_items v + 1\<rparr>
     else v\<lparr>vect := vect v @ [item], vect_reserved := True\<rparr>)"

definition autovector_of :: "nat \<Rightarrow> 'a list \<Rightarrow> 'a list \<Rightarrow> 'a autovector" where
  "autovector_of kSize arr init_list = fold (push_back kSize) init_list (new_autovector arr)"

definition pop_back :: "'a autovector \<Rightarrow> 'a autovector option" where
  "pop_back v =
    (if av_empty v then None
     else if vect v \<noteq> [] then Some (v\<lparr>vect := butlast (vect v)\<rparr>)
     else Some (v\<lparr>num_stack_items := num_stack_items v - 1\<rparr>))"

definition av_clear :: "'a autovector \<Rightarrow> 'a autovector" where
  "av_clear v = v\<lparr>num_stack_items := 0, vect := []\<rparr>"

text \<open>\<open>assign v other\<close>; the items of the array past the copied ones keep their values.\<close>

definition av_assign :: "'a autovector \<Rightarrow> 'a autovector \<Rightarrow> 'a autovector" where
  "av_assign v other =
    v\<lparr>vect := vect other, vect_reserved := vect_reserved v \<or> vect other \<noteq> [],
      num_stack_items := num_stack_items other,
      values_arr := take (num_stack_items other) (values_arr other) @ drop (num_stack_items other) (values_arr v)\<rparr>"

section \<open>Iterators\<close>

text \<open>An iterator is the vector it belongs to, here the number of an object, and a position of type
  \<^verbatim>\<open>size_t\<close> that wraps around.\<close>

record av_iterator =
  it_vect :: nat
  it_index :: u64

definition it_add :: "u64 \<Rightarrow> av_iterator \<Rightarrow> av_iterator" where
  "it_add len it = it\<lparr>it_index := it_index it + len\<rparr>"

definition it_sub :: "u64 \<Rightarrow> av_iterator \<Rightarrow> av_iterator" where
  "it_sub len it = it\<lparr>it_index := it_index it - len\<rparr>"

definition it_incr :: "av_iterator \<Rightarrow> av_iterator" where
  "it_incr it = it\<lparr>it_index := it_index it + 1\<rparr>"

definition it_decr :: "av_iterator \<Rightarrow> av_iterator" where
  "it_decr it = it\<lparr>it_index := it_index it - 1\<rparr>"

definition it_distance :: "av_iterator \<Rightarrow> av_iterator \<Rightarrow> int option" where
  "it_distance it other =
    (if it_vect it = it_vect other then Some (sint (it_index it - it_index other)) else None)"

definition it_eq :: "av_iterator \<Rightarrow> av_iterator \<Rightarrow> bool option" where
  "it_eq it other = (if it_vect it = it_vect other then Some (it_index it = it_index other) else None)"

definition it_less :: "av_iterator \<Rightarrow> av_iterator \<Rightarrow> bool option" where
  "it_less it other = (if it_vect it = it_vect other then Some (it_index it < it_index other) else None)"

definition it_deref :: "nat \<Rightarrow> 'a autovector \<Rightarrow> av_iterator \<Rightarrow> 'a option" where
  "it_deref kSize v it =
    (if unat (it_index it) \<le> av_size v then av_nth kSize v (unat (it_index it)) else None)"

definition av_begin :: "nat \<Rightarrow> av_iterator" where
  "av_begin this = \<lparr>it_vect = this, it_index = 0\<rparr>"

definition av_end :: "nat \<Rightarrow> 'a autovector \<Rightarrow> av_iterator" where
  "av_end this v = \<lparr>it_vect = this, it_index = of_nat (av_size v)\<rparr>"

definition av_front :: "nat \<Rightarrow> nat \<Rightarrow> 'a autovector \<Rightarrow> 'a option" where
  "av_front kSize this v = (if av_empty v then None else it_deref kSize v (av_begin this))"

definition av_back :: "nat \<Rightarrow> nat \<Rightarrow> 'a autovector \<Rightarrow> 'a option" where
  "av_back kSize this v =
    (if av_empty v then None else it_deref kSize v (it_sub 1 (av_end this v)))"

text \<open>\<^verbatim>\<open>for (auto it = first; it != last; ++it)\<close>, and the same loop with the \<^verbatim>\<open>std::reverse_iterator\<close>s from
  \<^verbatim>\<open>rbegin()\<close> to \<^verbatim>\<open>rend()\<close>, which dereference the position before their base.\<close>

partial_function (option) it_loop ::
  "nat \<Rightarrow> 'a autovector \<Rightarrow> av_iterator \<Rightarrow> av_iterator \<Rightarrow> 'a list \<Rightarrow> 'a list option" where
  "it_loop kSize v it lst acc =
    do { e \<leftarrow> it_eq it lst;
         if e then Some (rev acc)
         else do { x \<leftarrow> it_deref kSize v it; it_loop kSize v (it_incr it) lst (x # acc) } }"

partial_function (option) rit_loop ::
  "nat \<Rightarrow> 'a autovector \<Rightarrow> av_iterator \<Rightarrow> av_iterator \<Rightarrow> 'a list \<Rightarrow> 'a list option" where
  "rit_loop kSize v base lst acc =
    do { e \<leftarrow> it_eq base lst;
         if e then Some (rev acc)
         else do { x \<leftarrow> it_deref kSize v (it_decr base); rit_loop kSize v (it_decr base) lst (x # acc) } }"

declare it_loop.simps [code] rit_loop.simps [code]

section \<open>The vector as a list\<close>

text \<open>The invariant: the inner vector is used only when the array is full.\<close>

definition av_inv :: "nat \<Rightarrow> 'a autovector \<Rightarrow> bool" where
  "av_inv kSize v \<longleftrightarrow>
     length (values_arr v) = kSize \<and> num_stack_items v \<le> kSize \<and>
     (vect v \<noteq> [] \<longrightarrow> num_stack_items v = kSize \<and> vect_reserved v)"

definition av_list :: "'a autovector \<Rightarrow> 'a list" where
  "av_list v = take (num_stack_items v) (values_arr v) @ vect v"

lemma av_list_size: "av_inv k v \<Longrightarrow> length (av_list v) = av_size v"
  by (simp add: av_inv_def av_list_def av_size_def)

lemma av_new: "length arr = k \<Longrightarrow> av_inv k (new_autovector arr) \<and> av_list (new_autovector arr) = []"
  by (simp add: av_inv_def av_list_def new_autovector_def)

lemma av_empty_list: "av_inv k v \<Longrightarrow> av_empty v \<longleftrightarrow> av_list v = []"
  using av_list_size [of k v] by (auto simp: av_empty_def)

lemma av_push_back: "av_inv k v \<Longrightarrow> av_inv k (push_back k x v) \<and> av_list (push_back k x v) = av_list v @ [x]"
  by (auto simp: av_inv_def av_list_def push_back_def take_Suc_conv_app_nth)

lemma av_pop_back:
  assumes "av_inv k v"
  shows "av_list v = [] \<Longrightarrow> pop_back v = None"
    and "av_list v \<noteq> [] \<Longrightarrow> \<exists>v'. pop_back v = Some v' \<and> av_inv k v' \<and> av_list v' = butlast (av_list v)"
  using assms av_empty_list [OF assms]
  by (auto simp: av_inv_def av_list_def pop_back_def butlast_append butlast_take av_empty_def av_size_def)

lemma av_clear: "av_inv k v \<Longrightarrow> av_inv k (av_clear v) \<and> av_list (av_clear v) = []"
  by (simp add: av_inv_def av_list_def av_clear_def)

lemma av_nth_list: "av_inv k v \<Longrightarrow> av_nth k v n = (if n < length (av_list v) then Some (av_list v ! n) else None)"
  using av_list_size [of k v] by (auto simp: av_nth_def av_list_def av_inv_def nth_append av_size_def)

lemma av_set_list:
  assumes "av_inv k v" and "n < length (av_list v)"
  shows "\<exists>v'. av_set k n x v = Some v' \<and> av_inv k v' \<and> av_list v' = (av_list v)[n := x]"
  using assms av_list_size [OF assms(1)]
  by (auto simp: av_set_def av_list_def av_inv_def av_size_def list_update_append take_update_swap)

lemma av_assign:
  assumes "av_inv k v" and "av_inv k other"
  shows "av_inv k (av_assign v other) \<and> av_list (av_assign v other) = av_list other"
  using assms by (auto simp: av_inv_def av_list_def av_assign_def)

lemma av_resize:
  assumes "av_inv k v"
  shows "av_inv k (av_resize k d n v)" and "length (av_list (av_resize k d n v)) = n"
    and "take (min n (av_size v)) (av_list (av_resize k d n v)) = take (min n (av_size v)) (av_list v)"
proof -
  show inv: "av_inv k (av_resize k d n v)" using assms by (auto simp: av_inv_def av_resize_def)
  show "length (av_list (av_resize k d n v)) = n"
    using assms by (auto simp: av_inv_def av_list_def av_resize_def vector_resize_def)
  show "take (min n (av_size v)) (av_list (av_resize k d n v)) = take (min n (av_size v)) (av_list v)"
    using assms
    by (auto simp: av_inv_def av_list_def av_resize_def vector_resize_def av_size_def min_def take_Cons')
qed

lemma av_deref:
  assumes "av_inv k v" and "unat (it_index it) < length (av_list v)"
  shows "it_deref k v it = Some (av_list v ! unat (it_index it))"
  using assms av_list_size [OF assms(1)] by (simp add: it_deref_def av_nth_list)

lemma av_back_list:
  assumes "av_inv k v" and "length (av_list v) \<le> 2 ^ 64"
  shows "av_back k this v = (if av_list v = [] then None else Some (last (av_list v)))"
proof (cases "av_list v = []")
  case False
  have "unat (of_nat (av_size v) - 1 :: u64) = length (av_list v) - 1"
  proof -
    have "of_nat (av_size v) - 1 = (of_nat (length (av_list v) - 1) :: u64)"
      using False av_list_size [OF assms(1)] by (cases "av_size v") auto
    moreover have "length (av_list v) - 1 < 2 ^ 64" using False assms(2) by (cases "av_list v") auto
    ultimately show ?thesis by (simp add: unat_of_nat)
  qed
  then show ?thesis
    using False assms(1) av_deref [OF assms(1), of "it_sub 1 (av_end this v)"]
    by (simp add: av_back_def av_empty_list it_sub_def av_end_def last_conv_nth)
qed (use assms in \<open>simp add: av_back_def av_empty_list\<close>)

lemma av_front_list:
  "av_inv k v \<Longrightarrow> av_front k this v = front (av_list v)"
  using av_deref [of k v "av_begin this"]
  by (cases "av_list v") (auto simp: av_front_def av_empty_list av_begin_def)

lemma it_loop_list:
  assumes "av_inv k v" and "length (av_list v) < 2 ^ 64"
    and "it_vect it = this" and "unat (it_index it) + n = length (av_list v)"
  shows "it_loop k v it (av_end this v) acc = Some (rev acc @ drop (unat (it_index it)) (av_list v))"
  using assms(3,4)
proof (induction n arbitrary: it acc)
  case 0
  then have "it_index it = of_nat (av_size v)"
    using av_list_size [OF assms(1)] by (metis add_0_right of_nat_unat ucast_id)
  then show ?case using 0 by (subst it_loop.simps) (simp add: it_eq_def av_end_def)
next
  case (Suc n)
  let ?i = "unat (it_index it)"
  have lt: "?i < length (av_list v)" using Suc.prems by simp
  have "it_index it \<noteq> of_nat (av_size v)"
    using lt assms(2) av_list_size [OF assms(1)] by (auto simp: unat_of_nat)
  moreover have "unat (it_index (it_incr it)) = Suc ?i"
    using lt assms(2) by (simp add: it_incr_def unat_word_ariths)
  ultimately show ?case
    using Suc.prems Suc.IH [of "it_incr it" "av_list v ! ?i # acc"] av_deref [OF assms(1) lt]
    by (subst it_loop.simps) (simp add: it_eq_def av_end_def it_incr_def Cons_nth_drop_Suc [OF lt, symmetric])
qed

lemma rit_loop_list:
  assumes "av_inv k v" and "it_vect it = this" and "unat (it_index it) \<le> length (av_list v)"
  shows "rit_loop k v it (av_begin this) acc = Some (rev acc @ rev (take (unat (it_index it)) (av_list v)))"
  using assms(2,3)
proof (induction "unat (it_index it)" arbitrary: it acc)
  case 0
  then have "it_index it = 0" by (simp add: unat_eq_0)
  then show ?case using 0 by (subst rit_loop.simps) (simp add: it_eq_def av_begin_def)
next
  case (Suc n)
  have nz: "it_index it \<noteq> 0" using Suc(2) by (metis nat.distinct(1) unat_eq_0)
  have n: "unat (it_index (it_decr it)) = n"
    using Suc(2) nz by (simp add: it_decr_def unat_minus_one)
  have "it_deref k v (it_decr it) = Some (av_list v ! n)"
    using av_deref [OF assms(1), of "it_decr it"] n Suc(2,4) by simp
  then show ?case
    using Suc(1) [of "it_decr it" "av_list v ! n # acc"] n nz Suc(2-4)
    by (subst rit_loop.simps) (simp add: it_eq_def av_begin_def it_decr_def take_Suc_conv_app_nth flip: Suc(2))
qed

section \<open>The contract\<close>

text \<open>A list that grows and shrinks at its end.\<close>

locale growable =
  fixes new :: 'v
    and push :: "'a \<Rightarrow> 'v \<Rightarrow> 'v"
    and pop :: "'v \<Rightarrow> 'v option"
    and top :: "'v \<Rightarrow> 'a option"
    and invar :: "'v \<Rightarrow> bool"
    and items :: "'v \<Rightarrow> 'a list"
  assumes new: "invar new" "items new = []"
    and push: "invar v \<Longrightarrow> invar (push x v)" "invar v \<Longrightarrow> items (push x v) = items v @ [x]"
    and pop_None: "invar v \<Longrightarrow> items v = [] \<Longrightarrow> pop v = None"
    and pop_Some: "invar v \<Longrightarrow> items v \<noteq> [] \<Longrightarrow> \<exists>v'. pop v = Some v' \<and> invar v' \<and> items v' = butlast (items v)"
    and top: "invar v \<Longrightarrow> length (items v) \<le> 2 ^ 64 \<Longrightarrow>
      top v = (if items v = [] then None else Some (last (items v)))"
begin

lemma pushes: "invar v \<Longrightarrow> invar (fold push xs v) \<and> items (fold push xs v) = items v @ xs"
  by (induction xs arbitrary: v) (auto simp: push)

lemma pop_push:
  assumes "invar v"
  obtains v' where "pop (push x v) = Some v'" "invar v'" "items v' = items v"
  using pop_Some [of "push x v"] push [OF assms, of x] by auto

lemma top_push: "invar v \<Longrightarrow> length (items v) < 2 ^ 64 \<Longrightarrow> top (push x v) = Some x"
  by (simp add: push top)

end

interpretation av: growable "new_autovector (replicate 8 d)" "push_back 8" pop_back "av_back 8 this" "av_inv 8" av_list
by unfold_locales (simp_all add: av_new av_push_back av_pop_back av_back_list)

section \<open>Properties\<close>

text \<open>C39: an \<^verbatim>\<open>autovector\<close> of any array size behaves as a list: with the invariant, \<^verbatim>\<open>push_back\<close> appends,
  \<^verbatim>\<open>pop_back\<close> removes the last item and fails exactly on the empty vector, \<^verbatim>\<open>operator[]\<close> and \<^verbatim>\<open>back\<close> read the
  list, \<^verbatim>\<open>resize\<close> keeps the items that remain, \<^verbatim>\<open>assign\<close> copies, \<^verbatim>\<open>clear\<close> empties, and each operation keeps the
  invariant. Loops over the iterators end and visit the items in order, those over the reverse iterators
  in reverse order, without a failing assertion.\<close>

theorem autovector_refines_list:
  assumes v: "av_inv k v" and w: "av_inv k w" and len: "length (av_list v) < 2 ^ 64"
  shows "(av_inv k (push_back k x v) \<and> av_list (push_back k x v) = av_list v @ [x]) \<and>
    (if av_list v = [] then pop_back v = None
     else \<exists>v'. pop_back v = Some v' \<and> av_inv k v' \<and> av_list v' = butlast (av_list v)) \<and>
    av_nth k v n = (if n < length (av_list v) then Some (av_list v ! n) else None) \<and>
    av_back k this v = (if av_list v = [] then None else Some (last (av_list v))) \<and>
    (av_inv k (av_resize k d n v) \<and> length (av_list (av_resize k d n v)) = n \<and>
     take (min n (length (av_list v))) (av_list (av_resize k d n v)) = take n (av_list v)) \<and>
    (av_inv k (av_assign v w) \<and> av_list (av_assign v w) = av_list w) \<and>
    (av_inv k (av_clear v) \<and> av_list (av_clear v) = []) \<and>
    it_loop k v (av_begin this) (av_end this v) [] = Some (av_list v) \<and>
    rit_loop k v (av_end this v) (av_begin this) [] = Some (rev (av_list v))"
proof -
  have "it_loop k v (av_begin this) (av_end this v) [] = Some (av_list v)"
    "rit_loop k v (av_end this v) (av_begin this) [] = Some (rev (av_list v))"
    using it_loop_list [OF v len, of "av_begin this" this "length (av_list v)" "[]"]
      rit_loop_list [OF v, of "av_end this v" this "[]"] len av_list_size [OF v]
    by (simp_all add: av_begin_def av_end_def unat_of_nat)
  then show ?thesis
    using av_resize(1,2) [OF v, of d n] av_resize(3) [OF v, of n d] av_pop_back [OF v] av_assign [OF v w] len
      av_back_list [OF v, of this] av_list_size [OF v] av_nth_list [OF v, of n] av_clear [OF v] av_push_back [OF v, of x]
    by (simp add: min_def split: if_splits)
qed

theorem autovector_refines_list_witness:
  "let v = autovector_of 2 [0, 0] [5, 6, 7 :: nat]
   in av_list v = [5, 6, 7] \<and> av_list (push_back 2 8 v) = [5, 6, 7, 8] \<and>
      av_back 2 0 v = Some 7 \<and> av_nth 2 v 1 = Some 6 \<and>
      rit_loop 2 v (av_end 0 v) (av_begin 0) [] = Some [7, 6, 5]"
proof -
  let ?v = "autovector_of 2 [0, 0] [5, 6, 7 :: nat]"
  have v: "av_inv 2 ?v" "av_list ?v = [5, 6, 7]" by code_simp+
  show ?thesis using autovector_refines_list [OF v(1) v(1), of 8 1 0 0] v by (simp add: Let_def)
qed

end
