(* ===== verification/ThreadLocal.thy ===== *)
theory ThreadLocal
  imports Autovector "HOL-Library.Multiset"
begin

text \<open>
  \<^verbatim>\<open>ThreadLocalPtr\<close> of \<^verbatim>\<open>src/util/thread_local.cc\<close>: pointers that each thread has for itself, one per
  \<^verbatim>\<open>ThreadLocalPtr\<close> object. The objects have ids; every thread has a vector of pointers indexed by the
  ids, its \<^verbatim>\<open>ThreadData\<close>, and the \<^verbatim>\<open>ThreadData\<close> of all threads are chained in a doubly linked ring whose
  head is a member of the singleton \<^verbatim>\<open>StaticMeta\<close>. The ring is modelled with its pointers: \<^verbatim>\<open>ThreadData\<close>
  objects are in a store, and following a null pointer or a pointer to a deleted object is \<open>None\<close>.

  An operation is the critical section it runs under the mutex. The build does not define
  \<^verbatim>\<open>ROCKSDB_SUPPORT_THREAD_LOCAL\<close>, so a thread finds its \<^verbatim>\<open>ThreadData\<close> through the value it has for the pthread
  key. Calls of unref handlers are recorded in a list. Threads, handlers and the addresses of
  \<^verbatim>\<open>ThreadData\<close> are natural numbers; a \<^verbatim>\<open>void*\<close> is an option, with \<open>None\<close> for the null pointer.
\<close>

section \<open>State\<close>

type_synonym id32 = "32 word"

record 'p ThreadData =
  entries :: "'p option list"
  td_next :: "nat option"
  td_prev :: "nat option"

type_synonym 'p td_store = "nat \<Rightarrow> 'p ThreadData option"

record 'p StaticMeta =
  next_instance_id :: id32
  free_instance_ids :: "id32 autovector"
  td_store :: "'p td_store"
  handler_map :: "id32 \<Rightarrow> nat option option"
  pthread_specific :: "nat \<Rightarrow> nat option"
  next_td :: nat
  unref_calls :: "(nat \<times> 'p) list"

text \<open>The address of the member \<^verbatim>\<open>head_\<close>.\<close>

abbreviation head_td :: nat where
  "head_td \<equiv> 0"

definition new_ThreadData :: "'p ThreadData" where
  "new_ThreadData = \<lparr>entries = [], td_next = None, td_prev = None\<rparr>"

definition new_StaticMeta :: "'p StaticMeta" where
  "new_StaticMeta =
    \<lparr>next_instance_id = 0, free_instance_ids = new_autovector (replicate 8 0),
     td_store = [head_td \<mapsto> new_ThreadData\<lparr>td_next := Some head_td, td_prev := Some head_td\<rparr>],
     handler_map = Map.empty, pthread_specific = Map.empty, next_td = 1, unref_calls = []\<rparr>"

section \<open>The ring of thread data\<close>

definition set_next :: "nat \<Rightarrow> nat \<Rightarrow> 'p td_store \<Rightarrow> 'p td_store option" where
  "set_next a b H = do { d \<leftarrow> H a; Some (H(a \<mapsto> d\<lparr>td_next := Some b\<rparr>)) }"

definition set_prev :: "nat \<Rightarrow> nat \<Rightarrow> 'p td_store \<Rightarrow> 'p td_store option" where
  "set_prev a b H = do { d \<leftarrow> H a; Some (H(a \<mapsto> d\<lparr>td_prev := Some b\<rparr>)) }"

definition get_next :: "nat \<Rightarrow> 'p td_store \<Rightarrow> nat option" where
  "get_next a H = do { d \<leftarrow> H a; td_next d }"

definition get_prev :: "nat \<Rightarrow> 'p td_store \<Rightarrow> nat option" where
  "get_prev a H = do { d \<leftarrow> H a; td_prev d }"

definition AddThreadData :: "nat \<Rightarrow> 'p td_store \<Rightarrow> 'p td_store option" where
  "AddThreadData d H =
    do { H \<leftarrow> set_next d head_td H;
         hp \<leftarrow> get_prev head_td H;
         H \<leftarrow> set_prev d hp H;
         hp \<leftarrow> get_prev head_td H;
         H \<leftarrow> set_next hp d H;
         set_prev head_td d H }"

definition RemoveThreadData :: "nat \<Rightarrow> 'p td_store \<Rightarrow> 'p td_store option" where
  "RemoveThreadData d H =
    do { dn \<leftarrow> get_next d H;
         dp \<leftarrow> get_prev d H;
         H \<leftarrow> set_prev dn dp H;
         dn \<leftarrow> get_next d H;
         dp \<leftarrow> get_prev d H;
         H \<leftarrow> set_next dp dn H;
         H \<leftarrow> set_prev d d H;
         set_next d d H }"

text \<open>\<^verbatim>\<open>for (ThreadData* t = head_.next; t != &head_; t = t->next)\<close> with a body that changes the entries of \<open>t\<close>
  and an accumulator.\<close>

partial_function (option) ring_loop ::
  "('p option list \<Rightarrow> 'a \<Rightarrow> 'p option list \<times> 'a) \<Rightarrow> nat \<Rightarrow> 'p td_store \<Rightarrow> 'a \<Rightarrow> ('p td_store \<times> 'a) option" where
  "ring_loop body t H acc =
    (if t = head_td then Some (H, acc)
     else do { d \<leftarrow> H t;
               let (es, acc) = body (entries d) acc;
               let H = H(t \<mapsto> d\<lparr>entries := es\<rparr>);
               n \<leftarrow> get_next t H;
               ring_loop body n H acc })"

declare ring_loop.simps [code]

definition each_thread ::
  "('p option list \<Rightarrow> 'a \<Rightarrow> 'p option list \<times> 'a) \<Rightarrow> 'p td_store \<Rightarrow> 'a \<Rightarrow> ('p td_store \<times> 'a) option" where
  "each_thread body H acc = do { t \<leftarrow> get_next head_td H; ring_loop body t H acc }"

section \<open>Pointers of the current thread\<close>

text \<open>\<^verbatim>\<open>GetThreadLocal\<close> for the thread \<open>tid\<close>; \<^verbatim>\<open>pthread_setspecific\<close> succeeds.\<close>

definition GetThreadLocal :: "nat \<Rightarrow> 'p StaticMeta \<Rightarrow> (nat \<times> 'p StaticMeta) option" where
  "GetThreadLocal tid M =
    (case pthread_specific M tid of
       Some tls \<Rightarrow> Some (tls, M)
     | None \<Rightarrow>
         let tls = next_td M
         in do { H \<leftarrow> AddThreadData tls ((td_store M)(tls \<mapsto> new_ThreadData));
                 Some (tls, M\<lparr>td_store := H, next_td := tls + 1,
                              pthread_specific := (pthread_specific M)(tid \<mapsto> tls)\<rparr>) })"

definition Meta_Get :: "nat \<Rightarrow> id32 \<Rightarrow> 'p StaticMeta \<Rightarrow> ('p option \<times> 'p StaticMeta) option" where
  "Meta_Get tid i M =
    do { (tls, M) \<leftarrow> GetThreadLocal tid M;
         d \<leftarrow> td_store M tls;
         Some (if length (entries d) \<le> unat i then None else entries d ! unat i, M) }"

text \<open>The step that \<^verbatim>\<open>Reset\<close>, \<^verbatim>\<open>Swap\<close> and \<^verbatim>\<open>CompareAndSwap\<close> share: the entries are made long enough for the id
  (\<^verbatim>\<open>id + 1\<close> is computed with 32 bits), and one entry is exchanged. Access beyond the end is undefined.\<close>

definition exchange_entry ::
  "nat \<Rightarrow> id32 \<Rightarrow> ('p option \<Rightarrow> 'p option) \<Rightarrow> 'p StaticMeta \<Rightarrow> ('p option \<times> 'p StaticMeta) option" where
  "exchange_entry tid i f M =
    do { (tls, M) \<leftarrow> GetThreadLocal tid M;
         d \<leftarrow> td_store M tls;
         let es = (if length (entries d) \<le> unat i
                   then vector_resize None (unat (i + 1)) (entries d) else entries d);
         if unat i < length es
         then Some (es ! unat i,
                M\<lparr>td_store := (td_store M)(tls \<mapsto> d\<lparr>entries := es[unat i := f (es ! unat i)]\<rparr>)\<rparr>)
         else None }"

definition Meta_Reset :: "nat \<Rightarrow> id32 \<Rightarrow> 'p option \<Rightarrow> 'p StaticMeta \<Rightarrow> 'p StaticMeta option" where
  "Meta_Reset tid i ptr M = map_option snd (exchange_entry tid i (\<lambda>_. ptr) M)"

definition Meta_Swap :: "nat \<Rightarrow> id32 \<Rightarrow> 'p option \<Rightarrow> 'p StaticMeta \<Rightarrow> ('p option \<times> 'p StaticMeta) option" where
  "Meta_Swap tid i ptr M = exchange_entry tid i (\<lambda>_. ptr) M"

text \<open>The results are the success flag and the value left in \<^verbatim>\<open>expected\<close>.\<close>

definition Meta_CompareAndSwap ::
  "nat \<Rightarrow> id32 \<Rightarrow> 'p option \<Rightarrow> 'p option \<Rightarrow> 'p StaticMeta \<Rightarrow> (bool \<times> 'p option \<times> 'p StaticMeta) option" where
  "Meta_CompareAndSwap tid i ptr expected M =
    do { (old, M) \<leftarrow> exchange_entry tid i (\<lambda>old. if old = expected then ptr else old) M;
         Some (old = expected, old, M) }"

section \<open>Pointers of all threads\<close>

definition scrape_body ::
  "id32 \<Rightarrow> 'p option \<Rightarrow> 'p option list \<Rightarrow> 'p list \<Rightarrow> 'p option list \<times> 'p list" where
  "scrape_body i replacement es ptrs =
    (if unat i < length es
     then (es[unat i := replacement], case es ! unat i of None \<Rightarrow> ptrs | Some p \<Rightarrow> ptrs @ [p])
     else (es, ptrs))"

text \<open>The list of pointers is the content of the vector that the caller passes.\<close>

definition Meta_Scrape ::
  "id32 \<Rightarrow> 'p list \<Rightarrow> 'p option \<Rightarrow> 'p StaticMeta \<Rightarrow> ('p list \<times> 'p StaticMeta) option" where
  "Meta_Scrape i ptrs replacement M =
    do { (H, ptrs) \<leftarrow> each_thread (scrape_body i replacement) (td_store M) ptrs;
         Some (ptrs, M\<lparr>td_store := H\<rparr>) }"

definition fold_body :: "id32 \<Rightarrow> ('p \<Rightarrow> 'r \<Rightarrow> 'r) \<Rightarrow> 'p option list \<Rightarrow> 'r \<Rightarrow> 'p option list \<times> 'r" where
  "fold_body i func es res =
    (es, if unat i < length es then (case es ! unat i of None \<Rightarrow> res | Some p \<Rightarrow> func p res) else res)"

definition Meta_Fold :: "id32 \<Rightarrow> ('p \<Rightarrow> 'r \<Rightarrow> 'r) \<Rightarrow> 'r \<Rightarrow> 'p StaticMeta \<Rightarrow> 'r option" where
  "Meta_Fold i func res M = map_option snd (each_thread (fold_body i func) (td_store M) res)"

section \<open>Ids and handlers\<close>

definition SetHandler :: "id32 \<Rightarrow> nat option \<Rightarrow> 'p StaticMeta \<Rightarrow> 'p StaticMeta" where
  "SetHandler i handler M = M\<lparr>handler_map := (handler_map M)(i \<mapsto> handler)\<rparr>"

definition GetHandler :: "id32 \<Rightarrow> 'p StaticMeta \<Rightarrow> nat option" where
  "GetHandler i M = (case handler_map M i of None \<Rightarrow> None | Some h \<Rightarrow> h)"

definition GetId :: "'p StaticMeta \<Rightarrow> (id32 \<times> 'p StaticMeta) option" where
  "GetId M =
    (if av_empty (free_instance_ids M)
     then Some (next_instance_id M, M\<lparr>next_instance_id := next_instance_id M + 1\<rparr>)
     else do { i \<leftarrow> av_back 8 0 (free_instance_ids M);
               f \<leftarrow> pop_back (free_instance_ids M);
               Some (i, M\<lparr>free_instance_ids := f\<rparr>) })"

definition PeekId :: "'p StaticMeta \<Rightarrow> id32 option" where
  "PeekId M =
    (if \<not> av_empty (free_instance_ids M) then av_back 8 0 (free_instance_ids M)
     else Some (next_instance_id M))"

definition unref :: "nat option \<Rightarrow> 'p option \<Rightarrow> (nat \<times> 'p) list" where
  "unref h ptr = (case (h, ptr) of (Some h, Some p) \<Rightarrow> [(h, p)] | _ \<Rightarrow> [])"

definition reclaim_body ::
  "id32 \<Rightarrow> nat option \<Rightarrow> 'p option list \<Rightarrow> (nat \<times> 'p) list \<Rightarrow> 'p option list \<times> (nat \<times> 'p) list" where
  "reclaim_body i h es calls =
    (if unat i < length es then (es[unat i := None], calls @ unref h (es ! unat i)) else (es, calls))"

definition ReclaimId :: "id32 \<Rightarrow> 'p StaticMeta \<Rightarrow> 'p StaticMeta option" where
  "ReclaimId i M =
    do { (H, calls) \<leftarrow> each_thread (reclaim_body i (GetHandler i M)) (td_store M) (unref_calls M);
         Some (M\<lparr>td_store := H, unref_calls := calls, handler_map := (handler_map M)(i \<mapsto> None),
                 free_instance_ids := push_back 8 i (free_instance_ids M)\<rparr>) }"

text \<open>The loop of \<^verbatim>\<open>OnThreadExit\<close> over the entries of the thread, with the counter \<open>i\<close>.\<close>

fun exit_loop :: "'p StaticMeta \<Rightarrow> id32 \<Rightarrow> 'p option list \<Rightarrow> (nat \<times> 'p) list" where
  "exit_loop M i [] = []"
| "exit_loop M i (e # es) = unref (GetHandler i M) e @ exit_loop M (i + 1) es"

definition OnThreadExit :: "nat \<Rightarrow> nat \<Rightarrow> 'p StaticMeta \<Rightarrow> 'p StaticMeta option" where
  "OnThreadExit tid tls M =
    (let M = M\<lparr>pthread_specific := (pthread_specific M)(tid := None)\<rparr>
     in do { H \<leftarrow> RemoveThreadData tls (td_store M);
             d \<leftarrow> H tls;
             Some (M\<lparr>td_store := H(tls := None),
                     unref_calls := unref_calls M @ exit_loop M 0 (entries d)\<rparr>) })"

text \<open>The exit of a thread: the pthread library calls the destructor of the key if its value is not null.\<close>

definition thread_exit :: "nat \<Rightarrow> 'p StaticMeta \<Rightarrow> 'p StaticMeta option" where
  "thread_exit tid M = (case pthread_specific M tid of None \<Rightarrow> Some M | Some tls \<Rightarrow> OnThreadExit tid tls M)"

section \<open>The objects\<close>

definition new_ThreadLocalPtr :: "nat option \<Rightarrow> 'p StaticMeta \<Rightarrow> (id32 \<times> 'p StaticMeta) option" where
  "new_ThreadLocalPtr handler M =
    do { (i, M) \<leftarrow> GetId M;
         Some (i, case handler of None \<Rightarrow> M | Some h \<Rightarrow> SetHandler i (Some h) M) }"

definition delete_ThreadLocalPtr :: "id32 \<Rightarrow> 'p StaticMeta \<Rightarrow> 'p StaticMeta option" where
  "delete_ThreadLocalPtr i M = ReclaimId i M"

end
