(* ===== verification/ThreadLocalProps.thy ===== *)
theory ThreadLocalProps
  imports ThreadLocal
begin

text \<open>
  The thread-local pointers refine a table of pointers indexed by threads and ids. The first part
  relates the pointers of the ring to the list of the chained objects; the second has the invariant of
  the singleton and the effect of every operation on the table; the third has the properties.
\<close>

section \<open>The ring as a list\<close>

definition link :: "'p td_store \<Rightarrow> nat \<Rightarrow> nat \<Rightarrow> bool" where
  "link H a b \<longleftrightarrow> get_next a H = Some b \<and> get_prev b H = Some a"

definition ring :: "'p td_store \<Rightarrow> nat list \<Rightarrow> bool" where
  "ring H ts \<longleftrightarrow> distinct (head_td # ts) \<and> successively (link H) (head_td # ts @ [head_td])"

definition ents :: "'p td_store \<Rightarrow> nat \<Rightarrow> 'p option list option" where
  "ents H a = map_option entries (H a)"

lemma ents_None [simp]: "ents H a = None \<longleftrightarrow> H a = None"
  by (simp add: ents_def)

lemma set_next_eq:
  assumes "H a \<noteq> None"
  obtains H' where "set_next a b H = Some H'" "\<And>x. get_next x H' = (if x = a then Some b else get_next x H)"
    "\<And>x. get_prev x H' = get_prev x H" "ents H' = ents H"
proof -
  obtain d where d: "H a = Some d" using assms by auto
  show thesis
    by (rule that [of "H(a \<mapsto> d\<lparr>td_next := Some b\<rparr>)"])
      (auto simp: d set_next_def get_next_def get_prev_def ents_def)
qed

lemma set_prev_eq:
  assumes "H a \<noteq> None"
  obtains H' where "set_prev a b H = Some H'" "\<And>x. get_prev x H' = (if x = a then Some b else get_prev x H)"
    "\<And>x. get_next x H' = get_next x H" "ents H' = ents H"
proof -
  obtain d where d: "H a = Some d" using assms by auto
  show thesis
    by (rule that [of "H(a \<mapsto> d\<lparr>td_prev := Some b\<rparr>)"])
      (auto simp: d set_prev_def get_next_def get_prev_def ents_def)
qed

lemma get_in_store: "get_next a H = Some b \<Longrightarrow> H a \<noteq> None" "get_prev a H = Some b \<Longrightarrow> H a \<noteq> None"
  by (auto simp: get_next_def get_prev_def)

lemma ents_in_store: "ents H' = ents H \<Longrightarrow> H' a \<noteq> None \<longleftrightarrow> H a \<noteq> None"
  by (metis ents_None)

lemma successively_weaken:
  assumes "successively P xs"
    and "\<And>a b. a \<in> set (butlast xs) \<Longrightarrow> b \<in> set (tl xs) \<Longrightarrow> P a b \<Longrightarrow> Q a b"
  shows "successively Q xs"
  using assms
proof (induction xs rule: induct_list012)
  case (3 x y zs)
  then show ?case by (auto split: if_splits)
qed simp_all

lemma ring_ends:
  assumes "ring H ts"
  shows "get_next head_td H = Some (hd (ts @ [head_td]))" and "get_prev head_td H = Some (last (head_td # ts))"
proof -
  have l: "successively (link H) (head_td # ts @ [head_td])" using assms by (simp add: ring_def)
  then show "get_next head_td H = Some (hd (ts @ [head_td]))" by (cases ts) (simp_all add: link_def)
  have "successively (link H) ((head_td # ts) @ [head_td])" using l by simp
  then have "link H (last (head_td # ts)) head_td" by (simp only: successively_append_iff) simp
  then show "get_prev head_td H = Some (last (head_td # ts))" by (simp add: link_def)
qed

lemma ring_in_store:
  assumes "ring H ts" and "a \<in> set (head_td # ts)"
  shows "H a \<noteq> None"
proof -
  obtain xs ys where d: "head_td # ts = xs @ a # ys" using assms(2) by (meson split_list)
  have "successively (link H) ((head_td # ts) @ [head_td])" using assms(1) by (simp add: ring_def)
  then have "successively (link H) ((xs @ a # ys) @ [head_td])" by (simp only: d)
  then have "successively (link H) (a # ys @ [head_td])" by (simp add: successively_append_iff)
  then have "link H a (hd (ys @ [head_td]))" by (cases ys) simp_all
  then show ?thesis by (simp add: link_def get_in_store)
qed

lemma AddThreadData_ring:
  assumes "ring H ts" and "H d \<noteq> None" and "d \<notin> set (head_td # ts)"
  obtains H' where "AddThreadData d H = Some H'" "ring H' (ts @ [d])" "ents H' = ents H"
proof -
  define p where "p = last (head_td # ts)"
  have p: "get_prev head_td H = Some p" "H p \<noteq> None" "H head_td \<noteq> None" "p \<in> set (head_td # ts)" "p \<noteq> d"
    using ring_ends [OF assms(1)] ring_in_store [OF assms(1)] assms(3) unfolding p_def
    by (metis last_in_set list.distinct(1) list.set_intros(1))+
  obtain H1 where 1: "set_next d head_td H = Some H1" "\<And>x. get_next x H1 = (if x = d then Some head_td else get_next x H)"
    "\<And>x. get_prev x H1 = get_prev x H" "ents H1 = ents H"
    using set_next_eq [of H d head_td] assms(2) by blast
  obtain H2 where 2: "set_prev d p H1 = Some H2" "\<And>x. get_prev x H2 = (if x = d then Some p else get_prev x H1)"
    "\<And>x. get_next x H2 = get_next x H1" "ents H2 = ents H1"
    using set_prev_eq [of H1 d p] assms(2) ents_in_store [OF 1(4)] by metis
  obtain H3 where 3: "set_next p d H2 = Some H3" "\<And>x. get_next x H3 = (if x = p then Some d else get_next x H2)"
    "\<And>x. get_prev x H3 = get_prev x H2" "ents H3 = ents H2"
    using set_next_eq [of H2 p d] p(2) ents_in_store 1(4) 2(4) by metis
  obtain H4 where 4: "set_prev head_td d H3 = Some H4" "\<And>x. get_prev x H4 = (if x = head_td then Some d else get_prev x H3)"
    "\<And>x. get_next x H4 = get_next x H3" "ents H4 = ents H3"
    using set_prev_eq [of H3 head_td d] p(3) ents_in_store 1(4) 2(4) 3(4) by metis
  have nz: "d \<noteq> head_td" using assms(3) by auto
  have add: "AddThreadData d H = Some H4"
    using p(1) nz by (simp add: AddThreadData_def 1 2 3 4)
  have old: "successively (link H) (head_td # ts)"
    using assms(1) by (metis append_Cons ring_def successively_append_iff)
  have "successively (link H4) (head_td # ts)"
  proof (rule successively_weaken [OF old])
    fix a b assume a: "a \<in> set (butlast (head_td # ts))" and b: "b \<in> set (tl (head_td # ts))" and l: "link H a b"
    have dist: "distinct (head_td # ts)" using assms(1) by (simp add: ring_def)
    then have "distinct (butlast (head_td # ts) @ [p])" unfolding p_def by (metis append_butlast_last_id list.distinct(1))
    then have "a \<noteq> p" using a by auto
    moreover have "b \<noteq> head_td" "b \<noteq> d"
      using b dist assms(3) by (metis distinct.simps(2) list.sel(3) list.set_intros(2))+
    moreover have "a \<noteq> d" using a assms(3) in_set_butlastD by metis
    ultimately show "link H4 a b" using l by (simp add: link_def 1 2 3 4)
  qed
  then have "successively (link H4) ((head_td # ts) @ [d, head_td])"
    unfolding successively_append_iff using nz p(5)
    by (simp add: link_def 1 2 3 4 p_def [symmetric] del: last.simps)
  then have "ring H4 (ts @ [d])" using assms(1,3) by (auto simp: ring_def)
  then show ?thesis using that add 1(4) 2(4) 3(4) 4(4) by simp
qed

lemma RemoveThreadData_ring:
  assumes "ring H (xs @ d # ys)"
  obtains H' where "RemoveThreadData d H = Some H'" "ring H' (xs @ ys)" "ents H' = ents H"
proof -
  define p where "p = last (head_td # xs)"
  define n where "n = hd (ys @ [head_td])"
  have dist: "distinct (head_td # xs @ d # ys)" using assms by (simp add: ring_def)
  have l: "successively (link H) ((head_td # xs) @ d # ys @ [head_td])" using assms by (simp add: ring_def)
  then have l1: "successively (link H) (head_td # xs)" "link H p d" and l2: "successively (link H) (d # ys @ [head_td])"
    unfolding successively_append_iff p_def by simp_all
  then have "link H d n" by (cases ys) (simp_all add: n_def)
  have pn: "p \<in> set (head_td # xs)" "n \<in> set (ys @ [head_td])"
    unfolding p_def n_def by (metis last_in_set list.distinct(1), metis hd_in_set snoc_eq_iff_butlast)
  then have ne: "p \<noteq> d" "n \<noteq> d" using dist by auto
  have st: "H d \<noteq> None" "H p \<noteq> None" "H n \<noteq> None" and g: "get_next d H = Some n" "get_prev d H = Some p"
    using \<open>link H d n\<close> l1(2) get_in_store by (auto simp: link_def)
  obtain H1 where 1: "set_prev n p H = Some H1" "\<And>x. get_prev x H1 = (if x = n then Some p else get_prev x H)"
    "\<And>x. get_next x H1 = get_next x H" "ents H1 = ents H"
    using set_prev_eq [of H n p] st(3) by blast
  obtain H2 where 2: "set_next p n H1 = Some H2" "\<And>x. get_next x H2 = (if x = p then Some n else get_next x H1)"
    "\<And>x. get_prev x H2 = get_prev x H1" "ents H2 = ents H1"
    using set_next_eq [of H1 p n] st ents_in_store [OF 1(4)] by metis
  obtain H3 where 3: "set_prev d d H2 = Some H3" "\<And>x. get_prev x H3 = (if x = d then Some d else get_prev x H2)"
    "\<And>x. get_next x H3 = get_next x H2" "ents H3 = ents H2"
    using set_prev_eq [of H2 d d] st ents_in_store 1(4) 2(4) by metis
  obtain H4 where 4: "set_next d d H3 = Some H4" "\<And>x. get_next x H4 = (if x = d then Some d else get_next x H3)"
    "\<And>x. get_prev x H4 = get_prev x H3" "ents H4 = ents H3"
    using set_next_eq [of H3 d d] st ents_in_store 1(4) 2(4) 3(4) by metis
  have rem: "RemoveThreadData d H = Some H4"
    using g ne by (simp add: RemoveThreadData_def 1 2 3 4)
  have "successively (link H4) (head_td # xs)"
  proof (rule successively_weaken [OF l1(1)])
    fix a b assume a: "a \<in> set (butlast (head_td # xs))" and b: "b \<in> set (tl (head_td # xs))" and l: "link H a b"
    have "distinct (butlast (head_td # xs) @ [p])" using dist unfolding p_def
      by (metis append_butlast_last_id append_Cons distinct_append list.distinct(1))
    then have "a \<noteq> p" using a by auto
    moreover have "b \<noteq> n" "b \<noteq> d" "a \<noteq> d" using b a pn(2) dist by (auto dest: in_set_butlastD split: if_splits)
    ultimately show "link H4 a b" using l by (simp add: link_def 1 2 3 4)
  qed
  moreover have "successively (link H4) (ys @ [head_td])"
  proof (rule successively_weaken)
    show "successively (link H) (ys @ [head_td])" using l2 by (cases ys) simp_all
    fix a b assume a: "a \<in> set (butlast (ys @ [head_td]))" and b: "b \<in> set (tl (ys @ [head_td]))" and l: "link H a b"
    have "a \<in> set ys" using a by simp
    have "distinct (n # tl (ys @ [head_td]))" using dist unfolding n_def by (cases ys) auto
    then have "b \<noteq> n" using b by auto
    moreover have "b \<in> set (ys @ [head_td])" using b by (cases ys) auto
    then have "a \<noteq> p" "a \<noteq> d" "b \<noteq> d" using \<open>a \<in> set ys\<close> pn(1) dist by auto
    ultimately show "link H4 a b" using l by (simp add: link_def 1 2 3 4)
  qed
  ultimately have "successively (link H4) ((head_td # xs) @ (ys @ [head_td]))"
    unfolding successively_append_iff using ne
    by (simp add: link_def 1 2 3 4 p_def [symmetric] n_def [symmetric] del: last.simps)
  then have "ring H4 (xs @ ys)" using dist by (auto simp: ring_def)
  then show ?thesis using that rem 1(4) 2(4) 3(4) 4(4) by simp
qed

lemma ring_cong:
  assumes "ring H ts" and "\<And>x. get_next x H' = get_next x H" and "\<And>x. get_prev x H' = get_prev x H"
  shows "ring H' ts"
  using assms by (simp add: ring_def link_def [abs_def])

lemma set_entries_get:
  fixes es :: "'p option list"
  assumes "H t = Some d"
  defines "H' \<equiv> H(t \<mapsto> d\<lparr>entries := es\<rparr>)"
  shows "get_next x H' = get_next x H" "get_prev x H' = get_prev x H" "ents H' = (ents H)(t \<mapsto> es)"
  using assms by (auto simp: get_next_def get_prev_def ents_def)

text \<open>A loop over the ring treats the chained objects in order; the change that the body makes to the
  entries does not depend on the accumulator.\<close>

lemma ring_loop_eq:
  fixes body :: "'p option list \<Rightarrow> 'a \<Rightarrow> 'p option list \<times> 'a"
  assumes g: "\<And>es a. fst (body es a) = g es" and "ring H (xs @ ys)"
  shows "\<exists>H'. ring_loop body (hd (ys @ [head_td])) H acc =
           Some (H', fold (\<lambda>t a. snd (body (the (ents H t)) a)) ys acc) \<and>
         ring H' (xs @ ys) \<and>
         ents H' = (\<lambda>x. if x \<in> set ys then map_option g (ents H x) else ents H x)"
  using assms(2)
proof (induction ys arbitrary: xs H acc)
  case Nil
  then show ?case by (subst ring_loop.simps) simp
next
  case (Cons t ys)
  have t: "t \<noteq> head_td" "t \<notin> set ys" using Cons.prems by (auto simp: ring_def)
  obtain d where d: "H t = Some d" using ring_in_store [OF Cons.prems, of t] by auto
  define H1 where "H1 = H(t \<mapsto> d\<lparr>entries := g (entries d)\<rparr>)"
  note H1 = set_entries_get [where H = H and t = t and es = "g (entries d)", OF d, folded H1_def]
  have r1: "ring H1 ((xs @ [t]) @ ys)" using ring_cong [OF Cons.prems H1(1,2)] by simp
  have n: "get_next t H1 = Some (hd (ys @ [head_td]))"
  proof -
    have "successively (link H1) ((head_td # xs) @ t # ys @ [head_td])" using r1 by (simp add: ring_def)
    then have "successively (link H1) (t # ys @ [head_td])" unfolding successively_append_iff by blast
    then show ?thesis by (cases ys) (simp_all add: link_def)
  qed
  have e: "the (ents H t) = entries d" by (simp add: ents_def d)
  have eq: "fold (\<lambda>t a. snd (body (the (ents H1 t)) a)) ys a = fold (\<lambda>t a. snd (body (the (ents H t)) a)) ys a" for a
    by (rule fold_cong) (use t(2) H1(3) in auto)
  have "ring_loop body t H acc = ring_loop body (hd (ys @ [head_td])) H1 (snd (body (entries d) acc))"
    using t(1) d n g [of "entries d" acc]
    by (subst ring_loop.simps) (simp add: H1_def case_prod_beta)
  moreover have "(\<lambda>x. if x \<in> set ys then map_option g (ents H1 x) else ents H1 x) =
      (\<lambda>x. if x \<in> set (t # ys) then map_option g (ents H x) else ents H x)"
    using t(2) by (auto simp: H1(3) ents_def d)
  ultimately show ?case
    using Cons.IH [OF r1, of "snd (body (entries d) acc)"] unfolding eq by (simp add: e)
qed

lemma each_thread_eq:
  assumes "\<And>es a. fst (body es a) = g es" and "ring H ts"
  obtains H' where "each_thread body H acc = Some (H', fold (\<lambda>t a. snd (body (the (ents H t)) a)) ts acc)"
    "ring H' ts" "ents H' = (\<lambda>x. if x \<in> set ts then map_option g (ents H x) else ents H x)"
proof -
  from assms(2) have "ring H ([] @ ts)" by simp
  with ring_loop_eq [where body = body and g = g and xs = "[]" and ys = ts and acc = acc and H = H] assms(1)
  obtain H' where "ring_loop body (hd (ts @ [head_td])) H acc = Some (H', fold (\<lambda>t a. snd (body (the (ents H t)) a)) ts acc)"
    "ring H' ts" "ents H' = (\<lambda>x. if x \<in> set ts then map_option g (ents H x) else ents H x)"
    by auto
  then show thesis using that ring_ends(1) [OF assms(2)] by (simp add: each_thread_def)
qed

section \<open>The table of pointers\<close>

text \<open>The pointer that a thread has for an id, and the ids of existing objects.\<close>

definition entry_at :: "'p option list option \<Rightarrow> id32 \<Rightarrow> 'p option" where
  "entry_at o_es i = (case o_es of None \<Rightarrow> None | Some es \<Rightarrow> if unat i < length es then es ! unat i else None)"

definition tls_val :: "'p StaticMeta \<Rightarrow> nat \<Rightarrow> id32 \<Rightarrow> 'p option" where
  "tls_val M tid i = (case pthread_specific M tid of None \<Rightarrow> None | Some a \<Rightarrow> entry_at (ents (td_store M) a) i)"

lemma tls_val_cong:
  "pthread_specific M' = pthread_specific M \<Longrightarrow> td_store M' = td_store M \<Longrightarrow> tls_val M' = tls_val M"
  by (intro ext) (simp add: tls_val_def cong: option.case_cong)

definition live_ids :: "'p StaticMeta \<Rightarrow> id32 set" where
  "live_ids M = {i. i < next_instance_id M} - set (av_list (free_instance_ids M))"

definition ring_inv :: "'p StaticMeta \<Rightarrow> nat list \<Rightarrow> bool" where
  "ring_inv M ts \<longleftrightarrow> ring (td_store M) ts \<and> (\<forall>a. td_store M a \<noteq> None \<longrightarrow> a \<in> set (head_td # ts)) \<and>
    (\<forall>a \<in> set (head_td # ts). a < next_td M) \<and>
    (\<forall>a. a \<in> set ts \<longleftrightarrow> (\<exists>tid. pthread_specific M tid = Some a)) \<and>
    (\<forall>tid tid' a. pthread_specific M tid = Some a \<longrightarrow> pthread_specific M tid' = Some a \<longrightarrow> tid = tid') \<and>
    (\<forall>a \<in> set ts. \<forall>es. ents (td_store M) a = Some es \<longrightarrow> length es \<le> unat (next_instance_id M))"

lemma ring_invD:
  assumes "ring_inv M ts"
  shows "ring (td_store M) ts" "td_store M a \<noteq> None \<Longrightarrow> a \<in> set (head_td # ts)"
    "a \<in> set (head_td # ts) \<Longrightarrow> a < next_td M" "a \<in> set ts \<longleftrightarrow> (\<exists>tid. pthread_specific M tid = Some a)"
    "pthread_specific M tid = Some a \<Longrightarrow> pthread_specific M tid' = Some a \<Longrightarrow> tid = tid'"
    "a \<in> set ts \<Longrightarrow> ents (td_store M) a = Some es \<Longrightarrow> length es \<le> unat (next_instance_id M)"
  using assms unfolding ring_inv_def by blast+

lemma ring_inv_cong:
  "td_store M' = td_store M \<Longrightarrow> next_td M' = next_td M \<Longrightarrow> pthread_specific M' = pthread_specific M \<Longrightarrow>
   next_instance_id M' = next_instance_id M \<Longrightarrow> ring_inv M' ts = ring_inv M ts"
  by (simp add: ring_inv_def)

lemma ring_inv_grow:
  "ring_inv M ts \<Longrightarrow> unat (next_instance_id M) \<le> unat n \<Longrightarrow> ring_inv (M\<lparr>next_instance_id := n\<rparr>) ts"
  unfolding ring_inv_def by (simp, blast intro: le_trans)

definition ids_inv :: "'p StaticMeta \<Rightarrow> bool" where
  "ids_inv M \<longleftrightarrow> av_inv 8 (free_instance_ids M) \<and> distinct (av_list (free_instance_ids M)) \<and>
    (\<forall>i \<in> set (av_list (free_instance_ids M)). i < next_instance_id M) \<and>
    (\<forall>tid i. tls_val M tid i \<noteq> None \<longrightarrow> i \<in> live_ids M) \<and>
    (\<forall>i. i \<notin> live_ids M \<longrightarrow> GetHandler i M = None)"

definition tls_inv :: "'p StaticMeta \<Rightarrow> bool" where
  "tls_inv M \<longleftrightarrow> (\<exists>ts. ring_inv M ts) \<and> ids_inv M"

text \<open>What the operations on pointers leave alone.\<close>

definition same_ids :: "'p StaticMeta \<Rightarrow> 'p StaticMeta \<Rightarrow> bool" where
  "same_ids M M' \<longleftrightarrow> next_instance_id M' = next_instance_id M \<and> free_instance_ids M' = free_instance_ids M \<and>
     handler_map M' = handler_map M"

lemma same_ids_live: "same_ids M M' \<Longrightarrow> live_ids M' = live_ids M \<and> GetHandler i M' = GetHandler i M"
  by (simp add: same_ids_def live_ids_def GetHandler_def)

lemma ids_inv_mono:
  assumes "ids_inv M" and "same_ids M M'" and "\<And>tid i. tls_val M' tid i \<noteq> None \<Longrightarrow> i \<in> live_ids M"
  shows "ids_inv M'"
  using assms same_ids_live [OF assms(2)] by (auto simp: ids_inv_def same_ids_def)

lemma tls_inv_new: "tls_inv new_StaticMeta"
proof -
  have "ring_inv new_StaticMeta []"
    by (auto simp: ring_inv_def ring_def link_def new_StaticMeta_def get_next_def get_prev_def new_ThreadData_def)
  moreover have "ids_inv new_StaticMeta"
    using av_new [of "replicate 8 (0 :: id32)" 8]
    by (auto simp: ids_inv_def new_StaticMeta_def tls_val_def live_ids_def GetHandler_def)
  ultimately show ?thesis unfolding tls_inv_def by blast
qed

lemma GetThreadLocal_new:
  assumes inv: "ring_inv M ts" and none: "pthread_specific M tid = None"
  obtains M' where "GetThreadLocal tid M = Some (next_td M, M')" "ring_inv M' (ts @ [next_td M])"
    "pthread_specific M' tid = Some (next_td M)" "tls_val M' = tls_val M" "same_ids M M'" "unref_calls M' = unref_calls M"
proof -
  let ?t = "next_td M"
  let ?H0 = "(td_store M)(?t \<mapsto> new_ThreadData)"
  have fresh: "?t \<notin> set (head_td # ts)" using inv by (auto simp: ring_inv_def)
  then have "td_store M ?t = None" using inv by (auto simp: ring_inv_def)
  moreover have "ring (td_store M) ts" using inv by (simp add: ring_inv_def)
  ultimately have "ring ?H0 ts"
    by (elim ring_cong) (auto simp: get_next_def get_prev_def new_ThreadData_def)
  then obtain H where H: "AddThreadData ?t ?H0 = Some H" "ring H (ts @ [?t])" "ents H = ents ?H0"
    using AddThreadData_ring [of ?H0 ts ?t] fresh by auto
  define M' where "M' = M\<lparr>td_store := H, next_td := ?t + 1, pthread_specific := (pthread_specific M)(tid \<mapsto> ?t)\<rparr>"
  have e: "ents H = (ents (td_store M))(?t \<mapsto> [])" unfolding H(3) by (auto simp: ents_def new_ThreadData_def)
  have inj: "t = t'" if "pthread_specific M t = Some a" "pthread_specific M t' = Some a" for t t' a
    using inv that unfolding ring_inv_def by blast
  have ne: "a \<noteq> ?t" if "pthread_specific M t = Some a" for t a
    using inv fresh that unfolding ring_inv_def by (metis list.set_intros(2))
  have val: "tls_val M' = tls_val M"
  proof (intro ext)
    fix t i
    show "tls_val M' t i = tls_val M t i"
      using none ne [of t] by (auto simp: tls_val_def M'_def e entry_at_def split: option.splits)
  qed
  have dom: "H a \<noteq> None \<Longrightarrow> a \<in> set (head_td # ts @ [?t])" for a
  proof -
    assume "H a \<noteq> None"
    then have "a = ?t \<or> td_store M a \<noteq> None" using ents_in_store [OF H(3), of a] by (auto split: if_splits)
    then show ?thesis using ring_invD(2) [OF inv, of a] by auto
  qed
  have "ring_inv M' (ts @ [?t])"
    unfolding ring_inv_def
  proof (intro conjI)
    show "\<forall>t t' a. pthread_specific M' t = Some a \<longrightarrow> pthread_specific M' t' = Some a \<longrightarrow> t = t'"
      by (auto simp: M'_def dest: inj ne split: if_splits)
    show "\<forall>a. (a \<in> set (ts @ [?t])) = (\<exists>t. pthread_specific M' t = Some a)"
    proof (intro allI)
      fix a
      have "a \<in> set ts \<longleftrightarrow> (\<exists>t. pthread_specific M t = Some a)" using inv by (simp add: ring_inv_def)
      also have "\<dots> \<longleftrightarrow> (\<exists>t. t \<noteq> tid \<and> pthread_specific M t = Some a)" using none by (metis option.distinct(1))
      finally show "(a \<in> set (ts @ [?t])) = (\<exists>t. pthread_specific M' t = Some a)" by (auto simp: M'_def)
    qed
    show "\<forall>a. td_store M' a \<noteq> None \<longrightarrow> a \<in> set (head_td # ts @ [?t])" using dom by (simp add: M'_def)
    show "\<forall>a \<in> set (head_td # ts @ [?t]). a < next_td M'" using inv by (auto simp: ring_inv_def M'_def less_Suc_eq)
    show "\<forall>a \<in> set (ts @ [?t]). \<forall>es. ents (td_store M') a = Some es \<longrightarrow> length es \<le> unat (next_instance_id M')"
      using inv by (auto simp: ring_inv_def M'_def e)
  qed (use H(2) in \<open>simp add: M'_def\<close>)
  moreover have "GetThreadLocal tid M = Some (?t, M')" using H(1) none by (simp add: GetThreadLocal_def M'_def Let_def)
  ultimately show thesis using that val by (simp add: M'_def same_ids_def)
qed

lemma GetThreadLocal_eq:
  assumes "tls_inv M"
  obtains a M' where "GetThreadLocal tid M = Some (a, M')" "tls_inv M'" "pthread_specific M' tid = Some a"
    "tls_val M' = tls_val M" "same_ids M M'" "unref_calls M' = unref_calls M"
proof (cases "pthread_specific M tid")
  case None
  obtain ts where "ring_inv M ts" and ids: "ids_inv M" using assms by (auto simp: tls_inv_def)
  then obtain M' where M': "GetThreadLocal tid M = Some (next_td M, M')" "ring_inv M' (ts @ [next_td M])"
    "pthread_specific M' tid = Some (next_td M)" "tls_val M' = tls_val M" "same_ids M M'" "unref_calls M' = unref_calls M"
    using GetThreadLocal_new None by blast
  have "ids_inv M'" using ids_inv_mono [OF ids M'(5)] ids by (simp add: M'(4) ids_inv_def)
  then show thesis using that M' unfolding tls_inv_def by blast
qed (use assms that in \<open>simp add: GetThreadLocal_def same_ids_def\<close>)

lemma Meta_Get_eq:
  assumes "tls_inv M"
  obtains M' where "Meta_Get tid i M = Some (tls_val M tid i, M')" "tls_inv M'" "tls_val M' = tls_val M"
    "same_ids M M'" "unref_calls M' = unref_calls M"
proof -
  obtain a M' where M': "GetThreadLocal tid M = Some (a, M')" "tls_inv M'" "pthread_specific M' tid = Some a"
    "tls_val M' = tls_val M" "same_ids M M'" "unref_calls M' = unref_calls M"
    using GetThreadLocal_eq [OF assms] by blast
  obtain ts where ts: "ring_inv M' ts" using M'(2) by (auto simp: tls_inv_def)
  then have "a \<in> set ts" using M'(3) by (auto simp: ring_inv_def)
  then obtain d where d: "td_store M' a = Some d"
    using ts ring_in_store [of "td_store M'" ts a] by (auto simp: ring_inv_def)
  have "tls_val M tid i = (if length (entries d) \<le> unat i then None else entries d ! unat i)"
    unfolding M'(4) [symmetric] by (auto simp: tls_val_def M'(3) ents_def d entry_at_def)
  then show thesis using that M' d by (simp add: Meta_Get_def)
qed

lemma nth_vector_resize_None:
  "length xs \<le> j \<Longrightarrow> k \<le> j \<Longrightarrow> vector_resize None (Suc j) xs ! k = (if k < length xs then xs ! k else None)"
  by (auto simp: vector_resize_def nth_append)

lemma exchange_entry_eq:
  assumes inv: "tls_inv M" and i: "i \<in> live_ids M"
  obtains M' where "exchange_entry tid i f M = Some (tls_val M tid i, M')" "tls_inv M'"
    "tls_val M' = (tls_val M)(tid := (tls_val M tid)(i := f (tls_val M tid i)))"
    "same_ids M M'" "unref_calls M' = unref_calls M"
proof -
  obtain a M1 where M1: "GetThreadLocal tid M = Some (a, M1)" "tls_inv M1" "pthread_specific M1 tid = Some a"
    "tls_val M1 = tls_val M" "same_ids M M1" "unref_calls M1 = unref_calls M"
    using GetThreadLocal_eq [OF inv] by blast
  obtain ts where ts: "ring_inv M1 ts" and ids: "ids_inv M1" using M1(2) by (auto simp: tls_inv_def)
  have a: "a \<in> set ts" using ts M1(3) by (auto simp: ring_inv_def)
  then obtain d where d: "td_store M1 a = Some d" using ts ring_in_store [of "td_store M1" ts a] by (auto simp: ring_inv_def)
  have lt: "unat i < unat (next_instance_id M1)"
    using i M1(5) by (auto simp: live_ids_def same_ids_def word_less_nat_alt)
  then have i1: "unat (i + 1) = Suc (unat i)"
    using unsigned_less [where ?'a = nat, of "next_instance_id M1"] by (simp add: unat_word_ariths)
  define es where "es = (if length (entries d) \<le> unat i then vector_resize None (unat (i + 1)) (entries d) else entries d)"
  have es: "unat i < length es" "length es \<le> unat (next_instance_id M1)"
    "\<And>j. entry_at (Some es) j = entry_at (Some (entries d)) j"
  proof -
    have "length (entries d) \<le> unat (next_instance_id M1)" using ts a d by (auto simp: ring_inv_def ents_def)
    then show "unat i < length es" "length es \<le> unat (next_instance_id M1)"
      using lt by (auto simp: es_def i1 vector_resize_def)
    show "entry_at (Some es) j = entry_at (Some (entries d)) j" for j
      by (auto simp: entry_at_def es_def i1 nth_vector_resize_None) (auto simp: vector_resize_def nth_append)
  qed
  have v: "tls_val M tid j = entry_at (Some es) j" for j
    unfolding M1(4) [symmetric] es(3) by (simp add: tls_val_def M1(3) ents_def d)
  define es' where "es' = es[unat i := f (es ! unat i)]"
  define M' where "M' = M1\<lparr>td_store := (td_store M1)(a \<mapsto> d\<lparr>entries := es'\<rparr>)\<rparr>"
  note g = set_entries_get [where H = "td_store M1" and t = a and es = es', OF d]
  have ring: "ring_inv M' ts"
    unfolding ring_inv_def
  proof (intro conjI)
    show "ring (td_store M') ts" using ring_cong [OF ring_invD(1) [OF ts] g(1,2)] by (simp add: M'_def)
    show "\<forall>b. td_store M' b \<noteq> None \<longrightarrow> b \<in> set (head_td # ts)"
      using a ring_invD(2) [OF ts] by (simp add: M'_def)
    show "\<forall>b \<in> set ts. \<forall>x. ents (td_store M') b = Some x \<longrightarrow> length x \<le> unat (next_instance_id M')"
      using ring_invD(6) [OF ts] es(2) g(3) by (auto simp: M'_def es'_def)
  qed (use ts in \<open>simp_all add: M'_def ring_inv_def\<close>)
  have val: "tls_val M' = (tls_val M)(tid := (tls_val M tid)(i := f (tls_val M tid i)))"
  proof (intro ext)
    fix t j
    have "b \<noteq> a" if "pthread_specific M1 t = Some b" "t \<noteq> tid" for b
      using ts M1(3) that by (auto simp: ring_inv_def)
    moreover have "entry_at (Some es') j = ((tls_val M tid)(i := f (tls_val M tid i))) j"
      using es(1) v by (auto simp: entry_at_def es'_def nth_list_update word_unat_eq_iff)
    ultimately show "tls_val M' t j = ((tls_val M)(tid := (tls_val M tid)(i := f (tls_val M tid i)))) t j"
      using M1(3) fun_cong [OF fun_cong [OF M1(4), of t], of j]
      by (auto simp: tls_val_def M'_def g(3) split: option.splits)
  qed
  have same: "same_ids M M'" using M1(5) by (simp add: same_ids_def M'_def)
  have idM: "ids_inv M" using inv by (simp add: tls_inv_def)
  have "ids_inv M'"
    by (rule ids_inv_mono [OF idM same]) (use idM i in \<open>auto simp: val ids_inv_def split: if_splits\<close>)
  then show thesis
    using that [of M'] ring val same M1(1,6) d v [of i] es(1)
    by (auto simp: exchange_entry_def es_def [symmetric] M'_def es'_def tls_inv_def entry_at_def Let_def)
qed

section \<open>Operations on the pointers of all threads\<close>

definition has_entry :: "'p StaticMeta \<Rightarrow> nat \<Rightarrow> id32 \<Rightarrow> bool" where
  "has_entry M tid i \<longleftrightarrow>
    (\<exists>a es. pthread_specific M tid = Some a \<and> ents (td_store M) a = Some es \<and> unat i < length es)"

lemma tls_val_has_entry: "tls_val M tid i \<noteq> None \<Longrightarrow> has_entry M tid i"
  by (auto simp: tls_val_def has_entry_def entry_at_def split: option.splits if_splits)

lemma ring_threads:
  assumes "ring_inv M ts"
  obtains tids where "map (pthread_specific M) tids = map Some ts" "distinct tids"
    "\<And>tid. pthread_specific M tid \<noteq> None \<longleftrightarrow> tid \<in> set tids"
proof -
  have "\<forall>a \<in> set ts. \<exists>tid. pthread_specific M tid = Some a" using ring_invD(4) [OF assms] by blast
  then obtain owner where ow: "\<And>a. a \<in> set ts \<Longrightarrow> pthread_specific M (owner a) = Some a" by metis
  have "distinct ts" using ring_invD(1) [OF assms] by (simp add: ring_def)
  moreover have "inj_on owner (set ts)" by (rule inj_onI) (metis ow option.inject)
  ultimately have "distinct (map owner ts)" by (simp add: distinct_map)
  moreover have "pthread_specific M tid \<noteq> None \<longleftrightarrow> tid \<in> set (map owner ts)" for tid
  proof
    assume "pthread_specific M tid \<noteq> None"
    then obtain a where a: "pthread_specific M tid = Some a" by auto
    then have "a \<in> set ts" using ring_invD(4) [OF assms] by blast
    then have "tid = owner a" using ring_invD(5) [OF assms a] ow by blast
    then show "tid \<in> set (map owner ts)" using \<open>a \<in> set ts\<close> by simp
  qed (use ow in auto)
  moreover have "map (pthread_specific M) (map owner ts) = map Some ts" using ow by simp
  ultimately show thesis using that by blast
qed

lemma fold_skip: "(\<And>a. step None a = a) \<Longrightarrow> fold (\<lambda>t. step (v t)) ts acc = fold (\<lambda>t. step (v t)) (filter (\<lambda>t. v t \<noteq> None) ts) acc"
  by (induction ts arbitrary: acc) auto

lemma each_thread_table:
  fixes body :: "'p option list \<Rightarrow> 'a \<Rightarrow> 'p option list \<times> 'a"
  assumes inv: "ring_inv M ts"
    and body: "\<And>es a. body es a =
      (if unat i < length es then (es[unat i := r (es ! unat i)], step (es ! unat i) a) else (es, a))"
    and skip: "\<And>a. step None a = a"
  obtains H' tids where
    "each_thread body (td_store M) acc = Some (H', fold (\<lambda>tid. step (tls_val M tid i)) tids acc)"
    "distinct tids" "\<And>tid. tid \<in> set tids \<longleftrightarrow> tls_val M tid i \<noteq> None"
    "ring_inv (M\<lparr>td_store := H'\<rparr>) ts"
    "\<And>t j. tls_val (M\<lparr>td_store := H'\<rparr>) t j =
       (if j = i \<and> has_entry M t i then r (tls_val M t i) else tls_val M t j)"
proof -
  let ?H = "td_store M"
  define g where "g = (\<lambda>es. if unat i < length es then es[unat i := r (es ! unat i)] else es)"
  obtain H' where H': "each_thread body ?H acc = Some (H', fold (\<lambda>t a. snd (body (the (ents ?H t)) a)) ts acc)"
    "ring H' ts" and e: "ents H' = (\<lambda>x. if x \<in> set ts then map_option g (ents ?H x) else ents ?H x)"
    by (rule each_thread_eq [where body = body and g = g and acc = acc, OF _ ring_invD(1) [OF inv]])
      (simp add: g_def body)
  obtain tids where tids: "map (pthread_specific M) tids = map Some ts" "distinct tids"
    "\<And>tid. pthread_specific M tid \<noteq> None \<longleftrightarrow> tid \<in> set tids"
    using ring_threads [OF inv] by blast
  have vals: "map (\<lambda>t. entry_at (ents ?H t) i) ts = map (\<lambda>tid. tls_val M tid i) tids"
    using tids(1) by (auto simp: list_eq_iff_nth_eq tls_val_def dest!: map_eq_imp_length_eq)
  have "fold (\<lambda>t a. snd (body (the (ents ?H t)) a)) ts acc = fold (\<lambda>t. step (entry_at (ents ?H t) i)) ts acc"
  proof (rule fold_cong)
    fix t assume "t \<in> set ts"
    then obtain es where "ents ?H t = Some es" using ring_in_store [OF ring_invD(1) [OF inv], of t] by (auto simp: ents_def)
    then show "(\<lambda>a. snd (body (the (ents ?H t)) a)) = step (entry_at (ents ?H t) i)"
      using skip by (auto simp: body entry_at_def)
  qed simp_all
  also have "\<dots> = fold step (map (\<lambda>tid. tls_val M tid i) tids) acc" unfolding vals [symmetric] by (simp add: fold_map comp_def)
  also have "\<dots> = fold (\<lambda>tid. step (tls_val M tid i)) (filter (\<lambda>tid. tls_val M tid i \<noteq> None) tids) acc"
    using fold_skip [of step "\<lambda>tid. tls_val M tid i" tids acc, OF skip] by (simp add: fold_map comp_def)
  finally have 1: "each_thread body ?H acc =
      Some (H', fold (\<lambda>tid. step (tls_val M tid i)) (filter (\<lambda>tid. tls_val M tid i \<noteq> None) tids) acc)"
    using H'(1) by simp
  have 2: "tid \<in> set (filter (\<lambda>tid. tls_val M tid i \<noteq> None) tids) \<longleftrightarrow> tls_val M tid i \<noteq> None" for tid
    using tids(3) [of tid] by (auto simp: tls_val_def split: option.splits)
  have 3: "ring_inv (M\<lparr>td_store := H'\<rparr>) ts"
    unfolding ring_inv_def
  proof (intro conjI)
    show "\<forall>a. td_store (M\<lparr>td_store := H'\<rparr>) a \<noteq> None \<longrightarrow> a \<in> set (head_td # ts)"
    proof (intro allI impI)
      fix a assume "td_store (M\<lparr>td_store := H'\<rparr>) a \<noteq> None"
      then have "ents H' a \<noteq> None" by simp
      then have "ents ?H a \<noteq> None" by (auto simp: e simp del: ents_None split: if_splits)
      then show "a \<in> set (head_td # ts)" using ring_invD(2) [OF inv] by simp
    qed
    show "\<forall>a \<in> set ts. \<forall>es. ents (td_store (M\<lparr>td_store := H'\<rparr>)) a = Some es \<longrightarrow>
        length es \<le> unat (next_instance_id (M\<lparr>td_store := H'\<rparr>))"
      using ring_invD(6) [OF inv] by (auto simp: e g_def)
  qed (use inv H'(2) in \<open>simp_all add: ring_inv_def\<close>)
  have 4: "tls_val (M\<lparr>td_store := H'\<rparr>) t j = (if j = i \<and> has_entry M t i then r (tls_val M t i) else tls_val M t j)" for t j
  proof (cases "pthread_specific M t")
    case (Some a)
    then have "a \<in> set ts" using ring_invD(4) [OF inv] by blast
    moreover obtain es where "ents ?H a = Some es"
      using ring_in_store [OF ring_invD(1) [OF inv], of a] \<open>a \<in> set ts\<close> by (auto simp: ents_def)
    ultimately show ?thesis
      using Some by (auto simp: tls_val_def has_entry_def e entry_at_def g_def word_unat_eq_iff nth_list_update)
  qed (simp add: tls_val_def has_entry_def)
  show thesis by (rule that [OF 1 _ 2 3 4]) (use tids(2) in simp)
qed

lemma Meta_Scrape_eq:
  assumes inv: "tls_inv M" and i: "i \<in> live_ids M"
  obtains M' tids where "Meta_Scrape i ptrs rep M = Some (ptrs @ map (\<lambda>tid. the (tls_val M tid i)) tids, M')"
    "distinct tids" "\<And>tid. tid \<in> set tids \<longleftrightarrow> tls_val M tid i \<noteq> None" "tls_inv M'"
    "\<And>t j. tls_val M' t j = (if j = i \<and> has_entry M t i then rep else tls_val M t j)"
    "same_ids M M'" "unref_calls M' = unref_calls M"
proof -
  let ?step = "\<lambda>v (a :: 'a list). case v of None \<Rightarrow> a | Some p \<Rightarrow> a @ [p]"
  obtain ts where ts: "ring_inv M ts" and ids: "ids_inv M" using inv by (auto simp: tls_inv_def)
  obtain H' tids where H': "each_thread (scrape_body i rep) (td_store M) ptrs =
      Some (H', fold (\<lambda>tid. ?step (tls_val M tid i)) tids ptrs)"
    "distinct tids" "\<And>tid. tid \<in> set tids \<longleftrightarrow> tls_val M tid i \<noteq> None" "ring_inv (M\<lparr>td_store := H'\<rparr>) ts"
    "\<And>t j. tls_val (M\<lparr>td_store := H'\<rparr>) t j = (if j = i \<and> has_entry M t i then rep else tls_val M t j)"
    by (rule each_thread_table [OF ts, where body = "scrape_body i rep" and i = i and r = "\<lambda>_. rep" and step = ?step and acc = ptrs])
      (auto simp: scrape_body_def)
  have "fold (\<lambda>tid. ?step (tls_val M tid i)) xs a = a @ map (\<lambda>tid. the (tls_val M tid i)) xs" if "set xs \<subseteq> set tids" for xs a
    using that by (induction xs arbitrary: a) (auto simp: H'(3))
  then have 1: "Meta_Scrape i ptrs rep M = Some (ptrs @ map (\<lambda>tid. the (tls_val M tid i)) tids, M\<lparr>td_store := H'\<rparr>)"
    using H'(1) by (simp add: Meta_Scrape_def)
  have same: "same_ids M (M\<lparr>td_store := H'\<rparr>)" by (simp add: same_ids_def)
  have "ids_inv (M\<lparr>td_store := H'\<rparr>)"
    by (rule ids_inv_mono [OF ids same]) (use ids i H'(5) in \<open>auto simp: ids_inv_def split: if_splits\<close>)
  then show thesis using that [OF 1 H'(2,3) _ H'(5) same] H'(4) by (auto simp: tls_inv_def)
qed

lemma Meta_Fold_eq:
  assumes "tls_inv M"
  obtains tids where "Meta_Fold i func res M = Some (fold func (map (\<lambda>tid. the (tls_val M tid i)) tids) res)"
    "distinct tids" "\<And>tid. tid \<in> set tids \<longleftrightarrow> tls_val M tid i \<noteq> None"
proof -
  let ?step = "\<lambda>v a. case v of None \<Rightarrow> a | Some p \<Rightarrow> func p a"
  obtain ts where ts: "ring_inv M ts" using assms by (auto simp: tls_inv_def)
  obtain H' tids where H': "each_thread (fold_body i func) (td_store M) res =
      Some (H', fold (\<lambda>tid. ?step (tls_val M tid i)) tids res)"
    "distinct tids" "\<And>tid. tid \<in> set tids \<longleftrightarrow> tls_val M tid i \<noteq> None"
    by (rule each_thread_table [OF ts, where body = "fold_body i func" and i = i and r = "\<lambda>x. x" and step = ?step and acc = res])
      (auto simp: fold_body_def)
  have "fold (\<lambda>tid. ?step (tls_val M tid i)) xs a = fold func (map (\<lambda>tid. the (tls_val M tid i)) xs) a"
    if "set xs \<subseteq> set tids" for xs a
    using that by (induction xs arbitrary: a) (auto simp: H'(3))
  then show thesis using that H' by (simp add: Meta_Fold_def)
qed

lemma ReclaimId_eq:
  assumes inv: "tls_inv M" and i: "i \<in> live_ids M"
  obtains M' tids where "ReclaimId i M = Some M'"
    "unref_calls M' = unref_calls M @
       (case GetHandler i M of None \<Rightarrow> [] | Some h \<Rightarrow> map (\<lambda>tid. (h, the (tls_val M tid i))) tids)"
    "distinct tids" "\<And>tid. tid \<in> set tids \<longleftrightarrow> tls_val M tid i \<noteq> None" "tls_inv M'"
    "live_ids M' = live_ids M - {i}" "\<And>t j. tls_val M' t j = (if j = i then None else tls_val M t j)"
    "\<And>j. GetHandler j M' = (if j = i then None else GetHandler j M)"
    "next_instance_id M' = next_instance_id M"
proof -
  let ?h = "GetHandler i M"
  let ?step = "\<lambda>v a. a @ unref ?h v"
  obtain ts where ts: "ring_inv M ts" and ids: "ids_inv M" using inv by (auto simp: tls_inv_def)
  obtain H' tids where H': "each_thread (reclaim_body i ?h) (td_store M) (unref_calls M) =
      Some (H', fold (\<lambda>tid. ?step (tls_val M tid i)) tids (unref_calls M))"
    "distinct tids" "\<And>tid. tid \<in> set tids \<longleftrightarrow> tls_val M tid i \<noteq> None" "ring_inv (M\<lparr>td_store := H'\<rparr>) ts"
    "\<And>t j. tls_val (M\<lparr>td_store := H'\<rparr>) t j = (if j = i \<and> has_entry M t i then None else tls_val M t j)"
    by (rule each_thread_table [OF ts, where body = "reclaim_body i ?h" and i = i and r = "\<lambda>_. None" and step = ?step
          and acc = "unref_calls M"]) (auto simp: reclaim_body_def unref_def split: option.splits)
  have calls: "fold (\<lambda>tid. ?step (tls_val M tid i)) xs a =
      a @ (case ?h of None \<Rightarrow> [] | Some h \<Rightarrow> map (\<lambda>tid. (h, the (tls_val M tid i))) xs)" if "set xs \<subseteq> set tids" for xs a
    using that by (induction xs arbitrary: a) (auto simp: H'(3) unref_def split: option.splits)
  define M' where "M' = M\<lparr>td_store := H', unref_calls := fold (\<lambda>tid. ?step (tls_val M tid i)) tids (unref_calls M),
    handler_map := (handler_map M)(i \<mapsto> None), free_instance_ids := push_back 8 i (free_instance_ids M)\<rparr>"
  have "av_inv 8 (free_instance_ids M)" using ids by (simp add: ids_inv_def)
  note push = av.push [OF this, of i]
  have live: "live_ids M' = live_ids M - {i}" using push i by (auto simp: M'_def live_ids_def)
  have val: "tls_val M' t j = (if j = i then None else tls_val M t j)" for t j
  proof -
    have "tls_val M' t j = tls_val (M\<lparr>td_store := H'\<rparr>) t j"
      using tls_val_cong [of M' "M\<lparr>td_store := H'\<rparr>"] by (simp add: M'_def)
    then show ?thesis using H'(5) [of t j] tls_val_has_entry [of M t i] by (cases "tls_val M t i") auto
  qed
  have h: "GetHandler j M' = (if j = i then None else GetHandler j M)" for j
    by (simp add: GetHandler_def M'_def)
  have "ring_inv M' ts" using H'(4) ring_inv_cong [of M' "M\<lparr>td_store := H'\<rparr>" ts] by (simp add: M'_def)
  moreover have "ids_inv M'"
    unfolding ids_inv_def
  proof (intro conjI)
    have "i \<notin> set (av_list (free_instance_ids M))" "i < next_instance_id M" using i by (auto simp: live_ids_def)
    then show "distinct (av_list (free_instance_ids M'))"
      and "\<forall>j \<in> set (av_list (free_instance_ids M')). j < next_instance_id M'"
      using ids push by (auto simp: M'_def ids_inv_def)
    show "av_inv 8 (free_instance_ids M')" using push by (simp add: M'_def)
  qed (use ids in \<open>auto simp: live val h ids_inv_def\<close>)
  ultimately have "tls_inv M'" unfolding tls_inv_def by blast
  moreover have "ReclaimId i M = Some M'" using H'(1) by (simp add: ReclaimId_def M'_def)
  ultimately show thesis using that [of M' tids] H'(2,3) live val h calls by (simp add: M'_def)
qed

lemma GetId_eq:
  assumes inv: "tls_inv M" and room: "unat (next_instance_id M) < 2 ^ 32 - 1"
  obtains i M' where "GetId M = Some (i, M')" "i \<notin> live_ids M" "live_ids M' = insert i (live_ids M)"
    "tls_inv M'" "tls_val M' = tls_val M" "unref_calls M' = unref_calls M" "\<forall>j. GetHandler j M' = GetHandler j M"
    "PeekId M = Some i"
proof -
  obtain ts where ts: "ring_inv M ts" and ids: "ids_inv M" using inv by (auto simp: tls_inv_def)
  let ?f = "free_instance_ids M"
  have f: "av_inv 8 ?f" "distinct (av_list ?f)" and lt: "\<And>j. j \<in> set (av_list ?f) \<Longrightarrow> j < next_instance_id M"
    using ids by (auto simp: ids_inv_def)
  show thesis
  proof (cases "av_list ?f = []")
    case True
    let ?M = "M\<lparr>next_instance_id := next_instance_id M + 1\<rparr>"
    have n: "unat (next_instance_id M + 1) = Suc (unat (next_instance_id M))"
      using room by (simp add: unat_word_ariths)
    then have live: "live_ids ?M = insert (next_instance_id M) (live_ids M)"
      using True by (auto simp: live_ids_def word_less_nat_alt less_Suc_eq word_unat_eq_iff)
    have val: "tls_val ?M = tls_val M" by (rule tls_val_cong) simp_all
    have "ids_inv ?M" using ids live val True by (auto simp: ids_inv_def GetHandler_def)
    moreover have "ring_inv ?M ts" using ring_inv_grow [OF ts] n by simp
    ultimately show thesis
      using that [of "next_instance_id M" ?M] True f live val
      by (auto simp: GetId_def PeekId_def av_empty_list live_ids_def tls_inv_def GetHandler_def)
  next
    case False
    obtain f' where f': "pop_back ?f = Some f'" "av_inv 8 f'" "av_list f' = butlast (av_list ?f)"
      using av.pop_Some [OF f(1) False] by blast
    let ?i = "last (av_list ?f)"
    let ?M = "M\<lparr>free_instance_ids := f'\<rparr>"
    have snoc: "av_list ?f = butlast (av_list ?f) @ [?i]" using False by simp
    have i: "?i \<in> set (av_list ?f)" "?i \<notin> set (butlast (av_list ?f))" "?i < next_instance_id M"
      using False f(2) lt snoc by (metis last_in_set, metis distinct_append disjoint_iff list.set_intros(1), metis last_in_set)
    have "length (av_list ?f) \<le> 2 ^ 64"
    proof -
      have "length (av_list ?f) = card (set (av_list ?f))" using f(2) by (simp add: distinct_card)
      also have "\<dots> \<le> card (UNIV :: id32 set)" by (rule card_mono) simp_all
      finally show ?thesis by (simp add: card_word)
    qed
    then have bk: "av_back 8 0 ?f = Some ?i" using av.top [OF f(1), of 0] False by simp
    have live: "live_ids ?M = insert ?i (live_ids M)"
      using i snoc f'(3) by (auto simp: live_ids_def dest: in_set_butlastD) (metis Un_iff empty_iff empty_set insert_iff list.set(2) set_append)
    have val: "tls_val ?M = tls_val M" by (rule tls_val_cong) simp_all
    have "ids_inv ?M"
      using ids live val f' f(2) lt by (auto simp: ids_inv_def GetHandler_def distinct_butlast dest: in_set_butlastD)
    moreover have "ring_inv ?M ts" using ts ring_inv_cong [of ?M M ts] by simp
    ultimately show thesis
      using that [of ?i ?M] False f live val bk f' i
      by (auto simp: GetId_def PeekId_def av_empty_list live_ids_def tls_inv_def GetHandler_def)
  qed
qed

lemma exit_loop_eq:
  "exit_loop M i es = concat (map (\<lambda>k. unref (GetHandler (i + of_nat k) M) (es ! k)) [0..<length es])"
proof (induction es arbitrary: i)
  case (Cons e es)
  have "[0..<length (e # es)] = 0 # map Suc [0..<length es]" by (simp add: upt_conv_Cons map_Suc_upt del: upt_Suc)
  then show ?case by (simp add: Cons comp_def add.assoc del: upt_Suc)
qed simp

lemma exit_calls:
  assumes "length es \<le> unat (n :: id32)"
  obtains ids where "exit_loop M 0 es = map (\<lambda>i. (the (GetHandler i M), the (entry_at (Some es) i))) ids" "distinct ids"
    "\<And>i. i \<in> set ids \<longleftrightarrow> entry_at (Some es) i \<noteq> None \<and> GetHandler i M \<noteq> None"
proof -
  let ?P = "\<lambda>k. es ! k \<noteq> None \<and> GetHandler (of_nat k) M \<noteq> None"
  let ?ks = "filter ?P [0..<length es]"
  have len: "length es < 2 ^ 32" using assms unsigned_less [where ?'a = nat, of n] by simp
  have k: "unat (of_nat k :: id32) = k" if "k < length es" for k using that len by (simp add: unat_of_nat)
  have "concat (map (\<lambda>k. unref (GetHandler (of_nat k) M) (es ! k)) ks) =
      map (\<lambda>k. (the (GetHandler (of_nat k) M), the (es ! k))) (filter ?P ks)" for ks
    by (induction ks) (auto simp: unref_def split: option.splits)
  then have "exit_loop M 0 es = map (\<lambda>k. (the (GetHandler (of_nat k) M), the (es ! k))) ?ks"
    by (simp add: exit_loop_eq)
  also have "\<dots> = map (\<lambda>i. (the (GetHandler i M), the (entry_at (Some es) i))) (map of_nat ?ks)"
    using k by (auto simp: entry_at_def)
  finally have 1: "exit_loop M 0 es = map (\<lambda>i. (the (GetHandler i M), the (entry_at (Some es) i))) (map of_nat ?ks)" .
  have 2: "distinct (map of_nat ?ks :: id32 list)"
  proof -
    have "inj_on (of_nat :: nat \<Rightarrow> id32) (set ?ks)"
      by (rule inj_on_inverseI [where g = unat]) (simp add: k)
    then show ?thesis by (simp add: distinct_map)
  qed
  have 3: "i \<in> set (map of_nat ?ks) \<longleftrightarrow> entry_at (Some es) i \<noteq> None \<and> GetHandler i M \<noteq> None" for i :: id32
  proof
    assume "entry_at (Some es) i \<noteq> None \<and> GetHandler i M \<noteq> None"
    then have "unat i \<in> set ?ks" by (auto simp: entry_at_def split: if_splits)
    then have "(of_nat (unat i) :: id32) \<in> set (map of_nat ?ks)" unfolding set_map by (rule imageI)
    then show "i \<in> set (map of_nat ?ks)" by simp
  qed (use k in \<open>auto simp: entry_at_def\<close>)
  show thesis by (rule that [OF 1 2 3])
qed

lemma ring_delete:
  assumes "ring H ts" and "a \<notin> set (head_td # ts)"
  shows "ring (H(a := None)) ts"
proof -
  have "successively (link (H(a := None))) (head_td # ts @ [head_td])"
  proof (rule successively_weaken)
    show "successively (link H) (head_td # ts @ [head_td])" using assms(1) by (simp add: ring_def)
    fix x y assume "x \<in> set (butlast (head_td # ts @ [head_td]))" "y \<in> set (tl (head_td # ts @ [head_td]))" "link H x y"
    then show "link (H(a := None)) x y"
      using assms(2) by (auto simp: link_def get_next_def get_prev_def butlast_append split: if_splits)
  qed
  then show ?thesis using assms(1) by (simp add: ring_def)
qed

lemma thread_exit_eq:
  assumes inv: "tls_inv M"
  obtains M' ids where "thread_exit tid M = Some M'"
    "unref_calls M' = unref_calls M @ map (\<lambda>i. (the (GetHandler i M), the (tls_val M tid i))) ids" "distinct ids"
    "\<And>i. i \<in> set ids \<longleftrightarrow> tls_val M tid i \<noteq> None \<and> GetHandler i M \<noteq> None"
    "tls_inv M'" "tls_val M' = (tls_val M)(tid := \<lambda>_. None)" "same_ids M M'"
proof (cases "pthread_specific M tid")
  case None
  then have "tls_val M tid = (\<lambda>_. None)" by (simp add: tls_val_def fun_eq_iff)
  moreover have "(tls_val M)(tid := tls_val M tid) = tls_val M" by simp
  ultimately show thesis using that [of M "[]"] inv None by (auto simp: thread_exit_def same_ids_def)
next
  case (Some a)
  obtain ts where ts: "ring_inv M ts" and ids: "ids_inv M" using inv by (auto simp: tls_inv_def)
  have "a \<in> set ts" using Some ring_invD(4) [OF ts] by blast
  then obtain xs ys where sp: "ts = xs @ a # ys" by (meson split_list)
  then obtain H where H: "RemoveThreadData a (td_store M) = Some H" "ring H (xs @ ys)" "ents H = ents (td_store M)"
    using RemoveThreadData_ring [of "td_store M" xs a ys] ring_invD(1) [OF ts] by auto
  have dist: "a \<notin> set (head_td # xs @ ys)" using ring_invD(1) [OF ts] by (auto simp: ring_def sp)
  obtain d where d: "H a = Some d"
    using ents_in_store [OF H(3), of a] ring_in_store [OF ring_invD(1) [OF ts], of a] \<open>a \<in> set ts\<close> by auto
  then have ea: "ents (td_store M) a = Some (entries d)" unfolding H(3) [symmetric] by (simp add: ents_def)
  have v: "tls_val M tid i = entry_at (Some (entries d)) i" for i by (simp add: tls_val_def Some ea)
  obtain js where js: "exit_loop M 0 (entries d) = map (\<lambda>i. (the (GetHandler i M), the (tls_val M tid i))) js" "distinct js"
    "\<And>i. i \<in> set js \<longleftrightarrow> tls_val M tid i \<noteq> None \<and> GetHandler i M \<noteq> None"
    unfolding v using exit_calls [OF ring_invD(6) [OF ts \<open>a \<in> set ts\<close> ea], of M] by blast
  define M' where "M' = M\<lparr>pthread_specific := (pthread_specific M)(tid := None), td_store := H(a := None),
    unref_calls := unref_calls M @ exit_loop M 0 (entries d)\<rparr>"
  have loop: "exit_loop (M\<lparr>pthread_specific := p\<rparr>) i es = exit_loop M i es" for p i es
    by (induction es arbitrary: i) (simp_all add: GetHandler_def)
  have e: "ents (H(a := None)) = (ents (td_store M))(a := None)" unfolding H(3) [symmetric] by (auto simp: ents_def)
  have other: "b \<noteq> a" if "pthread_specific M t = Some b" "t \<noteq> tid" for t b using ring_invD(5) [OF ts _ Some] that by blast
  have val: "tls_val M' = (tls_val M)(tid := \<lambda>_. None)"
    using other by (intro ext) (auto simp: tls_val_def M'_def e split: option.splits)
  have "ring_inv M' (xs @ ys)"
    unfolding ring_inv_def
  proof (intro conjI)
    show "ring (td_store M') (xs @ ys)" using ring_delete [OF H(2) dist] by (simp add: M'_def)
    show "\<forall>b. td_store M' b \<noteq> None \<longrightarrow> b \<in> set (head_td # xs @ ys)"
      using ring_invD(2) [OF ts] ents_in_store [OF H(3)] by (auto simp: M'_def sp)
    show "\<forall>b \<in> set (head_td # xs @ ys). b < next_td M'" using ring_invD(3) [OF ts] by (auto simp: M'_def sp)
    show "\<forall>b. (b \<in> set (xs @ ys)) = (\<exists>t. pthread_specific M' t = Some b)"
    proof
      fix b
      have "b \<in> set (xs @ ys) \<longleftrightarrow> b \<in> set ts \<and> b \<noteq> a" using dist by (auto simp: sp)
      also have "\<dots> \<longleftrightarrow> (\<exists>t. t \<noteq> tid \<and> pthread_specific M t = Some b)"
        using ring_invD(4) [OF ts, of b] other Some by (metis option.inject)
      finally show "(b \<in> set (xs @ ys)) = (\<exists>t. pthread_specific M' t = Some b)" by (simp add: M'_def) metis
    qed
    show "\<forall>t t' b. pthread_specific M' t = Some b \<longrightarrow> pthread_specific M' t' = Some b \<longrightarrow> t = t'"
      by (auto simp: M'_def dest: ring_invD(5) [OF ts] split: if_splits)
    show "\<forall>b \<in> set (xs @ ys). \<forall>es. ents (td_store M') b = Some es \<longrightarrow> length es \<le> unat (next_instance_id M')"
      using ring_invD(6) [OF ts] by (auto simp: M'_def e sp)
  qed
  moreover have same: "same_ids M M'" by (simp add: same_ids_def M'_def)
  moreover have "ids_inv M'"
    by (rule ids_inv_mono [OF ids same]) (use ids in \<open>auto simp: val ids_inv_def split: if_splits\<close>)
  moreover have "thread_exit tid M = Some M'"
    using Some H(1) d loop by (simp add: thread_exit_def OnThreadExit_def M'_def Let_def)
  ultimately show thesis
    using that [of M' js] js val by (auto simp: tls_inv_def M'_def)
qed

section \<open>Runs of a program\<close>

text \<open>The states that a program reaches: objects are created and destroyed, threads use the pointers of
  existing objects and exit. The second argument lists the ids of the existing objects. An object is
  only created while fewer than \<open>2 ^ 32 - 1\<close> ids have been given out.\<close>

inductive tls_reach :: "'p StaticMeta \<Rightarrow> id32 list \<Rightarrow> bool" where
  init: "tls_reach new_StaticMeta []"
| create: "tls_reach M objs \<Longrightarrow> unat (next_instance_id M) < 2 ^ 32 - 1 \<Longrightarrow>
    new_ThreadLocalPtr h M = Some (i, M') \<Longrightarrow> tls_reach M' (i # objs)"
| destroy: "tls_reach M objs \<Longrightarrow> i \<in> set objs \<Longrightarrow> delete_ThreadLocalPtr i M = Some M' \<Longrightarrow>
    tls_reach M' (remove1 i objs)"
| get: "tls_reach M objs \<Longrightarrow> i \<in> set objs \<Longrightarrow> Meta_Get tid i M = Some (p, M') \<Longrightarrow> tls_reach M' objs"
| reset: "tls_reach M objs \<Longrightarrow> i \<in> set objs \<Longrightarrow> Meta_Reset tid i p M = Some M' \<Longrightarrow> tls_reach M' objs"
| swap: "tls_reach M objs \<Longrightarrow> i \<in> set objs \<Longrightarrow> Meta_Swap tid i p M = Some (q, M') \<Longrightarrow> tls_reach M' objs"
| cas: "tls_reach M objs \<Longrightarrow> i \<in> set objs \<Longrightarrow> Meta_CompareAndSwap tid i p e M = Some (b, q, M') \<Longrightarrow>
    tls_reach M' objs"
| scrape: "tls_reach M objs \<Longrightarrow> i \<in> set objs \<Longrightarrow> Meta_Scrape i ptrs p M = Some (ptrs', M') \<Longrightarrow>
    tls_reach M' objs"
| exit: "tls_reach M objs \<Longrightarrow> thread_exit tid M = Some M' \<Longrightarrow> tls_reach M' objs"

lemma new_ThreadLocalPtr_eq:
  assumes "tls_inv M" and "unat (next_instance_id M) < 2 ^ 32 - 1"
  obtains i M' where "new_ThreadLocalPtr h M = Some (i, M')" "i \<notin> live_ids M" "live_ids M' = insert i (live_ids M)"
    "tls_inv M'" "tls_val M' = tls_val M" "unref_calls M' = unref_calls M"
    "\<And>j. GetHandler j M' = (if j = i then h else GetHandler j M)" "PeekId M = Some i"
proof -
  obtain i M1 where M1: "GetId M = Some (i, M1)" "i \<notin> live_ids M" "live_ids M1 = insert i (live_ids M)"
    "tls_inv M1" "tls_val M1 = tls_val M" "unref_calls M1 = unref_calls M" "\<forall>j. GetHandler j M1 = GetHandler j M"
    "PeekId M = Some i"
    by (rule GetId_eq [OF assms]) (rule that)
  define M' where "M' = (case h of None \<Rightarrow> M1 | Some h' \<Rightarrow> SetHandler i (Some h') M1)"
  have f: "td_store M' = td_store M1" "next_td M' = next_td M1" "pthread_specific M' = pthread_specific M1"
    "next_instance_id M' = next_instance_id M1" "free_instance_ids M' = free_instance_ids M1" "unref_calls M' = unref_calls M1"
    by (simp_all add: M'_def SetHandler_def split: option.splits)
  have val: "tls_val M' = tls_val M1" by (rule tls_val_cong) (simp_all add: f)
  have live: "live_ids M' = live_ids M1" by (simp add: live_ids_def f)
  have "GetHandler i M = None" using assms(1) M1(2) by (auto simp: tls_inv_def ids_inv_def)
  then have h: "GetHandler j M' = (if j = i then h else GetHandler j M)" for j
  proof -
    have "GetHandler j (SetHandler i k M1) = (if j = i then k else GetHandler j M1)" for k
      by (simp add: SetHandler_def GetHandler_def)
    then show ?thesis using M1(7) \<open>GetHandler i M = None\<close> by (cases h) (simp_all add: M'_def)
  qed
  have ids: "ids_inv M1" using M1(4) by (simp add: tls_inv_def)
  have "ids_inv M'"
    unfolding ids_inv_def
  proof (intro conjI)
    show "\<forall>j. j \<notin> live_ids M' \<longrightarrow> GetHandler j M' = None"
    proof (intro allI impI)
      fix j assume "j \<notin> live_ids M'"
      then have "j \<noteq> i" "GetHandler j M1 = None" using ids M1(3) by (auto simp: live ids_inv_def)
      then show "GetHandler j M' = None" using h [of j] M1(7) by simp
    qed
  qed (use ids in \<open>simp_all add: ids_inv_def f live val\<close>)
  moreover have "\<exists>ts. ring_inv M' ts" using M1(4) ring_inv_cong [OF f(1-4)] by (simp add: tls_inv_def)
  ultimately show thesis using that [of i M'] M1 h live val f by (simp add: new_ThreadLocalPtr_def M'_def tls_inv_def)
qed

lemma tls_reach_inv: "tls_reach M objs \<Longrightarrow> tls_inv M \<and> distinct objs \<and> set objs = live_ids M"
proof (induction rule: tls_reach.induct)
  case init
  have "live_ids (new_StaticMeta :: 'a StaticMeta) = {}" by (auto simp: live_ids_def new_StaticMeta_def)
  then show ?case using tls_inv_new by simp
next
  case (create M objs h i M')
  then show ?case using new_ThreadLocalPtr_eq [of M h] by (auto simp: insert_absorb)
next
  case (destroy M objs i M')
  then show ?case using ReclaimId_eq [of M i] by (auto simp: delete_ThreadLocalPtr_def)
next
  case (get M objs i tid p M')
  then show ?case using Meta_Get_eq [of M tid i] same_ids_live by (metis option.inject prod.inject)
next
  case (reset M objs i tid p M')
  then obtain q where "exchange_entry tid i (\<lambda>_. p) M = Some (q, M')" by (auto simp: Meta_Reset_def)
  then show ?case using exchange_entry_eq [of M i tid "\<lambda>_. p"] reset same_ids_live by (metis option.inject prod.inject)
next
  case (swap M objs i tid p q M')
  then show ?case using exchange_entry_eq [of M i tid "\<lambda>_. p"] same_ids_live unfolding Meta_Swap_def
    by (metis option.inject prod.inject)
next
  case (cas M objs i tid p e b q M')
  then have "exchange_entry tid i (\<lambda>old. if old = e then p else old) M = Some (q, M')"
    by (auto simp: Meta_CompareAndSwap_def)
  then show ?case using exchange_entry_eq [of M i tid "\<lambda>old. if old = e then p else old"] cas same_ids_live
    by (metis option.inject prod.inject)
next
  case (scrape M objs i ptrs p ptrs' M')
  then show ?case using Meta_Scrape_eq [of M i ptrs p] same_ids_live by (metis option.inject prod.inject)
next
  case (exit M objs tid M')
  then show ?case using thread_exit_eq [of M tid] same_ids_live by (metis option.inject)
qed

section \<open>Properties\<close>

text \<open>C36: in every state that a program reaches, the operations on the pointer of an existing object
  complete and act on a table indexed by thread and object: \<^verbatim>\<open>Get\<close> reads the entry of the calling thread,
  \<^verbatim>\<open>Reset\<close>, \<^verbatim>\<open>Swap\<close> and \<^verbatim>\<open>CompareAndSwap\<close> change this entry only, and \<^verbatim>\<open>Scrape\<close> with a null replacement returns the
  pointer of every thread that has one, once, and clears them.\<close>

theorem thread_local_refines_table:
  assumes "tls_reach M objs" and "i \<in> set objs"
  shows "(\<exists>M'. Meta_Get tid i M = Some (tls_val M tid i, M') \<and> tls_val M' = tls_val M) \<and>
    (\<exists>M'. Meta_Reset tid i p M = Some M' \<and> tls_val M' = (tls_val M)(tid := (tls_val M tid)(i := p))) \<and>
    (\<exists>M'. Meta_Swap tid i p M = Some (tls_val M tid i, M') \<and>
       tls_val M' = (tls_val M)(tid := (tls_val M tid)(i := p))) \<and>
    (\<exists>M'. Meta_CompareAndSwap tid i p e M = Some (tls_val M tid i = e, tls_val M tid i, M') \<and>
       tls_val M' = (tls_val M)(tid := (tls_val M tid)(i := if tls_val M tid i = e then p else tls_val M tid i))) \<and>
    (\<exists>M' tids. Meta_Scrape i [] None M = Some (map (\<lambda>tid. the (tls_val M tid i)) tids, M') \<and> distinct tids \<and>
       set tids = {tid. tls_val M tid i \<noteq> None} \<and> tls_val M' = (\<lambda>tid. (tls_val M tid)(i := None)))"
proof (intro conjI)
  have inv: "tls_inv M" and i: "i \<in> live_ids M" using tls_reach_inv [OF assms(1)] assms(2) by auto
  show "\<exists>M'. Meta_Get tid i M = Some (tls_val M tid i, M') \<and> tls_val M' = tls_val M"
    using Meta_Get_eq [OF inv] by metis
  show "\<exists>M'. Meta_Reset tid i p M = Some M' \<and> tls_val M' = (tls_val M)(tid := (tls_val M tid)(i := p))"
    using exchange_entry_eq [OF inv i, of tid "\<lambda>_. p"] unfolding Meta_Reset_def by (metis option.simps(9) snd_conv)
  show "\<exists>M'. Meta_Swap tid i p M = Some (tls_val M tid i, M') \<and> tls_val M' = (tls_val M)(tid := (tls_val M tid)(i := p))"
    using exchange_entry_eq [OF inv i, of tid "\<lambda>_. p"] unfolding Meta_Swap_def by metis
  show "\<exists>M'. Meta_CompareAndSwap tid i p e M = Some (tls_val M tid i = e, tls_val M tid i, M') \<and>
       tls_val M' = (tls_val M)(tid := (tls_val M tid)(i := if tls_val M tid i = e then p else tls_val M tid i))"
  proof -
    obtain M' where "exchange_entry tid i (\<lambda>old. if old = e then p else old) M = Some (tls_val M tid i, M')"
      "tls_val M' = (tls_val M)(tid := (tls_val M tid)(i := if tls_val M tid i = e then p else tls_val M tid i))"
      by (rule exchange_entry_eq [OF inv i, of tid "\<lambda>old. if old = e then p else old"]) (rule that)
    then show ?thesis by (simp add: Meta_CompareAndSwap_def)
  qed
  show "\<exists>M' tids. Meta_Scrape i [] None M = Some (map (\<lambda>tid. the (tls_val M tid i)) tids, M') \<and> distinct tids \<and>
       set tids = {tid. tls_val M tid i \<noteq> None} \<and> tls_val M' = (\<lambda>tid. (tls_val M tid)(i := None))"
  proof (rule Meta_Scrape_eq [OF inv i, of "[]" None], intro exI conjI)
    fix M' tids
    assume s: "Meta_Scrape i [] None M = Some ([] @ map (\<lambda>tid. the (tls_val M tid i)) tids, M')" "distinct tids"
      "\<And>tid. tid \<in> set tids \<longleftrightarrow> tls_val M tid i \<noteq> None"
      "\<And>t j. tls_val M' t j = (if j = i \<and> has_entry M t i then None else tls_val M t j)"
    show "Meta_Scrape i [] None M = Some (map (\<lambda>tid. the (tls_val M tid i)) tids, M')" "distinct tids"
      using s(1,2) by simp_all
    show "set tids = {tid. tls_val M tid i \<noteq> None}" using s(3) by auto
    have "tls_val M t i = None" if "\<not> has_entry M t i" for t using tls_val_has_entry [of M t i] that by blast
    then show "tls_val M' = (\<lambda>tid. (tls_val M tid)(i := None))" by (intro ext) (simp add: s(4))
  qed
qed

text \<open>A state with one object, id 0 and handler 7, for which thread 3 has stored a pointer.\<close>

lemma distinct_singleton_list: "distinct xs \<Longrightarrow> set xs = {a} \<Longrightarrow> xs = [a]"
  by (cases xs; cases "tl xs") auto

lemma sample_create: "new_ThreadLocalPtr (Some 7) (new_StaticMeta :: nat StaticMeta) =
    Some (0, SetHandler 0 (Some 7) (new_StaticMeta\<lparr>next_instance_id := 1\<rparr>))"
  by (simp add: new_ThreadLocalPtr_def GetId_def new_StaticMeta_def av_empty_def av_size_def new_autovector_def)

lemma sample_reach:
  obtains M :: "nat StaticMeta" where "tls_reach M [0]" "tls_val M 3 0 = Some 42" "GetHandler 0 M = Some 7"
    "unat (next_instance_id M) < 2 ^ 32 - 1" "unref_calls M = []" "\<And>tid. tid \<noteq> 3 \<Longrightarrow> tls_val M tid 0 = None"
proof -
  let ?M1 = "SetHandler 0 (Some 7) (new_StaticMeta\<lparr>next_instance_id := 1\<rparr>) :: nat StaticMeta"
  have r1: "tls_reach ?M1 [0]" using tls_reach.create [OF tls_reach.init _ sample_create] by (simp add: new_StaticMeta_def)
  have v1: "tls_val ?M1 tid i = None" for tid i by (simp add: tls_val_def SetHandler_def new_StaticMeta_def)
  have inv: "tls_inv ?M1" "0 \<in> live_ids ?M1" using tls_reach_inv [OF r1] by auto
  obtain M2 where M2: "exchange_entry 3 0 (\<lambda>_. Some 42) ?M1 = Some (tls_val ?M1 3 0, M2)"
    "tls_val M2 = (tls_val ?M1)(3 := (tls_val ?M1 3)(0 := Some 42))" "same_ids ?M1 M2" "unref_calls M2 = unref_calls ?M1"
    by (rule exchange_entry_eq [OF inv, of 3 "\<lambda>_. Some 42"]) (rule that)
  have "tls_reach M2 [0]" by (rule tls_reach.reset [OF r1, of 0 3 "Some 42"]) (simp_all add: Meta_Reset_def M2(1))
  then show thesis
    using that [of M2] M2(2,4) v1 M2(3) same_ids_live [OF M2(3), of 0]
    by (simp add: same_ids_def GetHandler_def SetHandler_def new_StaticMeta_def)
qed

theorem thread_local_refines_table_witness:
  "\<exists>M :: nat StaticMeta. tls_reach M [0] \<and> (\<exists>M'. Meta_Swap 3 0 (Some 5) M = Some (Some 42, M') \<and> tls_val M' 3 0 = Some 5)"
proof -
  obtain M :: "nat StaticMeta" where M: "tls_reach M [0]" "tls_val M 3 0 = Some 42" by (rule sample_reach)
  then show ?thesis
    using thread_local_refines_table [OF M(1), of 0 3 "Some 5" None] by (intro exI [of _ M]) auto
qed

text \<open>C37: ids are used again, but in every state that a program reaches the ids of the existing objects
  differ, no thread has a pointer under the id of an object that does not exist, and a new object gets an
  id that none of the others has and starts with a null pointer in every thread.\<close>

theorem new_object_starts_null:
  assumes "tls_reach M objs" and "unat (next_instance_id M) < 2 ^ 32 - 1"
  shows "distinct objs \<and> {i. \<exists>tid. tls_val M tid i \<noteq> None} \<subseteq> set objs \<and>
    (\<exists>i M'. new_ThreadLocalPtr h M = Some (i, M') \<and> PeekId M = Some i \<and> i \<notin> set objs \<and> tls_reach M' (i # objs) \<and>
       (\<forall>tid. \<exists>M''. Meta_Get tid i M' = Some (None, M'')))"
proof -
  have inv: "tls_inv M" "distinct objs" "set objs = live_ids M" using tls_reach_inv [OF assms(1)] by auto
  then have null: "{i. \<exists>tid. tls_val M tid i \<noteq> None} \<subseteq> set objs" unfolding tls_inv_def ids_inv_def by blast
  obtain i M' where M': "new_ThreadLocalPtr h M = Some (i, M')" "i \<notin> live_ids M" "tls_inv M'" "tls_val M' = tls_val M"
    "PeekId M = Some i"
    by (rule new_ThreadLocalPtr_eq [OF inv(1) assms(2), of h]) (rule that)
  have "\<exists>M''. Meta_Get tid i M' = Some (None, M'')" for tid
  proof -
    have "i \<notin> {i. \<exists>tid. tls_val M tid i \<noteq> None}" using null M'(2) inv(3) by blast
    then have "tls_val M' tid i = None" unfolding M'(4) by simp
    then show ?thesis using Meta_Get_eq [OF M'(3), of tid i] by metis
  qed
  then show ?thesis using inv null M' tls_reach.create [OF assms M'(1)] by blast
qed

theorem new_object_starts_null_witness:
  "\<exists>M :: nat StaticMeta. tls_reach M [0] \<and> (\<exists>i M'. new_ThreadLocalPtr None M = Some (i, M') \<and> i \<noteq> 0 \<and>
     (\<exists>M''. Meta_Get 3 i M' = Some (None, M'')))"
proof -
  obtain M :: "nat StaticMeta" where M: "tls_reach M [0]" "unat (next_instance_id M) < 2 ^ 32 - 1" by (rule sample_reach)
  then show ?thesis using new_object_starts_null [OF M, of None] by (intro exI [of _ M]) force
qed

text \<open>C38: destroying an object calls its handler exactly once for each pointer that a thread has stored in
  it, and the exit of a thread calls for each of its pointers the handler of the object exactly once;
  objects without a handler cause no call. Both complete, clear these pointers and leave all others.\<close>

theorem pointers_unreferenced_once:
  assumes "tls_reach M objs" and "i \<in> set objs"
  shows "(\<exists>M' tids. delete_ThreadLocalPtr i M = Some M' \<and> distinct tids \<and> set tids = {tid. tls_val M tid i \<noteq> None} \<and>
      unref_calls M' = unref_calls M @
        (case GetHandler i M of None \<Rightarrow> [] | Some h \<Rightarrow> map (\<lambda>tid. (h, the (tls_val M tid i))) tids) \<and>
      tls_val M' = (\<lambda>tid. (tls_val M tid)(i := None))) \<and>
    (\<exists>M' js. thread_exit tid M = Some M' \<and> distinct js \<and>
      set js = {j. tls_val M tid j \<noteq> None \<and> GetHandler j M \<noteq> None} \<and>
      unref_calls M' = unref_calls M @ map (\<lambda>j. (the (GetHandler j M), the (tls_val M tid j))) js \<and>
      tls_val M' = (tls_val M)(tid := \<lambda>_. None))"
proof (rule conjI)
  have inv: "tls_inv M" and i: "i \<in> live_ids M" using tls_reach_inv [OF assms(1)] assms(2) by auto
  show "\<exists>M' tids. delete_ThreadLocalPtr i M = Some M' \<and> distinct tids \<and> set tids = {tid. tls_val M tid i \<noteq> None} \<and>
      unref_calls M' = unref_calls M @
        (case GetHandler i M of None \<Rightarrow> [] | Some h \<Rightarrow> map (\<lambda>tid. (h, the (tls_val M tid i))) tids) \<and>
      tls_val M' = (\<lambda>tid. (tls_val M tid)(i := None))"
    by (rule ReclaimId_eq [OF inv i]) (auto simp: delete_ThreadLocalPtr_def fun_eq_iff)
  show "\<exists>M' js. thread_exit tid M = Some M' \<and> distinct js \<and>
      set js = {j. tls_val M tid j \<noteq> None \<and> GetHandler j M \<noteq> None} \<and>
      unref_calls M' = unref_calls M @ map (\<lambda>j. (the (GetHandler j M), the (tls_val M tid j))) js \<and>
      tls_val M' = (tls_val M)(tid := \<lambda>_. None)"
    by (rule thread_exit_eq [OF inv, of tid]) blast
qed

theorem pointers_unreferenced_once_witness:
  "\<exists>(M :: nat StaticMeta) M'. tls_reach M [0] \<and> delete_ThreadLocalPtr 0 M = Some M' \<and> unref_calls M' = [(7, 42)]"
proof -
  obtain M :: "nat StaticMeta" where M: "tls_reach M [0]" "tls_val M 3 0 = Some 42" "GetHandler 0 M = Some 7"
    "unref_calls M = []" "\<And>tid. tid \<noteq> 3 \<Longrightarrow> tls_val M tid 0 = None"
    by (rule sample_reach) (rule that)
  obtain M' tids where M': "delete_ThreadLocalPtr 0 M = Some M'" "distinct tids" "set tids = {tid. tls_val M tid 0 \<noteq> None}"
    "unref_calls M' = map (\<lambda>tid. (7, the (tls_val M tid 0))) tids"
    using pointers_unreferenced_once [OF M(1), of 0 3] M(3,4) by auto
  have "tls_val M x 0 \<noteq> None \<longleftrightarrow> x = 3" for x using M(2) M(5) [of x] by (cases "x = 3") simp_all
  then have "set tids = {3}" using M'(3) by simp
  then have "tids = [3]" using M'(2) by (rule distinct_singleton_list [rotated])
  then show ?thesis using M(1,2) M'(1,4) by auto
qed

end
