(* ===== verification/Doubles.thy ===== *)
theory Doubles
  imports Complex_Main Prelude
begin

text \<open>
  The C++ type \<^verbatim>\<open>double\<close> as far as the histograms use it: IEEE 754 binary64 numbers as the rational numbers
  they stand for, every operation being the exact one followed by \<open>dbl\<close>, which rounds to 53 significant
  bits, to nearest with ties to even. The numbers of the histograms are neither large nor small enough
  for the limits of the exponent to matter, so these are left out.
\<close>

section \<open>Rounding\<close>

definition pow2 :: "int \<Rightarrow> rat" where
  "pow2 k = (if 0 \<le> k then 2 ^ nat k else 1 / 2 ^ nat (- k))"

fun bits :: "int \<Rightarrow> nat" where
  "bits n = (if n \<le> 0 then 0 else Suc (bits (n div 2)))"

declare bits.simps [simp del]

text \<open>The exponent of the leading bit of a positive number.\<close>

definition dexp :: "rat \<Rightarrow> int" where
  "dexp x =
    (let (a, b) = quotient_of x; k = int (bits a) - int (bits b)
     in if pow2 k \<le> x then k else k - 1)"

definition round_even :: "rat \<Rightarrow> int" where
  "round_even x =
    (let f = \<lfloor>x\<rfloor>; r = x - of_int f
     in if r < 1 / 2 then f else if 1 / 2 < r then f + 1 else if even f then f else f + 1)"

definition dbl_pos :: "rat \<Rightarrow> rat" where
  "dbl_pos x = (let u = pow2 (dexp x - 52) in of_int (round_even (x / u)) * u)"

definition dbl :: "rat \<Rightarrow> rat" where
  "dbl x = (if x = 0 then 0 else if 0 < x then dbl_pos x else - dbl_pos (- x))"

text \<open>The conversion of a 64-bit number.\<close>

definition dbl_of_u64 :: "u64 \<Rightarrow> rat" where
  "dbl_of_u64 w = dbl (of_int (uint w))"

text \<open>\<^verbatim>\<open>sqrt\<close>, correctly rounded: the integer root of a scaled argument, with half a unit added when it is
  not exact so that the final rounding goes the right way.\<close>

fun isqrt :: "int \<Rightarrow> int" where
  "isqrt n = (if n \<le> 0 then 0 else let r = 2 * isqrt (n div 4) in if (r + 1) * (r + 1) \<le> n then r + 1 else r)"

declare isqrt.simps [simp del]

definition dbl_sqrt :: "rat \<Rightarrow> rat" where
  "dbl_sqrt x =
    (if x \<le> 0 then 0
     else let k = 56 - dexp x div 2; r = isqrt \<lfloor>x * pow2 (2 * k)\<rfloor>
          in dbl ((of_int r + (if of_int (r * r) = x * pow2 (2 * k) then 0 else 1 / 2)) * pow2 (- k)))"

section \<open>Powers of two\<close>

lemma pow2_pos [simp]: "0 < pow2 k"
  by (simp add: pow2_def)

lemma pow2_neq_0 [simp]: "pow2 k \<noteq> 0"
  by (simp add: pow2_def)

lemma pow2_0 [simp]: "pow2 0 = 1"
  by (simp add: pow2_def)

lemma pow2_powi: "pow2 k = 2 powi k"
  by (simp add: pow2_def power_int_def field_simps)

lemma pow2_add: "pow2 (a + b) = pow2 a * pow2 b"
  by (simp add: pow2_powi power_int_add)

lemma pow2_less: "a < b \<Longrightarrow> pow2 a < pow2 b"
  by (simp add: pow2_powi power_int_strict_increasing)

lemma pow2_less_iff [simp]: "pow2 a < pow2 b \<longleftrightarrow> a < b"
  using pow2_less [of a b] pow2_less [of b a] by (cases a b rule: linorder_cases) auto

lemma pow2_mono_iff [simp]: "pow2 a \<le> pow2 b \<longleftrightarrow> a \<le> b"
  by (simp flip: not_less)

lemma pow2_nat: "pow2 (int n) = 2 ^ n"
  by (simp add: pow2_def)

lemma bits_bound: "n < 2 ^ bits n" "0 < n \<Longrightarrow> 2 ^ bits n \<le> 2 * n"
proof (induction n rule: bits.induct)
  case (1 n)
  show "n < 2 ^ bits n" using 1(1) by (cases "n \<le> 0") (auto simp: bits.simps [of n] intro: le_less_trans)
  show "2 ^ bits n \<le> 2 * n" if "0 < n"
  proof (cases "n div 2 \<le> 0")
    case True
    then show ?thesis using that by (simp add: bits.simps [of n] bits.simps [of 0])
  next
    case False
    then show ?thesis using 1(2) that by (simp add: bits.simps [of n])
  qed
qed

lemma dexp_bound:
  assumes "0 < x"
  shows "pow2 (dexp x) \<le> x" and "x < pow2 (dexp x + 1)"
proof -
  obtain a b where q: "quotient_of x = (a, b)" by (cases "quotient_of x")
  have b: "0 < b" and x: "x = of_int a / of_int b" using q by (simp_all add: quotient_of_denom_pos quotient_of_div)
  have a: "0 < a" using assms b x by (simp add: zero_less_divide_iff)
  define la where "la = bits a"
  define lb where "lb = bits b"
  have "a < 2 ^ la" "2 ^ la \<le> 2 * a" "b < 2 ^ lb" "2 ^ lb \<le> 2 * b"
    using bits_bound [of a] bits_bound [of b] a b by (simp_all add: la_def lb_def)
  then have "of_int a < (of_int (2 ^ la) :: rat)" "(of_int (2 ^ la) :: rat) \<le> of_int (2 * a)"
    "of_int b < (of_int (2 ^ lb) :: rat)" "(of_int (2 ^ lb) :: rat) \<le> of_int (2 * b)"
    by (simp_all only: of_int_less_iff of_int_le_iff)
  then have *: "(of_int a :: rat) < 2 ^ la" "(2 :: rat) ^ la \<le> 2 * of_int a"
    "(of_int b :: rat) < 2 ^ lb" "(2 :: rat) ^ lb \<le> 2 * of_int b"
    by simp_all
  define k where "k = int la - int lb"
  have pk: "pow2 k = 2 ^ la / 2 ^ lb" by (simp add: k_def pow2_powi power_int_diff)
  have bp: "(0 :: rat) < of_int b" and ap: "(0 :: rat) < of_int a" using a b by simp_all
  have "x < 2 ^ la / of_int b" unfolding x using * bp by (simp add: divide_strict_right_mono)
  also have "\<dots> \<le> 2 ^ la * (2 / 2 ^ lb)"
    using *(4) bp by (simp add: field_simps)
  finally have "x < 2 * pow2 k" by (simp add: pk mult.commute)
  moreover have "pow2 k / 2 < x"
  proof -
    have "pow2 k / 2 \<le> of_int a / 2 ^ lb" using *(2) by (simp add: pk field_simps)
    also have "\<dots> < x" unfolding x using *(3) bp ap by (intro divide_strict_left_mono) simp_all
    finally show ?thesis .
  qed
  moreover have "dexp x = (if pow2 k \<le> x then k else k - 1)" by (simp add: dexp_def q k_def la_def lb_def)
  moreover have "pow2 (k - 1) = pow2 k / 2" "pow2 (k + 1) = 2 * pow2 k"
    by (simp_all add: pow2_powi power_int_diff power_int_add)
  ultimately show "pow2 (dexp x) \<le> x" "x < pow2 (dexp x + 1)" by (simp_all split: if_splits)
qed

section \<open>Rounding is monotone and leaves doubles alone\<close>

lemma round_even_of_int [simp]: "round_even (of_int n) = n"
  by (simp add: round_even_def)

lemma round_even_floor: "\<lfloor>x\<rfloor> \<le> round_even x" "round_even x \<le> \<lfloor>x\<rfloor> + 1"
  by (simp_all add: round_even_def Let_def)

lemma round_even_mono: "x \<le> y \<Longrightarrow> round_even x \<le> round_even y"
proof (cases "\<lfloor>x\<rfloor> = \<lfloor>y\<rfloor>")
  case True
  assume "x \<le> y"
  then have "x - of_int \<lfloor>y\<rfloor> \<le> y - of_int \<lfloor>y\<rfloor>" by simp
  then show ?thesis by (simp add: round_even_def Let_def True)
next
  case False
  assume "x \<le> y"
  then have "\<lfloor>x\<rfloor> + 1 \<le> \<lfloor>y\<rfloor>" using False floor_mono [of x y] by linarith
  then show ?thesis using round_even_floor(2) [of x] round_even_floor(1) [of y] by linarith
qed

lemma dexp_mono:
  assumes "0 < x" and "x \<le> y"
  shows "dexp x \<le> dexp y"
proof -
  have "pow2 (dexp x) < pow2 (dexp y + 1)" using dexp_bound [of x] dexp_bound [of y] assms by linarith
  then show ?thesis by simp
qed

lemma pow2_52: "pow2 (e - 52) * 2 ^ 52 = pow2 e" "pow2 (e - 52) * 2 ^ 53 = pow2 (e + 1)"
proof -
  have p: "pow2 52 = 2 ^ 52" "pow2 53 = 2 ^ 53" by (simp_all add: pow2_def)
  have "e - 52 + 52 = e" "e - 52 + 53 = e + 1" by simp_all
  then show "pow2 (e - 52) * 2 ^ 52 = pow2 e" "pow2 (e - 52) * 2 ^ 53 = pow2 (e + 1)"
    unfolding p [symmetric] pow2_add [symmetric] by (simp_all only:)
qed

lemma dbl_pos_bound:
  assumes "0 < x"
  shows "pow2 (dexp x) \<le> dbl_pos x" and "dbl_pos x \<le> pow2 (dexp x + 1)"
proof -
  define u where "u = pow2 (dexp x - 52)"
  have u: "0 < u" "u * 2 ^ 52 = pow2 (dexp x)" "u * 2 ^ 53 = pow2 (dexp x + 1)" unfolding u_def pow2_52 by simp_all
  then have "of_int (2 ^ 52) \<le> x / u" "x / u \<le> of_int (2 ^ 53)"
    using dexp_bound [OF assms] by (simp_all add: field_simps)
  then have "round_even (of_int (2 ^ 52)) \<le> round_even (x / u)" "round_even (x / u) \<le> round_even (of_int (2 ^ 53))"
    by (simp_all only: round_even_mono)
  then have "of_int (2 ^ 52) \<le> (of_int (round_even (x / u)) :: rat)" "of_int (round_even (x / u)) \<le> (of_int (2 ^ 53) :: rat)"
    unfolding round_even_of_int by (simp_all only: of_int_le_iff)
  then have "(2 :: rat) ^ 52 \<le> of_int (round_even (x / u))" "of_int (round_even (x / u)) \<le> (2 :: rat) ^ 53"
    by (simp_all only: of_int_power of_int_numeral)
  then show "pow2 (dexp x) \<le> dbl_pos x" "dbl_pos x \<le> pow2 (dexp x + 1)"
    unfolding u(2,3) [symmetric] dbl_pos_def Let_def u_def [symmetric] using u(1) by (simp_all add: mult.commute)
qed

lemma dbl_pos_mono:
  assumes "0 < x" and "x \<le> y"
  shows "dbl_pos x \<le> dbl_pos y"
proof (cases "dexp x = dexp y")
  case True
  have "round_even (x / pow2 (dexp y - 52)) \<le> round_even (y / pow2 (dexp y - 52))"
    by (rule round_even_mono) (use assms(2) in \<open>simp add: divide_right_mono less_imp_le\<close>)
  then show ?thesis by (simp add: dbl_pos_def Let_def True less_imp_le mult_right_mono)
next
  case False
  then have "dexp x + 1 \<le> dexp y" using dexp_mono [OF assms] by simp
  then have "pow2 (dexp x + 1) \<le> pow2 (dexp y)" by simp
  then show ?thesis using dbl_pos_bound(2) [of x] dbl_pos_bound(1) [of y] assms by linarith
qed

lemma dbl_pos_pos: "0 < x \<Longrightarrow> 0 < dbl_pos x"
  using dbl_pos_bound(1) [of x] pow2_pos [of "dexp x"] by linarith

lemma dbl_mono: "x \<le> y \<Longrightarrow> dbl x \<le> dbl y"
  using dbl_pos_mono [of x y] dbl_pos_mono [of "- y" "- x"] dbl_pos_pos [of y] dbl_pos_pos [of "- x"]
  by (auto simp: dbl_def not_less)

lemma dbl_0 [simp]: "dbl 0 = 0"
  by (simp add: dbl_def)

lemma dbl_nonneg: "0 \<le> x \<Longrightarrow> 0 \<le> dbl x"
  using dbl_mono [of 0 x] by simp

text \<open>Numbers with a significand of at most 53 bits are not changed.\<close>

lemma dbl_exact:
  assumes "0 \<le> m" and "m \<le> 2 ^ 53"
  shows "dbl (of_int m * pow2 e) = of_int m * pow2 e"
proof (cases "m = 0")
  case False
  let ?x = "of_int m * pow2 e :: rat"
  have x: "0 < ?x" using False assms(1) by simp
  have "m < 2 ^ 54" using assms(2) by simp
  then have "(of_int m :: rat) < of_int (2 ^ 54)" by (simp only: of_int_less_iff)
  moreover have "pow2 54 = of_int (2 ^ 54)" by (simp add: pow2_def)
  ultimately have "of_int m < pow2 54" by (simp only:)
  then have "?x < pow2 e * pow2 54" by (simp add: mult.commute)
  then have "pow2 (dexp ?x) < pow2 (e + 54)"
    unfolding pow2_add by (rule le_less_trans [OF dexp_bound(1) [OF x]])
  then have k: "dexp ?x - 53 \<le> e" by simp
  define u where "u = pow2 (dexp ?x - 52)"
  have u: "0 < u" by (simp add: u_def)
  have "\<exists>n :: int. ?x / u = of_int n"
  proof (cases "dexp ?x - 52 \<le> e")
    case True
    define j where "j = nat (e - (dexp ?x - 52))"
    have "pow2 e = u * pow2 (int j)" using True by (simp add: j_def u_def flip: pow2_add)
    then have "?x / u = of_int (m * 2 ^ j)" using u by (simp add: pow2_nat)
    then show ?thesis by blast
  next
    case False
    then have e: "dexp ?x = e + 53" using k by simp
    then have "pow2 (e + 53) \<le> ?x" using dexp_bound(1) [OF x] by simp
    then have "pow2 53 \<le> (of_int m :: rat)" by (simp add: pow2_add)
    then have "(of_int (2 ^ 53) :: rat) \<le> of_int m" by (simp add: pow2_def)
    then have "m = 2 ^ 53" using assms(2) by (simp only: of_int_le_iff)
    moreover have "pow2 (e + 1) = pow2 e * 2" unfolding pow2_add by (simp add: pow2_def [of 1])
    moreover have "u = pow2 (e + 1)" unfolding u_def e by (rule arg_cong [of _ _ pow2]) simp
    ultimately have "?x / u = of_int (2 ^ 52)" by simp
    then show ?thesis by blast
  qed
  then obtain n :: int where "?x / u = of_int n" ..
  then have "of_int (round_even (?x / u)) = ?x / u" by (simp only: round_even_of_int)
  then have "of_int (round_even (?x / u)) * u = ?x" using u by simp
  then show ?thesis using x by (simp only: dbl_def dbl_pos_def Let_def u_def [symmetric]) simp
qed simp

lemma dexp_unique:
  assumes "pow2 k \<le> x" and "x < pow2 (k + 1)"
  shows "dexp x = k"
proof -
  have x: "0 < x" using assms(1) pow2_pos [of k] by linarith
  have "pow2 (dexp x) < pow2 (k + 1)" "pow2 k < pow2 (dexp x + 1)"
    using dexp_bound [OF x] assms by linarith+
  then show ?thesis by simp
qed

text \<open>Longer significands are rounded at their \<open>j\<close>-th bit.\<close>

definition round_div :: "int \<Rightarrow> nat \<Rightarrow> int" where
  "round_div t j =
    (let q = t div 2 ^ j; r = 2 * (t mod 2 ^ j)
     in if r < 2 ^ j then q else if 2 ^ j < r then q + 1 else if even q then q else q + 1)"

lemma round_even_div: "round_even (of_int t / 2 ^ j) = round_div t j"
proof -
  have f: "\<lfloor>(of_int t :: rat) / 2 ^ j\<rfloor> = t div 2 ^ j"
    using floor_divide_of_int_eq [of t "2 ^ j", where ?'a = rat] by simp
  have "(of_int t :: rat) = of_int (t div 2 ^ j * 2 ^ j + t mod 2 ^ j)" by (simp only: div_mult_mod_eq)
  then have "(of_int t :: rat) = of_int (t div 2 ^ j) * 2 ^ j + of_int (t mod 2 ^ j)"
    unfolding of_int_add of_int_mult of_int_power of_int_numeral .
  then have "(of_int t :: rat) / 2 ^ j - of_int (t div 2 ^ j) = of_int (t mod 2 ^ j) / 2 ^ j"
    by (simp add: field_simps)
  then have r: "(of_int t :: rat) / 2 ^ j - of_int (t div 2 ^ j) = of_int (2 * (t mod 2 ^ j)) / of_int (2 ^ j) / 2" by simp
  have c: "(of_int a :: rat) / of_int (2 ^ j) / 2 < 1 / 2 \<longleftrightarrow> a < 2 ^ j"
    "1 / 2 < (of_int a :: rat) / of_int (2 ^ j) / 2 \<longleftrightarrow> 2 ^ j < a" for a
    using of_int_less_iff [of a "2 ^ j", where ?'a = rat] of_int_less_iff [of "2 ^ j" a, where ?'a = rat]
    by (simp_all add: field_simps)
  show ?thesis unfolding round_even_def round_div_def Let_def f r c ..
qed

lemma dbl_round:
  assumes "2 ^ (52 + j) \<le> t" and "t < 2 ^ (53 + j)"
  shows "dbl (of_int t * pow2 e) = of_int (round_div t j) * pow2 (e + int j)"
proof -
  let ?x = "of_int t * pow2 e :: rat"
  have "of_int (2 ^ (52 + j)) \<le> (of_int t :: rat)" "(of_int t :: rat) < of_int (2 ^ (53 + j))"
    using assms by (simp_all only: of_int_le_iff of_int_less_iff)
  then have t: "pow2 (int (52 + j)) \<le> (of_int t :: rat)" "(of_int t :: rat) < pow2 (int (53 + j))"
    by (simp_all only: pow2_nat of_int_power of_int_numeral)
  then have "pow2 e * pow2 (int (52 + j)) \<le> ?x" "?x < pow2 e * pow2 (int (53 + j))"
    by (simp_all add: mult.commute)
  then have "dexp ?x = e + int (52 + j)" by (intro dexp_unique) (simp_all add: algebra_simps flip: pow2_add)
  then have d: "dexp ?x - 52 = e + int j" by simp
  have "0 < (of_int t :: rat)" by (rule less_le_trans [OF pow2_pos t(1)])
  then have "0 < ?x" by simp
  moreover have "?x / pow2 (e + int j) = of_int t / 2 ^ j" by (simp add: pow2_add pow2_nat)
  ultimately show ?thesis by (auto simp: dbl_def dbl_pos_def Let_def d round_even_div)
qed

lemma dbl_of_u64_mono: "v \<le> w \<Longrightarrow> dbl_of_u64 v \<le> dbl_of_u64 w"
  by (simp add: dbl_of_u64_def dbl_mono word_le_def del: of_int_uint)

lemma dbl_of_u64_nonneg [simp]: "0 \<le> dbl_of_u64 w"
  by (simp add: dbl_of_u64_def dbl_nonneg del: of_int_uint)

end
