(* ===== verification/Histogram.thy ===== *)
theory Histogram
  imports Doubles
begin

text \<open>
  Histograms of \<^verbatim>\<open>src/monitoring/histogram.cc\<close>: the mapping of values to buckets whose limits grow by a
  factor of about 1.5, and the counters of a histogram. All counters are 64-bit words that wrap around;
  doubles are those of \<open>Doubles\<close>. The relaxed atomic operations of one call are taken as one step, and a
  \<^verbatim>\<open>compare_exchange\<close> loop as the update it makes when no other thread interferes.
\<close>

section \<open>The bucket mapper\<close>

record HistogramBucketMapper =
  bucketValues :: "u64 list"
  valueIndexMap :: "(u64 \<times> u64) list"
  maxBucketValue :: u64
  minBucketValue :: u64

text \<open>\<^verbatim>\<open>while (bucketValues_.back() / 10 > 10)\<close>: the two leading digits and the power of ten.\<close>

function strip_digits :: "u64 \<Rightarrow> u64 \<Rightarrow> u64 \<times> u64" where
  "strip_digits b pow_of_ten =
    (if 10 < b div 10 then strip_digits (b div 10) (pow_of_ten * 10) else (b, pow_of_ten))"
  by pat_completeness auto
termination
proof (relation "measure (\<lambda>(b, _). unat b)")
  fix b p :: u64
  assume "10 < b div 10"
  then have "10 < unat b div 10" by (simp add: word_less_nat_alt unat_div)
  then show "((b div 10, p * 10), b, p) \<in> measure (\<lambda>(b, _). unat b)" by (simp add: unat_div)
qed simp

declare strip_digits.simps [simp del]

definition push_bucket :: "u64 \<Rightarrow> HistogramBucketMapper \<Rightarrow> HistogramBucketMapper" where
  "push_bucket v B =
    (let (b, pow_of_ten) = strip_digits v 1; b = b * pow_of_ten; vs = bucketValues B @ [b]
     in B\<lparr>bucketValues := vs, valueIndexMap := put_list b (of_nat (length vs - 1)) (valueIndexMap B)\<rparr>)"

text \<open>The loop of the constructor. \<^verbatim>\<open>static_cast<double>(port::kMaxUint64)\<close> is \<open>2 ^ 64\<close>.\<close>

partial_function (option) bucket_loop :: "rat \<Rightarrow> HistogramBucketMapper \<Rightarrow> HistogramBucketMapper option" where
  "bucket_loop bucket_val B =
    (let bucket_val = dbl (3 / 2 * bucket_val)
     in if bucket_val \<le> dbl_of_u64 (- 1)
        then bucket_loop bucket_val (push_bucket (of_int \<lfloor>bucket_val\<rfloor>) B)
        else Some B)"

definition new_HistogramBucketMapper :: "HistogramBucketMapper option" where
  "new_HistogramBucketMapper =
    do { B \<leftarrow> bucket_loop (dbl_of_u64 2)
               \<lparr>bucketValues = [1, 2], valueIndexMap = [(1, 0), (2, 1)], maxBucketValue = 0, minBucketValue = 0\<rparr>;
         Some (B\<lparr>maxBucketValue := last (bucketValues B), minBucketValue := hd (bucketValues B)\<rparr>) }"

text \<open>The global constant \<^verbatim>\<open>bucketMapper\<close>.\<close>

definition bucketMapper :: HistogramBucketMapper where
  "bucketMapper = the new_HistogramBucketMapper"

definition BucketCount :: "HistogramBucketMapper \<Rightarrow> nat" where
  "BucketCount B = length (bucketValues B)"

definition BucketLimit :: "HistogramBucketMapper \<Rightarrow> nat \<Rightarrow> u64 option" where
  "BucketLimit B b = (if b < BucketCount B then Some (bucketValues B ! b) else None)"

definition IndexForValue :: "HistogramBucketMapper \<Rightarrow> u64 \<Rightarrow> nat" where
  "IndexForValue B v =
    (if maxBucketValue B \<le> v then length (bucketValues B) - 1
     else if minBucketValue B \<le> v
     then (case find (\<lambda>p. v \<le> fst p) (valueIndexMap B) of Some p \<Rightarrow> unat (snd p) | None \<Rightarrow> 0)
     else 0)"

section \<open>The counters\<close>

record HistogramStat =
  h_min :: u64
  h_max :: u64
  h_num :: u64
  h_sum :: u64
  h_sum_squares :: u64
  h_buckets :: "u64 list"

text \<open>\<^verbatim>\<open>Clear\<close>, also run by the constructor, which asserts that there are 109 buckets.\<close>

definition hist_Clear :: "HistogramBucketMapper \<Rightarrow> HistogramStat" where
  "hist_Clear B =
    \<lparr>h_min = maxBucketValue B, h_max = 0, h_num = 0, h_sum = 0, h_sum_squares = 0,
     h_buckets = replicate (BucketCount B) 0\<rparr>"

definition new_HistogramStat :: "HistogramBucketMapper \<Rightarrow> HistogramStat option" where
  "new_HistogramStat B = (if BucketCount B = 109 then Some (hist_Clear B) else None)"

definition hist_Empty :: "HistogramStat \<Rightarrow> bool" where
  "hist_Empty h \<longleftrightarrow> h_num h = 0"

definition hist_Add :: "HistogramBucketMapper \<Rightarrow> u64 \<Rightarrow> HistogramStat \<Rightarrow> HistogramStat option" where
  "hist_Add B v h =
    (let i = IndexForValue B v
     in if i < length (h_buckets h)
        then Some (h\<lparr>h_buckets := (h_buckets h)[i := h_buckets h ! i + 1],
                     h_min := (if v < h_min h then v else h_min h),
                     h_max := (if h_max h < v then v else h_max h),
                     h_num := h_num h + 1, h_sum := h_sum h + v, h_sum_squares := h_sum_squares h + v * v\<rparr>)
        else None)"

definition hist_Merge :: "HistogramStat \<Rightarrow> HistogramStat \<Rightarrow> HistogramStat" where
  "hist_Merge h other =
    h\<lparr>h_min := (if h_min other < h_min h then h_min other else h_min h),
      h_max := (if h_max h < h_max other then h_max other else h_max h),
      h_num := h_num h + h_num other, h_sum := h_sum h + h_sum other,
      h_sum_squares := h_sum_squares h + h_sum_squares other,
      h_buckets := map2 (+) (h_buckets h) (h_buckets other)\<rparr>"

section \<open>Statistics of a histogram\<close>

text \<open>The value that \<^verbatim>\<open>Percentile\<close> interpolates in the bucket \<open>b\<close>, and the limit to the extreme values.\<close>

definition interpolate :: "HistogramBucketMapper \<Rightarrow> rat \<Rightarrow> nat \<Rightarrow> u64 \<Rightarrow> u64 \<Rightarrow> rat option" where
  "interpolate B threshold b bucket_value cumulative_sum =
    do { left_point \<leftarrow> (if b = 0 then Some 0 else BucketLimit B (b - 1));
         right_point \<leftarrow> BucketLimit B b;
         let left_sum = cumulative_sum - bucket_value;
         let diff = cumulative_sum - left_sum;
         let pos = (if diff \<noteq> 0 then dbl (dbl (threshold - dbl_of_u64 left_sum) / dbl_of_u64 diff) else 0);
         Some (dbl (dbl_of_u64 left_point + dbl (dbl_of_u64 (right_point - left_point) * pos))) }"

definition clamp :: "HistogramStat \<Rightarrow> rat \<Rightarrow> rat" where
  "clamp h r =
    (let r = (if r < dbl_of_u64 (h_min h) then dbl_of_u64 (h_min h) else r)
     in if dbl_of_u64 (h_max h) < r then dbl_of_u64 (h_max h) else r)"

text \<open>The loop of \<^verbatim>\<open>Percentile\<close> from the bucket \<open>b\<close> on.\<close>

fun percentile_loop ::
  "HistogramBucketMapper \<Rightarrow> HistogramStat \<Rightarrow> rat \<Rightarrow> nat \<Rightarrow> u64 \<Rightarrow> u64 list \<Rightarrow> rat option" where
  "percentile_loop B h threshold b cumulative_sum [] = Some (dbl_of_u64 (h_max h))"
| "percentile_loop B h threshold b cumulative_sum (v # vs) =
    (let cumulative_sum = cumulative_sum + v
     in if threshold \<le> dbl_of_u64 cumulative_sum
        then map_option (clamp h) (interpolate B threshold b v cumulative_sum)
        else percentile_loop B h threshold (b + 1) cumulative_sum vs)"

definition Percentile :: "HistogramBucketMapper \<Rightarrow> HistogramStat \<Rightarrow> rat \<Rightarrow> rat option" where
  "Percentile B h p =
    percentile_loop B h (dbl (dbl_of_u64 (h_num h) * dbl (p / 100))) 0 0 (h_buckets h)"

definition Median :: "HistogramBucketMapper \<Rightarrow> HistogramStat \<Rightarrow> rat option" where
  "Median B h = Percentile B h 50"

definition Average :: "HistogramStat \<Rightarrow> rat" where
  "Average h = (if h_num h = 0 then 0 else dbl (dbl_of_u64 (h_sum h) / dbl_of_u64 (h_num h)))"

definition StandardDeviation :: "HistogramStat \<Rightarrow> rat" where
  "StandardDeviation h =
    (if h_num h = 0 then 0
     else dbl_sqrt (dbl (dbl_of_u64 (h_sum_squares h * h_num h - h_sum h * h_sum h) /
                         dbl_of_u64 (h_num h * h_num h))))"

record HistogramData =
  hd_median :: rat
  hd_percentile95 :: rat
  hd_percentile99 :: rat
  hd_average :: rat
  hd_standard_deviation :: rat
  hd_max :: rat

definition hist_Data :: "HistogramBucketMapper \<Rightarrow> HistogramStat \<Rightarrow> HistogramData option" where
  "hist_Data B h =
    do { m \<leftarrow> Median B h; p95 \<leftarrow> Percentile B h 95; p99 \<leftarrow> Percentile B h 99;
         Some \<lparr>hd_median = m, hd_percentile95 = p95, hd_percentile99 = p99, hd_average = Average h,
               hd_standard_deviation = StandardDeviation h, hd_max = dbl_of_u64 (h_max h)\<rparr> }"

section \<open>The histogram object\<close>

text \<open>\<^verbatim>\<open>HistogramImpl\<close> is a \<^verbatim>\<open>HistogramStat\<close> with a lock, to which its members delegate. Only \<^verbatim>\<open>Merge\<close> of the interface does
  more: it compares the names of the classes, does nothing when they differ, and otherwise casts the argument,
  a cast that is checked. Subclasses other than \<^verbatim>\<open>HistogramImpl\<close> are known by their name.\<close>

datatype histogram = HistogramImpl HistogramStat | OtherHistogram string

fun hist_Name :: "histogram \<Rightarrow> string" where
  "hist_Name (HistogramImpl _) = ''HistogramImpl''"
| "hist_Name (OtherHistogram name) = name"

definition impl_Merge :: "histogram \<Rightarrow> HistogramStat \<Rightarrow> HistogramStat option" where
  "impl_Merge other h =
     (if hist_Name other = ''HistogramImpl''
      then case other of HistogramImpl s \<Rightarrow> Some (hist_Merge h s) | OtherHistogram _ \<Rightarrow> None
      else Some h)"

end
