(* ===== verification/Statistics.thy ===== *)
theory Statistics
  imports Histogram RandomGen
begin

text \<open>
  The counters of \<^verbatim>\<open>src/monitoring/statistics.cc\<close>, which are kept once per processor core in the array of
  \<^verbatim>\<open>src/util/core_local.h\<close>. Every access through \<^verbatim>\<open>Access()\<close> may go to another core, so the number of the
  processor is an argument: \<open>cpu d\<close> is what \<^verbatim>\<open>port::PhysicalCoreID()\<close> returns to the object at depth \<open>d\<close> of the chain
  of statistics that updates are forwarded to. A failing assertion is \<open>None\<close>.
\<close>

section \<open>Arrays with one element per core\<close>

text \<open>\<^verbatim>\<open>PhysicalCoreID\<close> of \<^verbatim>\<open>src/port/port_posix.cc\<close> on x86; the argument is the register \<^verbatim>\<open>ebx\<close> that \<^verbatim>\<open>cpuid\<close> leaves, if the
  instruction is supported.\<close>

definition PhysicalCoreID :: "u32 option \<Rightarrow> int" where
  "PhysicalCoreID ebx = (case ebx of None \<Rightarrow> - 1 | Some w \<Rightarrow> uint (drop_bit 24 w))"

record 'a CoreLocalArray =
  cl_data :: "'a list"
  size_shift :: nat

text \<open>The loop of the constructor; \<^verbatim>\<open>1 << 31\<close> is not a value of type \<^verbatim>\<open>int\<close>.\<close>

function shift_loop :: "int \<Rightarrow> nat \<Rightarrow> nat option" where
  "shift_loop num_cpus s =
    (if 31 \<le> s then None else if 2 ^ s < num_cpus then shift_loop num_cpus (s + 1) else Some s)"
  by pat_completeness auto
termination by (relation "measure (\<lambda>(_, s). 31 - s)") auto

declare shift_loop.simps [simp del]

definition new_CoreLocalArray :: "int \<Rightarrow> 'a \<Rightarrow> 'a CoreLocalArray option" where
  "new_CoreLocalArray num_cpus d =
    do { s \<leftarrow> shift_loop num_cpus 3; Some \<lparr>cl_data = replicate (2 ^ s) d, size_shift = s\<rparr> }"

definition cl_Size :: "'a CoreLocalArray \<Rightarrow> nat" where
  "cl_Size c = 2 ^ size_shift c"

definition AccessAtCore :: "'a CoreLocalArray \<Rightarrow> nat \<Rightarrow> 'a option" where
  "AccessAtCore c core_idx = (if core_idx < 2 ^ size_shift c then Some (cl_data c ! core_idx) else None)"

text \<open>The core index that \<^verbatim>\<open>Access\<close> uses. Without a processor number it is drawn from the generator of the thread.\<close>

definition AccessIndex ::
  "int \<Rightarrow> u64 \<Rightarrow> Random option \<Rightarrow> 'a CoreLocalArray \<Rightarrow> (nat \<times> Random option) option" where
  "AccessIndex cpuid thread_hash tls c =
    do { (i, tls) \<leftarrow>
           (if cpuid < 0
            then let (r, _) = GetTLSInstance thread_hash tls
                 in do { (x, r) \<leftarrow> Random_Uniform (push_bit (size_shift c) 1) r; Some (unat x, Some r) }
            else Some (nat (cpuid AND (2 ^ size_shift c - 1)), tls));
         if i < 2 ^ size_shift c then Some (i, tls) else None }"

definition update_core :: "nat \<Rightarrow> ('a \<Rightarrow> 'a) \<Rightarrow> 'a CoreLocalArray \<Rightarrow> 'a CoreLocalArray" where
  "update_core i f c = c\<lparr>cl_data := (cl_data c)[i := f (cl_data c ! i)]\<rparr>"

section \<open>State\<close>

datatype Tickers = LOG_APPENDS | LOG_READS | LOG_READS_FILLED | LOG_READS_UNWRITTEN | LOG_READ_CACHE_HIT
  | NODE_CACHE_HIT | NODE_CACHE_NODES_READ | NODE_CACHE_FETCHES | NODE_CACHE_FREE | BYTES_WRITTEN | BYTES_READ

fun ticker_id :: "Tickers \<Rightarrow> nat" where
  "ticker_id LOG_APPENDS = 0"
| "ticker_id LOG_READS = 1"
| "ticker_id LOG_READS_FILLED = 2"
| "ticker_id LOG_READS_UNWRITTEN = 3"
| "ticker_id LOG_READ_CACHE_HIT = 4"
| "ticker_id NODE_CACHE_HIT = 5"
| "ticker_id NODE_CACHE_NODES_READ = 6"
| "ticker_id NODE_CACHE_FETCHES = 7"
| "ticker_id NODE_CACHE_FREE = 8"
| "ticker_id BYTES_WRITTEN = 9"
| "ticker_id BYTES_READ = 10"

definition TICKER_ENUM_MAX :: nat where
  "TICKER_ENUM_MAX = 11"

definition INTERNAL_TICKER_ENUM_MAX :: nat where
  "INTERNAL_TICKER_ENUM_MAX = TICKER_ENUM_MAX + 1"

definition HISTOGRAM_ENUM_MAX :: nat where
  "HISTOGRAM_ENUM_MAX = 0"

definition INTERNAL_HISTOGRAM_ENUM_MAX :: nat where
  "INTERNAL_HISTOGRAM_ENUM_MAX = HISTOGRAM_ENUM_MAX + 1"

record StatisticsData =
  tickers :: "u64 list"
  histograms :: "HistogramStat list"

text \<open>The member \<^verbatim>\<open>stats_\<close>, to which updates are forwarded, may be null.\<close>

datatype StatisticsImpl =
  StatisticsImpl (stats_fwd: "StatisticsImpl option") (enable_internal_stats: bool)
    (per_core_stats: "StatisticsData CoreLocalArray")

definition new_StatisticsData :: StatisticsData where
  "new_StatisticsData =
    \<lparr>tickers = replicate INTERNAL_TICKER_ENUM_MAX 0,
     histograms = replicate INTERNAL_HISTOGRAM_ENUM_MAX (hist_Clear bucketMapper)\<rparr>"

definition new_StatisticsImpl :: "int \<Rightarrow> StatisticsImpl option \<Rightarrow> bool \<Rightarrow> StatisticsImpl option" where
  "new_StatisticsImpl num_cpus st internal =
    do { c \<leftarrow> new_CoreLocalArray num_cpus new_StatisticsData; Some (StatisticsImpl st internal c) }"

definition CreateDBStatistics :: "int \<Rightarrow> StatisticsImpl option" where
  "CreateDBStatistics num_cpus = new_StatisticsImpl num_cpus None False"

definition ticker_ok :: "bool \<Rightarrow> nat \<Rightarrow> bool" where
  "ticker_ok internal t \<longleftrightarrow> (if internal then t < INTERNAL_TICKER_ENUM_MAX else t < TICKER_ENUM_MAX)"

definition histogram_ok :: "bool \<Rightarrow> nat \<Rightarrow> bool" where
  "histogram_ok internal t \<longleftrightarrow> (if internal then t < INTERNAL_HISTOGRAM_ENUM_MAX else t < HISTOGRAM_ENUM_MAX)"

section \<open>Tickers\<close>

text \<open>The atomic accesses to the ticker \<open>t\<close> of one core: read, \<^verbatim>\<open>fetch_add\<close> and \<^verbatim>\<open>exchange\<close>.\<close>

definition ticker_load :: "nat \<Rightarrow> nat \<Rightarrow> StatisticsData CoreLocalArray \<Rightarrow> u64" where
  "ticker_load t i c = tickers (cl_data c ! i) ! t"

definition ticker_add :: "nat \<Rightarrow> u64 \<Rightarrow> nat \<Rightarrow> StatisticsData CoreLocalArray \<Rightarrow> StatisticsData CoreLocalArray" where
  "ticker_add t count i c =
    update_core i (\<lambda>d. d\<lparr>tickers := (tickers d)[t := tickers d ! t + count]\<rparr>) c"

definition ticker_exchange ::
  "nat \<Rightarrow> u64 \<Rightarrow> nat \<Rightarrow> StatisticsData CoreLocalArray \<Rightarrow> u64 \<times> StatisticsData CoreLocalArray" where
  "ticker_exchange t v i c =
    (ticker_load t i c, update_core i (\<lambda>d. d\<lparr>tickers := (tickers d)[t := v]\<rparr>) c)"

definition getTickerCount :: "nat \<Rightarrow> StatisticsImpl \<Rightarrow> u64 option" where
  "getTickerCount t s =
    (if ticker_ok (enable_internal_stats s) t
     then Some (fold (\<lambda>i res. res + ticker_load t i (per_core_stats s)) [0..<cl_Size (per_core_stats s)] 0)
     else None)"

definition setTickerCountLocked ::
  "bool \<Rightarrow> nat \<Rightarrow> u64 \<Rightarrow> StatisticsData CoreLocalArray \<Rightarrow> StatisticsData CoreLocalArray option" where
  "setTickerCountLocked internal t count c =
    (if ticker_ok internal t
     then Some (fold (\<lambda>i c. snd (ticker_exchange t (if i = 0 then count else 0) i c)) [0..<cl_Size c] c)
     else None)"

fun setTickerCount :: "nat \<Rightarrow> u64 \<Rightarrow> StatisticsImpl \<Rightarrow> StatisticsImpl option" where
  "setTickerCount t count (StatisticsImpl st internal c) =
    do { c \<leftarrow> setTickerCountLocked internal t count c;
         case st of
           None \<Rightarrow> Some (StatisticsImpl None internal c)
         | Some s \<Rightarrow>
             if t < TICKER_ENUM_MAX
             then do { s \<leftarrow> setTickerCount t count s; Some (StatisticsImpl (Some s) internal c) }
             else Some (StatisticsImpl (Some s) internal c) }"

definition reset_core ::
  "nat \<Rightarrow> nat \<Rightarrow> u64 \<times> StatisticsData CoreLocalArray \<Rightarrow> u64 \<times> StatisticsData CoreLocalArray" where
  "reset_core t i = (\<lambda>(sum, c). let (old, c) = ticker_exchange t 0 i c in (sum + old, c))"

definition getAndResetTickerCount :: "nat \<Rightarrow> StatisticsImpl \<Rightarrow> (u64 \<times> StatisticsImpl) option" where
  "getAndResetTickerCount t s =
    (case s of StatisticsImpl st internal c \<Rightarrow>
       if ticker_ok internal t
       then let (sum, c) = fold (reset_core t) [0..<cl_Size c] (0, c)
            in case st of
                 None \<Rightarrow> Some (sum, StatisticsImpl None internal c)
               | Some s \<Rightarrow>
                   if t < TICKER_ENUM_MAX
                   then do { s \<leftarrow> setTickerCount t 0 s; Some (sum, StatisticsImpl (Some s) internal c) }
                   else Some (sum, StatisticsImpl (Some s) internal c)
       else None)"

fun recordTick ::
  "(nat \<Rightarrow> int) \<Rightarrow> u64 \<Rightarrow> nat \<Rightarrow> u64 \<Rightarrow> Random option \<Rightarrow> StatisticsImpl \<Rightarrow> (Random option \<times> StatisticsImpl) option" where
  "recordTick cpu thread_hash t count tls (StatisticsImpl st internal c) =
    (if ticker_ok internal t
     then do { (i, tls) \<leftarrow> AccessIndex (cpu 0) thread_hash tls c;
               let c = ticker_add t count i c;
               case st of
                 None \<Rightarrow> Some (tls, StatisticsImpl None internal c)
               | Some s \<Rightarrow>
                   if t < TICKER_ENUM_MAX
                   then do { (tls, s) \<leftarrow> recordTick (\<lambda>d. cpu (d + 1)) thread_hash t count tls s;
                             Some (tls, StatisticsImpl (Some s) internal c) }
                   else Some (tls, StatisticsImpl (Some s) internal c) }
     else None)"

section \<open>Histograms\<close>

fun measureTime ::
  "(nat \<Rightarrow> int) \<Rightarrow> u64 \<Rightarrow> nat \<Rightarrow> u64 \<Rightarrow> Random option \<Rightarrow> StatisticsImpl \<Rightarrow> (Random option \<times> StatisticsImpl) option" where
  "measureTime cpu thread_hash t v tls (StatisticsImpl st internal c) =
    (if histogram_ok internal t
     then do { (i, tls) \<leftarrow> AccessIndex (cpu 0) thread_hash tls c;
               h \<leftarrow> hist_Add bucketMapper v (histograms (cl_data c ! i) ! t);
               let c = update_core i (\<lambda>d. d\<lparr>histograms := (histograms d)[t := h]\<rparr>) c;
               case st of
                 None \<Rightarrow> Some (tls, StatisticsImpl None internal c)
               | Some s \<Rightarrow>
                   if t < HISTOGRAM_ENUM_MAX
                   then do { (tls, s) \<leftarrow> measureTime (\<lambda>d. cpu (d + 1)) thread_hash t v tls s;
                             Some (tls, StatisticsImpl (Some s) internal c) }
                   else Some (tls, StatisticsImpl (Some s) internal c) }
     else None)"

definition getHistogramImplLocked :: "nat \<Rightarrow> StatisticsImpl \<Rightarrow> HistogramStat option" where
  "getHistogramImplLocked t s =
    (if histogram_ok (enable_internal_stats s) t
     then Some (fold (\<lambda>i h. hist_Merge h (histograms (cl_data (per_core_stats s) ! i) ! t))
                  [0..<cl_Size (per_core_stats s)] (hist_Clear bucketMapper))
     else None)"

definition histogramData :: "nat \<Rightarrow> StatisticsImpl \<Rightarrow> HistogramData option" where
  "histogramData t s = do { h \<leftarrow> getHistogramImplLocked t s; hist_Data bucketMapper h }"

definition HistEnabledForType :: "nat \<Rightarrow> StatisticsImpl \<Rightarrow> bool" where
  "HistEnabledForType t s \<longleftrightarrow> (if \<not> enable_internal_stats s then t < HISTOGRAM_ENUM_MAX else True)"

text \<open>\<^verbatim>\<open>Reset\<close>, which does not forward.\<close>

definition clear_histogram :: "nat \<Rightarrow> StatisticsData CoreLocalArray \<Rightarrow> StatisticsData CoreLocalArray" where
  "clear_histogram t c =
    fold (\<lambda>i. update_core i (\<lambda>d. d\<lparr>histograms := (histograms d)[t := hist_Clear bucketMapper]\<rparr>)) [0..<cl_Size c] c"

definition stats_Reset :: "StatisticsImpl \<Rightarrow> StatisticsImpl option" where
  "stats_Reset s =
    do { c \<leftarrow> fold (\<lambda>t c. Option.bind c (setTickerCountLocked (enable_internal_stats s) t 0))
               [0..<TICKER_ENUM_MAX] (Some (per_core_stats s));
         let c = fold clear_histogram [0..<HISTOGRAM_ENUM_MAX] c;
         Some (StatisticsImpl (stats_fwd s) (enable_internal_stats s) c) }"

end
