(* ===== verification/StatisticsProps.thy ===== *)
theory StatisticsProps
  imports Statistics HistogramProps
begin

text \<open>
  The tickers of all cores together behave as one counter per ticker, whatever cores the updates go to;
  reading and resetting the cores one after the other while other threads add loses no update.
\<close>

section \<open>Core indices\<close>

lemma shift_loop_finds:
  assumes "n \<le> 2 ^ 30" and "s \<le> 30"
  shows "\<exists>k. shift_loop n s = Some k \<and> s \<le> k \<and> k \<le> 30 \<and> n \<le> 2 ^ k \<and> (k = s \<or> 2 ^ (k - 1) < n)"
  using assms
proof (induction n s rule: shift_loop.induct)
  case (1 n s)
  show ?case
  proof (cases "2 ^ s < n")
    case True
    have "s + 1 \<le> 30"
    proof (rule ccontr)
      assume "\<not> s + 1 \<le> 30"
      then have "s = 30" using 1(3) by simp
      then show False using True 1(2) by simp
    qed
    then obtain k where "shift_loop n (s + 1) = Some k" "s + 1 \<le> k" "k \<le> 30" "n \<le> 2 ^ k" "k = s + 1 \<or> 2 ^ (k - 1) < n"
      using 1 True by auto
    then show ?thesis using True 1(3) by (subst shift_loop.simps) auto
  next
    case False
    then show ?thesis using 1(3) by (subst shift_loop.simps) auto
  qed
qed

definition core_inv :: "StatisticsData CoreLocalArray \<Rightarrow> bool" where
  "core_inv c \<longleftrightarrow> length (cl_data c) = 2 ^ size_shift c \<and> size_shift c \<le> 30 \<and>
     (\<forall>d \<in> set (cl_data c). length (tickers d) = INTERNAL_TICKER_ENUM_MAX \<and>
        length (histograms d) = INTERNAL_HISTOGRAM_ENUM_MAX)"

lemma AccessIndex_bound:
  assumes "size_shift c \<le> 30"
  shows "\<exists>i tls'. AccessIndex cpuid th tls c = Some (i, tls') \<and> i < 2 ^ size_shift c"
proof (cases "cpuid < 0")
  case True
  let ?n = "push_bit (size_shift c) 1 :: u32"
  have n: "unat ?n = 2 ^ size_shift c"
  proof -
    have "(2 :: nat) ^ size_shift c < 2 ^ 32" using assms by (intro power_strict_increasing) simp_all
    then have "unat (of_nat (2 ^ size_shift c) :: u32) = 2 ^ size_shift c" by (simp only: unat_of_nat) simp
    then show ?thesis by (simp add: push_bit_eq_mult)
  qed
  then have nz: "?n \<noteq> 0" by (metis power_not_zero unat_0 zero_neq_numeral)
  obtain r r' where r: "GetTLSInstance th tls = (r, r')" by fastforce
  have "unat (fst (Random_Next r) mod ?n) < 2 ^ size_shift c"
    unfolding unat_mod n by simp
  then show ?thesis
    using True nz r by (simp add: AccessIndex_def Random_Uniform_def Let_def case_prod_beta)
next
  case False
  have "nat (cpuid AND (2 ^ size_shift c - 1)) < 2 ^ size_shift c"
  proof -
    have "cpuid AND (2 ^ size_shift c - 1) = take_bit (size_shift c) cpuid"
      by (simp add: take_bit_eq_mask mask_eq_exp_minus_1)
    then have "cpuid AND (2 ^ size_shift c - 1) < 2 ^ size_shift c" by simp
    then show ?thesis by (simp add: nat_less_iff)
  qed
  then show ?thesis using False by (simp add: AccessIndex_def)
qed

section \<open>Sums over the cores\<close>

definition ticker_total :: "nat \<Rightarrow> StatisticsData CoreLocalArray \<Rightarrow> u64" where
  "ticker_total t c = (\<Sum>d \<leftarrow> cl_data c. tickers d ! t)"

lemma sum_list_update:
  "i < length xs \<Longrightarrow> (\<Sum>x \<leftarrow> xs[i := y]. f x) = (\<Sum>x \<leftarrow> xs. f x) - f (xs ! i) + (f y :: 'a :: ab_group_add)"
  by (induction xs arbitrary: i) (auto split: nat.splits simp: algebra_simps)

lemma fold_add_sum: "fold (\<lambda>i res. res + f i) is a = a + (\<Sum>i \<leftarrow> is. (f i :: 'a :: comm_monoid_add))"
  by (induction "is" arbitrary: a) (simp_all add: ac_simps)

lemma getTickerCount_total:
  assumes "core_inv (per_core_stats s)" and "t < TICKER_ENUM_MAX"
  shows "getTickerCount t s = Some (ticker_total t (per_core_stats s))"
proof -
  let ?c = "per_core_stats s"
  have "map (\<lambda>i. ticker_load t i ?c) [0..<cl_Size ?c] = map (\<lambda>d. tickers d ! t) (map (\<lambda>i. cl_data ?c ! i) [0..<length (cl_data ?c)])"
    using assms(1) by (simp add: ticker_load_def cl_Size_def core_inv_def)
  then have "(\<Sum>i \<leftarrow> [0..<cl_Size ?c]. ticker_load t i ?c) = ticker_total t ?c" by (simp add: ticker_total_def map_nth)
  then show ?thesis
    using assms(2) by (simp add: getTickerCount_def ticker_ok_def INTERNAL_TICKER_ENUM_MAX_def fold_add_sum)
qed

text \<open>Writing one ticker of one core.\<close>

lemma write_ticker:
  fixes f :: "StatisticsData \<Rightarrow> u64"
  assumes c: "core_inv c" and i: "i < cl_Size c" and t: "t < TICKER_ENUM_MAX"
  defines "c' \<equiv> update_core i (\<lambda>d. d\<lparr>tickers := (tickers d)[t := f d]\<rparr>) c"
  shows "core_inv c'" "cl_Size c' = cl_Size c"
    "ticker_total u c' = (if u = t then ticker_total t c - ticker_load t i c + f (cl_data c ! i) else ticker_total u c)"
    "ticker_load t j c' = (if j = i then f (cl_data c ! i) else ticker_load t j c)"
proof -
  have len: "i < length (cl_data c)" and m: "cl_data c ! i \<in> set (cl_data c)" using c i by (simp_all add: core_inv_def cl_Size_def)
  then have "length (tickers (cl_data c ! i)) = INTERNAL_TICKER_ENUM_MAX" using c by (simp add: core_inv_def)
  then have lt: "t < length (tickers (cl_data c ! i))" using t by (simp add: INTERNAL_TICKER_ENUM_MAX_def)
  show "core_inv c'" using c m unfolding core_inv_def c'_def update_core_def
    by (auto dest!: set_update_subset_insert [THEN subsetD])
  show "cl_Size c' = cl_Size c" by (simp add: cl_Size_def c'_def update_core_def)
  show "ticker_total u c' = (if u = t then ticker_total t c - ticker_load t i c + f (cl_data c ! i) else ticker_total u c)"
    using lt len by (auto simp: ticker_total_def c'_def update_core_def sum_list_update ticker_load_def nth_list_update)
  show "ticker_load t j c' = (if j = i then f (cl_data c ! i) else ticker_load t j c)"
    using lt len by (auto simp: ticker_load_def c'_def update_core_def)
qed

lemma ticker_add_total:
  assumes "core_inv c" and "i < cl_Size c" and "t < TICKER_ENUM_MAX"
  shows "core_inv (ticker_add t n i c)" "cl_Size (ticker_add t n i c) = cl_Size c"
    "ticker_total u (ticker_add t n i c) = (if u = t then ticker_total t c + n else ticker_total u c)"
  using write_ticker [OF assms, where f = "\<lambda>d. tickers d ! t + n"] unfolding ticker_add_def
  by (simp_all add: ticker_load_def)

lemma ticker_exchange_total:
  assumes "core_inv c" and "i < cl_Size c" and "t < TICKER_ENUM_MAX" and "ticker_exchange t v i c = (old, c')"
  shows "core_inv c'" "cl_Size c' = cl_Size c" "old = ticker_load t i c"
    "ticker_total u c' = (if u = t then ticker_total t c - old + v else ticker_total u c)"
    "ticker_load t j c' = (if j = i then v else ticker_load t j c)"
  using write_ticker [OF assms(1-3), where f = "\<lambda>_. v"] assms(4) unfolding ticker_exchange_def by auto

lemma total_zero:
  assumes "core_inv c" and "\<And>i. i < cl_Size c \<Longrightarrow> ticker_load t i c = (if i = 0 then v else 0)"
  shows "ticker_total t c = v"
proof -
  have "map (\<lambda>d. tickers d ! t) (cl_data c) = map (\<lambda>i. ticker_load t i c) [0..<cl_Size c]"
    using assms(1) by (simp add: core_inv_def cl_Size_def ticker_load_def list_eq_iff_nth_eq)
  also have "\<dots> = map (\<lambda>i. if i = 0 then v else 0) [0..<cl_Size c]" using assms(2) by simp
  also have "[0..<cl_Size c] = 0 # [1..<cl_Size c]" by (simp add: upt_conv_Cons cl_Size_def)
  also have "map (\<lambda>i. if i = 0 then v else 0) (0 # [1..<cl_Size c]) = v # map (\<lambda>_. 0) [1..<cl_Size c]" by simp
  finally show ?thesis by (simp add: ticker_total_def)
qed

lemma setTickerCountLocked_total:
  assumes c: "core_inv c" and t: "t < TICKER_ENUM_MAX"
  obtains c' where "setTickerCountLocked internal t v c = Some c'" "core_inv c'" "cl_Size c' = cl_Size c"
    "\<forall>u. ticker_total u c' = (if u = t then v else ticker_total u c)"
proof -
  let ?step = "\<lambda>i c. snd (ticker_exchange t (if i = 0 then v else 0) i c)"
  have "core_inv (fold ?step [0..<n] c) \<and> cl_Size (fold ?step [0..<n] c) = cl_Size c \<and>
      (\<forall>u. u \<noteq> t \<longrightarrow> ticker_total u (fold ?step [0..<n] c) = ticker_total u c) \<and>
      (\<forall>i < n. ticker_load t i (fold ?step [0..<n] c) = (if i = 0 then v else 0))" if "n \<le> cl_Size c" for n
    using that
  proof (induction n)
    case (Suc n)
    let ?d = "fold ?step [0..<n] c"
    obtain old d' where x: "ticker_exchange t (if n = 0 then v else 0) n ?d = (old, d')" by fastforce
    have "core_inv ?d" "n < cl_Size ?d" using Suc by simp_all
    note e = ticker_exchange_total [OF this t x]
    have "fold ?step [0..<Suc n] c = d'" using x by simp
    then show ?case using Suc e by (auto simp: less_Suc_eq)
  qed (use c in simp)
  from this [of "cl_Size c"] have f: "core_inv (fold ?step [0..<cl_Size c] c)" "cl_Size (fold ?step [0..<cl_Size c] c) = cl_Size c"
    "\<forall>u. u \<noteq> t \<longrightarrow> ticker_total u (fold ?step [0..<cl_Size c] c) = ticker_total u c"
    "\<forall>i < cl_Size c. ticker_load t i (fold ?step [0..<cl_Size c] c) = (if i = 0 then v else 0)" by auto
  have "ticker_total t (fold ?step [0..<cl_Size c] c) = v" by (rule total_zero [OF f(1)]) (use f in auto)
  then show thesis
    using that [OF _ f(1,2)] f(3) t by (auto simp: setTickerCountLocked_def ticker_ok_def INTERNAL_TICKER_ENUM_MAX_def)
qed

lemma reset_cores:
  assumes c: "core_inv c" and t: "t < TICKER_ENUM_MAX"
  obtains c' where "fold (reset_core t) [0..<cl_Size c] (0, c) = (ticker_total t c, c')" "core_inv c'" "cl_Size c' = cl_Size c"
    "\<forall>u. ticker_total u c' = (if u = t then 0 else ticker_total u c)"
proof -
  have "\<exists>a d. fold (reset_core t) [0..<n] (0, c) = (a, d) \<and> core_inv d \<and> cl_Size d = cl_Size c \<and>
      (\<forall>u. u \<noteq> t \<longrightarrow> ticker_total u d = ticker_total u c) \<and> (\<forall>i < n. ticker_load t i d = 0) \<and> a + ticker_total t d = ticker_total t c"
    if "n \<le> cl_Size c" for n
    using that
  proof (induction n)
    case (Suc n)
    then obtain a d where IH: "fold (reset_core t) [0..<n] (0, c) = (a, d)" "core_inv d" "cl_Size d = cl_Size c"
      "\<forall>u. u \<noteq> t \<longrightarrow> ticker_total u d = ticker_total u c" "\<forall>i < n. ticker_load t i d = 0" "a + ticker_total t d = ticker_total t c" by auto
    obtain old d' where x: "ticker_exchange t 0 n d = (old, d')" by fastforce
    have "n < cl_Size d" using IH(3) Suc.prems by simp
    note e = ticker_exchange_total [OF IH(2) this t x]
    have "fold (reset_core t) [0..<Suc n] (0, c) = (a + old, d')" using IH(1) x by (simp add: reset_core_def)
    moreover have "a + old + ticker_total t d' = ticker_total t c" using e(4) [of t] IH(6) by simp
    ultimately show ?case using IH e by (auto simp: less_Suc_eq)
  qed (use c in simp)
  then obtain a d where f: "fold (reset_core t) [0..<cl_Size c] (0, c) = (a, d)" "core_inv d" "cl_Size d = cl_Size c"
    "\<forall>u. u \<noteq> t \<longrightarrow> ticker_total u d = ticker_total u c" "\<forall>i < cl_Size c. ticker_load t i d = 0" "a + ticker_total t d = ticker_total t c" by blast
  have "ticker_total t d = 0" by (rule total_zero [OF f(2)]) (use f(3,5) in auto)
  then show thesis using that [OF _ f(2,3)] f by auto
qed

section \<open>The counters\<close>

text \<open>The counts of a ticker in the statistics and in those that it forwards to.\<close>

fun counts :: "nat \<Rightarrow> StatisticsImpl \<Rightarrow> u64 list" where
  "counts t (StatisticsImpl st internal c) = ticker_total t c # (case st of None \<Rightarrow> [] | Some s \<Rightarrow> counts t s)"

fun stats_inv :: "StatisticsImpl \<Rightarrow> bool" where
  "stats_inv (StatisticsImpl st internal c) \<longleftrightarrow> core_inv c \<and> (case st of None \<Rightarrow> True | Some s \<Rightarrow> stats_inv s)"

lemma ticker_ok_max [simp]: "t < TICKER_ENUM_MAX \<Longrightarrow> ticker_ok internal t"
  by (simp add: ticker_ok_def INTERNAL_TICKER_ENUM_MAX_def)

lemma new_stats:
  assumes "num_cpus \<le> 2 ^ 30"
  obtains s where "CreateDBStatistics num_cpus = Some s" "stats_inv s" "\<forall>t < TICKER_ENUM_MAX. counts t s = [0]"
    "num_cpus \<le> int (cl_Size (per_core_stats s))" "8 \<le> cl_Size (per_core_stats s)" "stats_fwd s = None"
proof -
  obtain k where k: "shift_loop num_cpus 3 = Some k" "3 \<le> k" "k \<le> 30" "num_cpus \<le> 2 ^ k"
    using shift_loop_finds [OF assms, of 3] by auto
  let ?c = "\<lparr>cl_data = replicate (2 ^ k) new_StatisticsData, size_shift = k\<rparr>"
  have "core_inv ?c" using k(3) by (simp add: core_inv_def new_StatisticsData_def)
  moreover have "ticker_total t ?c = 0" if "t < TICKER_ENUM_MAX" for t
  proof -
    have "t < INTERNAL_TICKER_ENUM_MAX" using that by (simp add: INTERNAL_TICKER_ENUM_MAX_def)
    then have "tickers new_StatisticsData ! t = 0" by (simp add: new_StatisticsData_def)
    then show ?thesis by (simp add: ticker_total_def sum_list_replicate)
  qed
  moreover have "(2 :: nat) ^ 3 \<le> 2 ^ k" using k(2) by (rule power_increasing) simp
  ultimately show thesis
    using that [of "StatisticsImpl None False ?c"] k
    by (simp add: CreateDBStatistics_def new_StatisticsImpl_def new_CoreLocalArray_def cl_Size_def)
qed

lemma recordTick_counts:
  assumes "stats_inv s" and "t < TICKER_ENUM_MAX"
  shows "\<exists>tls' s'. recordTick cpu th t n tls s = Some (tls', s') \<and> stats_inv s' \<and>
    (\<forall>u. counts u s' = (if u = t then map (\<lambda>x. x + n) (counts u s) else counts u s))"
  using assms
proof (induction cpu th t n tls s rule: recordTick.induct)
  case (1 cpu th t n tls st internal c)
  have c: "core_inv c" using 1(2) by simp
  obtain i tls1 where i: "AccessIndex (cpu 0) th tls c = Some (i, tls1)" "i < cl_Size c"
    using AccessIndex_bound [of c "cpu 0" th tls] c by (auto simp: core_inv_def cl_Size_def)
  note a = ticker_add_total [OF c i(2) 1(3), where n = n]
  show ?case
  proof (cases st)
    case None
    then show ?thesis using i(1) a 1(3) by auto
  next
    case (Some s)
    obtain tls' s' where "recordTick (\<lambda>d. cpu (d + 1)) th t n tls1 s = Some (tls', s')" "stats_inv s'"
      "\<forall>u. counts u s' = (if u = t then map (\<lambda>x. x + n) (counts u s) else counts u s)"
      using 1(1) [OF ticker_ok_max [OF 1(3)] i(1) refl refl Some 1(3)] 1(2,3) Some by auto
    then show ?thesis using i(1) a 1(3) Some by auto
  qed
qed

lemma setTickerCount_counts:
  assumes "stats_inv s" and "t < TICKER_ENUM_MAX"
  shows "\<exists>s'. setTickerCount t v s = Some s' \<and> stats_inv s' \<and>
    (\<forall>u. counts u s' = (if u = t then map (\<lambda>_. v) (counts u s) else counts u s))"
  using assms
proof (induction t v s rule: setTickerCount.induct)
  case (1 t v st internal c)
  obtain c' where c': "setTickerCountLocked internal t v c = Some c'" "core_inv c'"
    "\<forall>u. ticker_total u c' = (if u = t then v else ticker_total u c)"
    using setTickerCountLocked_total [of c t internal v] 1(2,3) by auto
  show ?case
  proof (cases st)
    case None
    then show ?thesis using c' by auto
  next
    case (Some s)
    then obtain s' where "setTickerCount t v s = Some s'" "stats_inv s'"
      "\<forall>u. counts u s' = (if u = t then map (\<lambda>_. v) (counts u s) else counts u s)"
      using 1(1) [OF c'(1) Some 1(3)] 1(2,3) by auto
    then show ?thesis using c' 1(3) Some by auto
  qed
qed

lemma getAndReset_counts:
  assumes "stats_inv s" and "t < TICKER_ENUM_MAX"
  shows "\<exists>s'. getAndResetTickerCount t s = Some (hd (counts t s), s') \<and> stats_inv s' \<and>
    (\<forall>u. counts u s' = (if u = t then map (\<lambda>_. 0) (counts u s) else counts u s))"
proof (cases s)
  case (StatisticsImpl st internal c)
  obtain c' where c': "fold (reset_core t) [0..<cl_Size c] (0, c) = (ticker_total t c, c')" "core_inv c'"
    "\<forall>u. ticker_total u c' = (if u = t then 0 else ticker_total u c)"
    using reset_cores [of c t] assms StatisticsImpl by auto
  show ?thesis
  proof (cases st)
    case None
    then show ?thesis using c' StatisticsImpl assms(2) by (auto simp: getAndResetTickerCount_def)
  next
    case (Some s1)
    then have "stats_inv s1" using assms(1) StatisticsImpl by simp
    then obtain s' where "setTickerCount t 0 s1 = Some s'" "stats_inv s'"
      "\<forall>u. counts u s' = (if u = t then map (\<lambda>_. 0) (counts u s1) else counts u s1)"
      using setTickerCount_counts [OF _ assms(2)] by blast
    then show ?thesis using c' StatisticsImpl assms(2) Some by (auto simp: getAndResetTickerCount_def)
  qed
qed

lemma Reset_counts:
  assumes "stats_inv s"
  shows "\<exists>s'. stats_Reset s = Some s' \<and> stats_inv s' \<and> (\<forall>t < TICKER_ENUM_MAX. counts t s' = 0 # tl (counts t s))"
proof (cases s)
  case (StatisticsImpl st internal c)
  let ?step = "\<lambda>t c. Option.bind c (setTickerCountLocked internal t 0)"
  have "\<exists>d. fold ?step [0..<n] (Some c) = Some d \<and> core_inv d \<and> (\<forall>t < n. ticker_total t d = 0)" if "n \<le> TICKER_ENUM_MAX" for n
    using that
  proof (induction n)
    case (Suc n)
    then obtain d where d: "fold ?step [0..<n] (Some c) = Some d" "core_inv d" "\<forall>t < n. ticker_total t d = 0" by auto
    then obtain d' where "setTickerCountLocked internal n 0 d = Some d'" "core_inv d'" "\<forall>u. ticker_total u d' = (if u = n then 0 else ticker_total u d)"
      using setTickerCountLocked_total [OF d(2), of n internal 0] Suc.prems by (metis Suc_le_lessD)
    then show ?case using d by (simp add: less_Suc_eq)
  qed (use assms StatisticsImpl in simp)
  then obtain d where "fold ?step [0..<TICKER_ENUM_MAX] (Some c) = Some d" "core_inv d" "\<forall>t < TICKER_ENUM_MAX. ticker_total t d = 0"
    by blast
  then show ?thesis
    using assms StatisticsImpl by (auto simp: stats_Reset_def HISTOGRAM_ENUM_MAX_def split: option.splits)
qed

section \<open>Resetting while other threads count\<close>

text \<open>A run of \<^verbatim>\<open>getAndResetTickerCount\<close> from core \<open>i\<close> on, in which other threads make the additions \<open>a\<close>, pairs of a
  core and a count, before the loop comes to the next core.\<close>

fun reset_run ::
  "nat \<Rightarrow> nat \<Rightarrow> (nat \<times> u64) list list \<Rightarrow> u64 \<times> StatisticsData CoreLocalArray \<Rightarrow> u64 \<times> StatisticsData CoreLocalArray" where
  "reset_run t i [] st = st"
| "reset_run t i (a # as) (acc, c) = reset_run t (i + 1) as (reset_core t i (acc, fold (\<lambda>(j, n). ticker_add t n j) a c))"

lemma reset_run_alone: "reset_run t i (replicate n []) st = fold (reset_core t) [i..<i + n] st"
proof (induction n arbitrary: i st)
  case (Suc n)
  have "[i..<i + Suc n] = i # [i + 1..<i + 1 + n]" by (simp add: upt_conv_Cons)
  then show ?case using Suc [of "i + 1"] by (cases st) simp
qed simp

lemma adds_total:
  assumes "core_inv c" and "t < TICKER_ENUM_MAX" and "\<forall>(j, n) \<in> set a. j < cl_Size c"
  shows "core_inv (fold (\<lambda>(j, n). ticker_add t n j) a c) \<and> cl_Size (fold (\<lambda>(j, n). ticker_add t n j) a c) = cl_Size c \<and>
    ticker_total t (fold (\<lambda>(j, n). ticker_add t n j) a c) = ticker_total t c + (\<Sum>(j, n) \<leftarrow> a. n)"
  using assms
proof (induction a arbitrary: c)
  case (Cons x a)
  obtain j n where x: "x = (j, n)" by fastforce
  have j: "j < cl_Size c" using Cons.prems(3) x by simp
  note t = ticker_add_total [OF Cons.prems(1) j Cons.prems(2), where n = n]
  show ?case using Cons.IH [of "ticker_add t n j c"] Cons.prems t x by (simp add: add.assoc)
qed simp

lemma reset_run_total:
  assumes "core_inv c" and "t < TICKER_ENUM_MAX" and "i + length as \<le> cl_Size c"
    and "\<forall>a \<in> set as. \<forall>(j, n) \<in> set a. j < cl_Size c" and "reset_run t i as (acc, c) = (acc', c')"
  shows "acc' + ticker_total t c' = acc + ticker_total t c + (\<Sum>a \<leftarrow> as. \<Sum>(j, n) \<leftarrow> a. n)"
  using assms
proof (induction as arbitrary: i acc c)
  case (Cons a as)
  let ?d = "fold (\<lambda>(j, n). ticker_add t n j) a c"
  have d: "core_inv ?d" "cl_Size ?d = cl_Size c" "ticker_total t ?d = ticker_total t c + (\<Sum>(j, n) \<leftarrow> a. n)"
    using adds_total [OF Cons.prems(1,2), of a] Cons.prems(4) by simp_all
  obtain old e where e: "ticker_exchange t 0 i ?d = (old, e)" by fastforce
  have "i < cl_Size ?d" using Cons.prems(3) d(2) by simp
  note x = ticker_exchange_total [OF d(1) this Cons.prems(2) e]
  have "acc' + ticker_total t c' = acc + old + ticker_total t e + (\<Sum>a \<leftarrow> as. \<Sum>(j, n) \<leftarrow> a. n)"
    using Cons.IH [of e "i + 1" "acc + old"] Cons.prems x d e by (simp add: reset_core_def)
  then show ?case using x(4) [of t] d(3) by (simp add: algebra_simps)
qed simp

section \<open>Properties\<close>

text \<open>C34: whatever cores the updates go to, the tickers refine one counter modulo \<open>2 ^ 64\<close> per ticker, in the
  statistics and in every statistics that updates are forwarded to: no operation fails, \<^verbatim>\<open>recordTick\<close> adds
  to the counters of its ticker and changes no other, \<^verbatim>\<open>setTickerCount\<close> sets them, \<^verbatim>\<open>getAndResetTickerCount\<close>
  returns the counter and clears it, \<^verbatim>\<open>getTickerCount\<close> reads it, and \<^verbatim>\<open>Reset\<close> clears all counters but not those
  that are forwarded to.\<close>

theorem statistics_refine_counters:
  assumes "stats_inv s" and "t < TICKER_ENUM_MAX"
  shows "getTickerCount t s = Some (hd (counts t s)) \<and>
    (\<exists>tls' s'. recordTick cpu th t n tls s = Some (tls', s') \<and> stats_inv s' \<and>
       (\<forall>u. counts u s' = (if u = t then map (\<lambda>x. x + n) (counts u s) else counts u s))) \<and>
    (\<exists>s'. setTickerCount t n s = Some s' \<and> stats_inv s' \<and>
       (\<forall>u. counts u s' = (if u = t then map (\<lambda>_. n) (counts u s) else counts u s))) \<and>
    (\<exists>s'. getAndResetTickerCount t s = Some (hd (counts t s), s') \<and> stats_inv s' \<and>
       (\<forall>u. counts u s' = (if u = t then map (\<lambda>_. 0) (counts u s) else counts u s))) \<and>
    (\<exists>s'. stats_Reset s = Some s' \<and> stats_inv s' \<and> (\<forall>u < TICKER_ENUM_MAX. counts u s' = 0 # tl (counts u s)))"
proof -
  have "getTickerCount t s = Some (hd (counts t s))"
    using getTickerCount_total [OF _ assms(2), of s] assms(1) by (cases s) auto
  then show ?thesis
    using recordTick_counts [OF assms] setTickerCount_counts [OF assms] getAndReset_counts [OF assms] Reset_counts [OF assms(1)]
    by blast
qed

theorem statistics_refine_counters_witness:
  "\<exists>s s' tls. CreateDBStatistics 4 = Some s \<and>
     recordTick (\<lambda>_. 5) 0 (ticker_id BYTES_READ) 100 None s = Some (tls, s') \<and>
     counts (ticker_id BYTES_READ) s' = [100] \<and> counts (ticker_id LOG_READS) s' = [0]"
proof -
  obtain s where s: "CreateDBStatistics 4 = Some s" "stats_inv s" "\<forall>t < TICKER_ENUM_MAX. counts t s = [0]"
    using new_stats [of 4] by auto
  have t: "ticker_id BYTES_READ < TICKER_ENUM_MAX" "ticker_id LOG_READS < TICKER_ENUM_MAX" by (simp_all add: TICKER_ENUM_MAX_def)
  show ?thesis
    using statistics_refine_counters [OF s(2) t(1), of "\<lambda>_. 5" 0 100 None] s(1,3) t by fastforce
qed

text \<open>C35: \<^verbatim>\<open>getAndResetTickerCount\<close> loses no update: when other threads add to the ticker while it goes from core
  to core, what it returns and what is left in the counters afterwards add up to the count before and
  everything that was added meanwhile. Without other threads the run is that of the code.\<close>

theorem reset_loses_no_tick:
  assumes "core_inv c" and "t < TICKER_ENUM_MAX" and "length as = cl_Size c"
    and "\<forall>a \<in> set as. \<forall>(j, n) \<in> set a. j < cl_Size c"
  shows "(case reset_run t 0 as (0, c) of (acc, c') \<Rightarrow> acc + ticker_total t c' = ticker_total t c + (\<Sum>a \<leftarrow> as. \<Sum>(j, n) \<leftarrow> a. n)) \<and>
    getAndResetTickerCount t (StatisticsImpl None internal c) =
      (case reset_run t 0 (replicate (cl_Size c) []) (0, c) of (acc, c') \<Rightarrow> Some (acc, StatisticsImpl None internal c'))"
proof (rule conjI)
  obtain acc' c' where r: "reset_run t 0 as (0, c) = (acc', c')" by fastforce
  show "case reset_run t 0 as (0, c) of (acc, c') \<Rightarrow> acc + ticker_total t c' = ticker_total t c + (\<Sum>a \<leftarrow> as. \<Sum>(j, n) \<leftarrow> a. n)"
    using reset_run_total [OF assms(1,2) _ assms(4) r] assms(3) r by simp
  show "getAndResetTickerCount t (StatisticsImpl None internal c) =
      (case reset_run t 0 (replicate (cl_Size c) []) (0, c) of (acc, c') \<Rightarrow> Some (acc, StatisticsImpl None internal c'))"
    using assms(2) by (simp add: getAndResetTickerCount_def reset_run_alone case_prod_beta)
qed

theorem reset_loses_no_tick_witness:
  "\<exists>c acc c'. core_inv c \<and> reset_run 0 0 ([(0, 3), (2, 4)] # [(0, 5)] # replicate 6 []) (0, c) = (acc, c') \<and>
     acc + ticker_total 0 c' = 12"
proof -
  obtain s where s: "CreateDBStatistics 4 = Some s" "stats_inv s" "\<forall>t < TICKER_ENUM_MAX. counts t s = [0]" "stats_fwd s = None"
    using new_stats [of 4] by auto
  define c where "c = per_core_stats s"
  have "shift_loop 4 3 = Some 3" by (simp add: shift_loop.simps)
  then have c: "core_inv c" "cl_Size c = 8" "ticker_total 0 c = 0"
    using s by (auto simp: c_def CreateDBStatistics_def new_StatisticsImpl_def new_CoreLocalArray_def cl_Size_def TICKER_ENUM_MAX_def)
  let ?as = "[(0, 3), (2, 4)] # [(0, 5)] # replicate 6 [] :: (nat \<times> u64) list list"
  have "\<forall>a \<in> set ?as. \<forall>(j, n) \<in> set a. j < cl_Size c" using c(2) by auto
  then have "case reset_run 0 0 ?as (0, c) of (acc, c') \<Rightarrow> acc + ticker_total 0 c' = ticker_total 0 c + (\<Sum>a \<leftarrow> ?as. \<Sum>(j, n) \<leftarrow> a. n)"
    using reset_loses_no_tick [OF c(1), of 0 ?as] c(2) by (simp add: TICKER_ENUM_MAX_def)
  moreover have "(\<Sum>a \<leftarrow> ?as. \<Sum>(j, n) \<leftarrow> a. n) = 12" by code_simp
  ultimately show ?thesis using c(1,3) by (cases "reset_run 0 0 ?as (0, c)") (auto intro!: exI [of _ c])
qed

text \<open>The array of per-core values is as long as the least power of two that is at least 8 and at least
  the number of processors, the loop that finds it ends, and every access, with or without a processor
  number, stays inside it.\<close>

theorem core_array_size:
  assumes "num_cpus \<le> 2 ^ 30"
  shows "\<exists>c. new_CoreLocalArray num_cpus d = Some c \<and> length (cl_data c) = cl_Size c \<and> 8 \<le> cl_Size c \<and>
    num_cpus \<le> int (cl_Size c) \<and> (cl_Size c = 8 \<or> int (cl_Size c) < 2 * num_cpus) \<and>
    (\<forall>cpuid th tls. \<exists>i tls' x. AccessIndex cpuid th tls c = Some (i, tls') \<and> AccessAtCore c i = Some x)"
proof -
  obtain k where k: "shift_loop num_cpus 3 = Some k" "3 \<le> k" "k \<le> 30" "num_cpus \<le> 2 ^ k" "k = 3 \<or> 2 ^ (k - 1) < num_cpus"
    using shift_loop_finds [OF assms, of 3] by auto
  let ?c = "\<lparr>cl_data = replicate (2 ^ k) d, size_shift = k\<rparr>"
  have "(2 :: nat) ^ 3 \<le> 2 ^ k" using k(2) by (rule power_increasing) simp
  moreover have "(2 :: int) ^ k = 2 * 2 ^ (k - 1)" using k(2) by (cases k) simp_all
  moreover have "\<exists>i tls' x. AccessIndex cpuid th tls ?c = Some (i, tls') \<and> AccessAtCore ?c i = Some x" for cpuid th tls
    using AccessIndex_bound [of ?c cpuid th tls] k(3) by (auto simp: AccessAtCore_def)
  ultimately show ?thesis
    using k by (intro exI [of _ ?c]) (auto simp: new_CoreLocalArray_def cl_Size_def)
qed

end
