(* ===== verification/Spec2Isabelle.thy ===== *)
theory Spec2Isabelle
  imports TreeProps AfterImageProps LruCache IteratorProps CommittedIndex TxnFinder AfterImageMatcher
    EntryServiceProps NodeCacheProps DBCreate RandomGen Autovector ThreadLocalProps HistogramProps
    StatisticsProps
begin

text \<open>
  CruzDB is a key-value store on a shared log. A transaction works on a private copy-on-write red-black
  tree and appends its operations to the log as an \<^emph>\<open>intention\<close>. Every database instance reads the log
  in order, decides for each intention whether it commits, and replays the committed ones; the nodes that
  a commit creates are written back to the log as an \<^emph>\<open>after image\<close>, from which they can be read again.
  This development models that path from the tree to the transaction processor and proves what it promises.

  \<^bold>\<open>Conventions.\<close> A C++ computation that fails an assertion, dereferences a null pointer, uses an invalid
  iterator or does not end is \<open>None\<close>; every theorem that says \<open>\<exists>x. f \<dots> = Some x\<close> therefore says that the code
  completes without such a failure. Error codes are \<open>Inl\<close> of \<open>errno\<close>. Log positions are 64-bit words, offsets in
  after images 16-bit words, rids are signed 64-bit numbers read with \<open>sint\<close>. Loops whose end is not obvious
  are partial functions to \<open>option\<close> and their end is proved where a theorem needs it; no fuel is used in the
  model (\<open>collect\<close> in \<open>IteratorProps\<close> and \<open>IO_turns\<close> in \<open>EntryServiceProps\<close> count the steps of a client). Threads are
  represented by the steps they take under the locks. Keys and values are strings at the level of the
  database and arbitrary linear orders in the tree.

  \<^bold>\<open>Theories\<close>, from the bottom up:

  \<^item> \<open>Prelude\<close>: machine integers, error codes, the deque operations, sorted association lists.
  \<^item> \<open>Node\<close>: addresses, node pointers and nodes of \<^verbatim>\<open>src/db/node.h\<close>; the nodes of the process are a heap.
  \<^item> \<open>PersistentTree\<close>: \<^verbatim>\<open>src/db/persistent_tree.cc\<close>, one definition per function (insertion, deletion, rotations,
    copying, lookup). \<open>TreeAbs\<close>, \<open>TreeSteps\<close>, \<open>TreeInsert\<close> and \<open>TreeDelete\<close> relate the heap to mathematical trees and
    show what each building block does. \<open>TreeMap\<close> states the contract of a versioned map as a locale,
    \<open>versioned_map\<close>, and interprets it on the tree; \<open>TreeProps\<close> has the properties C1 to C6 and C8. \<open>TreeRefs\<close> has C7:
    the heap conforms, as in a type soundness proof, so that no reference of any node ever dangles.
  \<^item> \<open>AfterImage\<close>: the rest of \<^verbatim>\<open>persistent_tree.cc\<close> (\<^verbatim>\<open>infect_self_pointers\<close>, serialization, \<^verbatim>\<open>SetDeltaPosition\<close>) and
    \<^verbatim>\<open>deserialize_node\<close> of \<^verbatim>\<open>src/db/node_cache.cc\<close>. \<open>AfterImageProps\<close> has C9 to C11: what is written decodes to the tree.
    \<open>AfterImageHeap\<close> shows that giving the new nodes their final rid keeps the heap well formed.
  \<^item> \<open>LruCache\<close>: \<^verbatim>\<open>src/db/lru_cache.hpp\<close>, with the locale \<open>lookup_cache\<close> and C12.
  \<^item> \<open>Intention\<close>: \<^verbatim>\<open>src/db/intention.h\<close> and \<^verbatim>\<open>src/db/transaction_impl.cc\<close>.
  \<^item> \<open>IteratorImpl\<close>: \<^verbatim>\<open>src/db/iterator_impl.cc\<close>; \<open>IteratorProps\<close> shows that an iterator stands at an index of the
    sorted list of entries and has C13 to C15.
  \<^item> \<open>CommittedIndex\<close>: \<^verbatim>\<open>CommittedIntentionIndex\<close> and \<^verbatim>\<open>FinishedTransactions\<close> of \<^verbatim>\<open>src/db/db_impl.cc\<close>, and
    what a range of the index tells about the conflict zone of a snapshot.
  \<^item> \<open>TxnFinder\<close>: \<^verbatim>\<open>TransactionFinder\<close> of \<^verbatim>\<open>db_impl.cc\<close>, as an interleaving of its steps; C18.
  \<^item> \<open>AfterImageMatcher\<close>: \<^verbatim>\<open>PrimaryAfterImageMatcher\<close> of \<^verbatim>\<open>src/db/entry_service.cc\<close>, refined to an abstract matcher
    without garbage collection; C19.
  \<^item> \<open>EntryService\<close>: the cache over the log and the thread that follows it; \<open>EntryServiceProps\<close> has C20 and C21,
    on the agreement of cache and log.
  \<^item> \<open>NodeCache\<close>: \<^verbatim>\<open>src/db/node_cache.cc\<close>, the sharded cache of tree nodes; \<open>NodeCacheProps\<close> has C17 and C30: its
    invariant, what \<^verbatim>\<open>fetch\<close> returns, and eviction.
  \<^item> \<open>DBImpl\<close>: \<^verbatim>\<open>db_impl.cc\<close> and \<^verbatim>\<open>db.cc\<close>. \<open>DBProps\<close> has the lemmas on decimal keys, replay, conflict zones, committing
    a tree, validation and scans; \<open>DBTheorems\<close> has C22 to C24 and C29: replay, and what the transaction processor does with
    one intention. \<open>DBRun\<close> composes them: the invariant of the database lets the processor go on, so that a run over
    any part of the log refines an abstract database, which is a map with the committed positions (C25), and a
    transaction is followed from its start to the decision that its thread receives (C26); C28 shows where two
    instances on the same log disagree. \<open>DBOpen\<close> has the parts that use the node cache (finalizer, statistics, constructor,
    \<^verbatim>\<open>DB::Open\<close>) and C16: the search for a restore point. \<open>DBCreate\<close> has
    C27: opening an empty log gives a database from which the runs of \<open>DBRun\<close> can start.
  \<^item> The measurements that the database takes use code of their own: \<open>RandomGen\<close> (\<^verbatim>\<open>src/util/random.h\<close>, C40), \<open>Autovector\<close>
    (\<^verbatim>\<open>src/util/autovector.h\<close>, C39, with the locale \<open>growable\<close>), \<open>ThreadLocal\<close> and \<open>ThreadLocalProps\<close>
    (\<^verbatim>\<open>src/util/thread_local.cc\<close>, C36 to C38: pointers per thread refine a table, in every state that a program
    reaches), \<open>Histogram\<close> and \<open>HistogramProps\<close> (\<^verbatim>\<open>src/monitoring/histogram.cc\<close>, C31 to C33) over \<open>Doubles\<close>, and \<open>Statistics\<close> and
    \<open>StatisticsProps\<close> (\<^verbatim>\<open>src/monitoring/statistics.cc\<close> and \<^verbatim>\<open>src/util/core_local.h\<close>, C34 and C35: counters per core
    refine one counter).

  \<^bold>\<open>Parameters.\<close> The shared log (\<open>zlog\<close>) and the protobuf encoding (\<open>codec\<close>) are not part of the repository; they are
  records of functions that the definitions take as arguments. What is assumed of the log is \<open>log_spec\<close> (a
  position once written or filled keeps its content, and reads return it) and, for completion, \<open>reliable\<close>; both
  hold of the list-based log that the witnesses use. Transaction tokens, which the code draws at random, are
  arguments, and so is the index from intentions to after images where it is only read.

  \<^bold>\<open>Abstractions.\<close> A heap maps node numbers to nodes, number 0 being nil; \<^verbatim>\<open>NodePtr\<close> keeps a weak reference that may
  have to be fetched again from the log, and the model has the resident reference. A transaction works on
  its own copy of the heap; when its tree becomes the root, its heap becomes the database's. C5 and C6
  justify this: an operation changes only nodes of its own version.

  \<^bold>\<open>Not modelled.\<close> The destructors, which stop and join the threads, and the metrics handler. Walking a tree whose
  nodes have to be fetched is modelled by \<open>ptr_ref\<close>, but the tree operations are stated for resident nodes. The
  after image finalizer has a definition and no theorem of its own, and opening a log that is not empty is followed
  only up to the restore point, because the nodes of its after image still have to be fetched. Of the
  measurements, printing (\<^verbatim>\<open>ToString\<close>), \<^verbatim>\<open>Random64\<close>, which delegates to the standard library, and the members of
  \<^verbatim>\<open>HistogramImpl\<close> that only lock and delegate are left out. The port layer, tests, tools and the Java bindings have no effect on the state of
  the database.
\<close>

end
